(* ===== verification/Prelude.thy ===== *)
theory Prelude
  imports Main "HOL-Library.Word" "HOL-Library.Signed_Division"
begin

text \<open>
  The shared base of the development: the names of the machine types the C sources use, the
  result type of routines that can terminate the process, the arithmetic macros that several
  source files define, and the generic facts on lists, blocks and words that the component
  theories rest on.  The collections declared here (\<open>crypt_simps\<close>, \<open>len_simps\<close>)
  gather the component facts that the proofs pass to the simplifier.
\<close>

unbundle bit_operations_syntax

named_theorems len_simps \<open>lengths of the buffers the modelled routines return\<close>
named_theorems crypt_simps \<open>inverse laws of the modelled ciphers\<close>

type_synonym u8 = "8 word"
type_synonym u16 = "16 word"
type_synonym u32 = "32 word"
type_synonym u64 = "64 word"
type_synonym bytes = "u8 list"

section \<open>Routines that may terminate the process\<close>

text \<open>
  A call of \<open>die\<close>, \<open>exit\<close> or a failing \<open>ASSERT\<close> ends the program.  Such a routine
  returns \<open>Inl\<close> of the reason, and \<open>bindr\<close> stops at the first one.  \<open>NoReturn\<close> is
  the outcome of a call whose loop does not end.
\<close>

datatype die =
    Assertion string
  | Die string
  | NoReturn

type_synonym 'a result = "die + 'a"

definition bindr :: "'e + 'a \<Rightarrow> ('a \<Rightarrow> 'e + 'b) \<Rightarrow> 'e + 'b" where
  "bindr m f = (case m of Inl e \<Rightarrow> Inl e | Inr x \<Rightarrow> f x)"

definition assertr :: "bool \<Rightarrow> string \<Rightarrow> unit result" where
  "assertr b msg = (if b then Inr () else Inl (Assertion msg))"

definition dieif :: "bool \<Rightarrow> string \<Rightarrow> unit result" where
  "dieif b msg = (if b then Inl (Die msg) else Inr ())"

lemma bindr_simps [simp]:
  "bindr (Inl e) f = Inl e"
  "bindr (Inr x) f = f x"
  by (simp_all add: bindr_def)

lemma bindr_Inr_iff: "bindr m f = Inr y \<longleftrightarrow> (\<exists>x. m = Inr x \<and> f x = Inr y)"
  by (cases m) auto

lemma bindr_Inl_iff:
  "bindr m f = Inl e \<longleftrightarrow> m = Inl e \<or> (\<exists>x. m = Inr x \<and> f x = Inl e)"
  by (cases m) auto

lemma assertr_simps [simp]:
  "assertr True msg = Inr ()"
  "assertr False msg = Inl (Assertion msg)"
  by (simp_all add: assertr_def)

lemma assertr_Inr_iff [simp]: "assertr b msg = Inr u \<longleftrightarrow> b"
  by (simp add: assertr_def)

lemma dieif_simps [simp]:
  "dieif False msg = Inr ()"
  "dieif True msg = Inl (Die msg)"
  by (simp_all add: dieif_def)

lemma dieif_Inr_iff [simp]: "dieif b msg = Inr u \<longleftrightarrow> \<not> b"
  by (simp add: dieif_def)

section \<open>Signed division\<close>

text \<open>Division and remainder of C round towards zero; on natural numbers they are the usual ones.\<close>

lemma smod_nonneg: "0 \<le> (a::int) \<Longrightarrow> 0 < b \<Longrightarrow> a smod b = a mod b"
  by (simp add: signed_modulo_int_def signed_divide_int_def sgn_if minus_div_mult_eq_mod)

lemma sdiv_nonneg: "0 \<le> (a::int) \<Longrightarrow> 0 < b \<Longrightarrow> a sdiv b = a div b"
  by (simp add: signed_divide_int_def sgn_if)

section \<open>Rounding to a power of two\<close>

text \<open>
  The \<open>ROUND_DOWN\<close> and \<open>ROUND_UP\<close> macros mask with \<open>~(y - 1)\<close>.  Sizes are natural
  numbers here, so the mask is taken on integers, where complement is not cut off at a width.
\<close>

definition ROUND_DOWN :: "nat \<Rightarrow> nat \<Rightarrow> nat" where
  "ROUND_DOWN x y = nat (int x AND NOT (int y - 1))"

definition ROUND_UP :: "nat \<Rightarrow> nat \<Rightarrow> nat" where
  "ROUND_UP x y = nat ((int x + int y - 1) AND NOT (int y - 1))"

definition DIV_ROUND_UP :: "nat \<Rightarrow> nat \<Rightarrow> nat" where
  "DIV_ROUND_UP n d = (n + d - 1) div d"

lemma int_and_not_mask: "(x::int) AND NOT (2 ^ k - 1) = x div 2 ^ k * 2 ^ k"
proof -
  have "x AND NOT (2 ^ k - 1) = x AND NOT (mask k)"
    by (simp add: mask_eq_exp_minus_1)
  also have "\<dots> = push_bit k (drop_bit k x)"
    by (auto simp: bit_eq_iff bit_simps)
  finally show ?thesis
    by (simp add: push_bit_eq_mult drop_bit_eq_div)
qed

lemma ROUND_DOWN_pow2: "ROUND_DOWN x (2 ^ k) = x div 2 ^ k * 2 ^ k"
proof -
  have "int x div 2 ^ k * 2 ^ k = int (x div 2 ^ k * 2 ^ k)"
    by (simp add: zdiv_int)
  then show ?thesis
    by (simp only: ROUND_DOWN_def int_and_not_mask of_nat_power of_nat_numeral nat_int)
qed

lemma ROUND_UP_pow2: "ROUND_UP x (2 ^ k) = (x + 2 ^ k - 1) div 2 ^ k * 2 ^ k"
proof -
  have "(1::nat) \<le> 2 ^ k" by simp
  then have "int x + int (2 ^ k) - 1 = int (x + 2 ^ k - 1)"
    by (simp only: of_nat_add of_nat_diff of_nat_1 le_add2 trans_le_add2)
  then have "ROUND_UP x (2 ^ k) = ROUND_DOWN (x + 2 ^ k - 1) (2 ^ k)"
    by (simp only: ROUND_UP_def ROUND_DOWN_def)
  then show ?thesis
    by (simp only: ROUND_DOWN_pow2)
qed

lemma ceil_mult_bounds:
  assumes "0 < (n::nat)"
  shows "x \<le> (x + n - 1) div n * n" and "(x + n - 1) div n * n < x + n"
proof -
  let ?q = "(x + n - 1) div n * n" and ?r = "(x + n - 1) mod n"
  have "?q + ?r = x + n - 1" and "?r < n"
    using assms by (simp_all add: div_mult_mod_eq)
  then show "x \<le> ?q" and "?q < x + n"
    using assms by linarith+
qed

lemma ROUND_UP_ge: "x \<le> ROUND_UP x (2 ^ k)"
  unfolding ROUND_UP_pow2 by (rule ceil_mult_bounds) simp

lemma ROUND_UP_less: "ROUND_UP x (2 ^ k) < x + 2 ^ k"
  unfolding ROUND_UP_pow2 by (rule ceil_mult_bounds) simp

lemma ROUND_UP_dvd: "2 ^ k dvd ROUND_UP x (2 ^ k)"
  by (simp add: ROUND_UP_pow2)

section \<open>Lists as sequences of blocks\<close>

lemma block_induct [consumes 2, case_names Nil Block]:
  assumes "length xs mod n = 0" and "0 < (n::nat)"
    and "P []"
    and "\<And>b xs. length b = n \<Longrightarrow> length xs mod n = 0 \<Longrightarrow> P xs \<Longrightarrow> P (b @ xs)"
  shows "P xs"
  using assms(1)
proof (induction xs rule: length_induct)
  case (1 xs)
  show ?case
  proof (cases "xs = []")
    case True
    then show ?thesis using assms(3) by simp
  next
    case False
    with 1 assms(2) have len: "n \<le> length xs"
      by (metis length_greater_0_conv mod_less linorder_not_less less_numeral_extra(3))
    then have "length (drop n xs) mod n = 0"
      using 1 by (simp add: le_mod_geq)
    moreover from False assms(2) have "length (drop n xs) < length xs" by simp
    ultimately have "P (drop n xs)" using 1(1) by metis
    with assms(4) [of "take n xs" "drop n xs"] len \<open>length (drop n xs) mod n = 0\<close>
    show ?thesis by simp
  qed
qed

lemma block16_induct [consumes 1, case_names Nil Block]:
  assumes "length xs mod 16 = 0"
    and "P []"
    and "\<And>b xs. length b = 16 \<Longrightarrow> length xs mod 16 = 0 \<Longrightarrow> P xs \<Longrightarrow> P (b @ xs)"
  shows "P xs"
  by (rule block_induct [where n = 16]) (simp_all add: assms)

lemma take_append_block [simp]: "length b = n \<Longrightarrow> take n (b @ xs) = b"
  by simp

lemma drop_append_block [simp]: "length b = n \<Longrightarrow> drop n (b @ xs) = xs"
  by simp

section \<open>Numbers with a single bit set\<close>

lemma bit_nat_top: "2 ^ k \<le> n \<Longrightarrow> n < 2 ^ Suc k \<Longrightarrow> bit (n::nat) k"
proof -
  assume "2 ^ k \<le> n" "n < 2 ^ Suc k"
  then have "n div 2 ^ k = 1" by (intro div_nat_eqI) simp_all
  then show ?thesis by (simp add: bit_iff_odd)
qed

lemma nat_and_minus_1_pow2:
  assumes "0 < (n::nat)" and "n AND (n - 1) = 0"
  shows "\<exists>k. n = 2 ^ k"
proof -
  obtain k where k: "2 ^ k \<le> n" "n < 2 ^ (k + 1)"
    using ex_power_ivl1 [of 2 n] assms(1) by auto
  have "n = 2 ^ k"
  proof (rule ccontr)
    assume "n \<noteq> 2 ^ k"
    with k have "bit n k" and "bit (n - 1) k"
      by (auto intro!: bit_nat_top)
    with assms(2) show False by (metis bit_and_iff bit_0_eq bot_apply bot_bool_def)
  qed
  then show ?thesis by blast
qed

section \<open>Buffers\<close>

text \<open>
  \<open>slice\<close> reads \<open>n\<close> elements of a buffer at an offset; \<open>put_at\<close> overwrites part of it,
  as \<open>memcpy\<close> into the buffer does.
\<close>

definition slice :: "'a list \<Rightarrow> nat \<Rightarrow> nat \<Rightarrow> 'a list" where
  "slice buf off n = take n (drop off buf)"

definition put_at :: "'a list \<Rightarrow> nat \<Rightarrow> 'a list \<Rightarrow> 'a list" where
  "put_at buf off xs = take off buf @ xs @ drop (off + length xs) buf"

lemma length_put_at [simp]: "off + length xs \<le> length buf \<Longrightarrow> length (put_at buf off xs) = length buf"
  by (simp add: put_at_def)

lemma put_at_append:
  "length a = off \<Longrightarrow> length xs = length b \<Longrightarrow> put_at (a @ b @ c) off xs = a @ xs @ c"
  by (simp add: put_at_def)

lemma length_slice [simp]: "off + n \<le> length buf \<Longrightarrow> length (slice buf off n) = n"
  by (simp add: slice_def)

lemma slice_append: "length a = off \<Longrightarrow> length b = n \<Longrightarrow> slice (a @ b @ c) off n = b"
  by (simp add: slice_def)

lemma slice_put_at:
  "off + length xs \<le> length buf \<Longrightarrow> length xs = n \<Longrightarrow> slice (put_at buf off xs) off n = xs"
  by (simp add: slice_def put_at_def)

lemma put_at_slice: "off + n \<le> length buf \<Longrightarrow> put_at buf off (slice buf off n) = buf"
  by (simp add: slice_def put_at_def) (metis append_take_drop_id drop_drop add.commute)

lemma length_concat_fixed: "(\<And>x. length (f x) = n) \<Longrightarrow> length (concat (map f xs)) = n * length xs"
  by (induction xs) simp_all

end
