(* ===== verification/Bytes.thy ===== *)
theory Bytes
  imports Prelude "HOL-Library.Char_ord"
begin

text \<open>
  The utility routines at the top of \<open>src/src/fscrypt-crypt-util.c\<close>: unaligned access to
  little and big endian integers, rotations, the byte-wise \<open>xor\<close> loop, the power-of-two test
  and the hexadecimal decoder.  A pointer together with a length is a list of bytes; a routine
  that fills a buffer returns the buffer.
\<close>

section \<open>Unaligned access\<close>

text \<open>The integer whose little endian bytes are given, and the bytes of an integer.\<close>

fun word_of_le :: "bytes \<Rightarrow> 'a::len word" where
  "word_of_le [] = 0"
| "word_of_le (b # bs) = ucast b OR push_bit 8 (word_of_le bs)"

definition le_of_word :: "nat \<Rightarrow> 'a::len word \<Rightarrow> bytes" where
  "le_of_word n w = map (\<lambda>i. ucast (drop_bit (8 * i) w)) [0..<n]"

definition get_unaligned_le32 :: "bytes \<Rightarrow> u32" where
  "get_unaligned_le32 p = word_of_le (take 4 p)"

definition put_unaligned_le32 :: "u32 \<Rightarrow> bytes" where
  "put_unaligned_le32 v = le_of_word 4 v"

definition get_unaligned_be32 :: "bytes \<Rightarrow> u32" where
  "get_unaligned_be32 p = word_of_le (rev (take 4 p))"

definition put_unaligned_be32 :: "u32 \<Rightarrow> bytes" where
  "put_unaligned_be32 v = rev (le_of_word 4 v)"

definition get_unaligned_le64 :: "bytes \<Rightarrow> u64" where
  "get_unaligned_le64 p = word_of_le (take 8 p)"

definition put_unaligned_le64 :: "u64 \<Rightarrow> bytes" where
  "put_unaligned_le64 v = le_of_word 8 v"

definition get_unaligned_be64 :: "bytes \<Rightarrow> u64" where
  "get_unaligned_be64 p = word_of_le (rev (take 8 p))"

definition put_unaligned_be64 :: "u64 \<Rightarrow> bytes" where
  "put_unaligned_be64 v = rev (le_of_word 8 v)"

lemma length_le_of_word [simp]: "length (le_of_word n w) = n"
  by (simp add: le_of_word_def)

lemma bit_word_of_le:
  "bit (word_of_le bs :: 'a::len word) n \<longleftrightarrow>
     n < LENGTH('a) \<and> n div 8 < length bs \<and> bit (bs ! (n div 8)) (n mod 8)"
proof (induction bs arbitrary: n)
  case Nil
  then show ?case by simp
next
  case (Cons b bs)
  show ?case
  proof (cases "n < 8")
    case True
    then show ?thesis
      by (auto simp: bit_simps)
  next
    case False
    then have "n div 8 = Suc ((n - 8) div 8)" and "n mod 8 = (n - 8) mod 8"
      by (simp_all add: le_div_geq le_mod_geq)
    moreover have "\<not> bit b n"
      using False by (simp add: impossible_bit)
    ultimately show ?thesis
      using False Cons.IH [of "n - 8"] by (auto simp: bit_simps)
  qed
qed

declare word_of_le.simps(2) [simp del]

lemma word_of_le_of_word:
  assumes "LENGTH('a::len) \<le> 8 * n"
  shows "word_of_le (le_of_word n (w :: 'a word)) = w"
proof (rule bit_word_eqI)
  fix i assume i: "i < LENGTH('a)"
  with assms have "i div 8 < n" by auto
  with i show "bit (word_of_le (le_of_word n w) :: 'a word) i \<longleftrightarrow> bit w i"
    by (simp add: bit_word_of_le le_of_word_def bit_simps)
qed

lemma le_of_word_of_le:
  assumes "length bs = n" and "8 * n \<le> LENGTH('a::len)"
  shows "le_of_word n (word_of_le bs :: 'a word) = bs"
proof (rule nth_equalityI)
  show "length (le_of_word n (word_of_le bs :: 'a word)) = length bs"
    using assms by simp
next
  fix i assume "i < length (le_of_word n (word_of_le bs :: 'a word))"
  then have i: "i < n" by simp
  show "le_of_word n (word_of_le bs :: 'a word) ! i = bs ! i"
  proof (rule bit_word_eqI)
    fix j assume "j < LENGTH(8)"
    then have j: "j < 8" by simp
    then have "(8 * i + j) div 8 = i" and "(8 * i + j) mod 8 = j" by auto
    moreover have "8 * i + j < LENGTH('a)" using i j assms(2) by simp
    ultimately show "bit (le_of_word n (word_of_le bs :: 'a word) ! i) j = bit (bs ! i) j"
      using i j assms(1)
      by (simp add: le_of_word_def bit_simps bit_word_of_le)
  qed
qed

lemma get_put_le32 [simp]: "get_unaligned_le32 (put_unaligned_le32 v) = v"
  by (simp add: get_unaligned_le32_def put_unaligned_le32_def word_of_le_of_word)

lemma get_put_be32 [simp]: "get_unaligned_be32 (put_unaligned_be32 v) = v"
  by (simp add: get_unaligned_be32_def put_unaligned_be32_def word_of_le_of_word)

lemma get_put_le64 [simp]: "get_unaligned_le64 (put_unaligned_le64 v) = v"
  by (simp add: get_unaligned_le64_def put_unaligned_le64_def word_of_le_of_word)

lemma get_put_be64 [simp]: "get_unaligned_be64 (put_unaligned_be64 v) = v"
  by (simp add: get_unaligned_be64_def put_unaligned_be64_def word_of_le_of_word)

lemma put_get_le32: "length p = 4 \<Longrightarrow> put_unaligned_le32 (get_unaligned_le32 p) = p"
  by (simp add: get_unaligned_le32_def put_unaligned_le32_def le_of_word_of_le)

lemma put_get_le64: "length p = 8 \<Longrightarrow> put_unaligned_le64 (get_unaligned_le64 p) = p"
  by (simp add: get_unaligned_le64_def put_unaligned_le64_def le_of_word_of_le)

lemma put_get_be64: "length p = 8 \<Longrightarrow> put_unaligned_be64 (get_unaligned_be64 p) = p"
  by (simp add: get_unaligned_be64_def put_unaligned_be64_def le_of_word_of_le)

lemma length_put_unaligned [simp]:
  "length (put_unaligned_le32 v) = 4"
  "length (put_unaligned_be32 v) = 4"
  "length (put_unaligned_le64 w) = 8"
  "length (put_unaligned_be64 w) = 8"
  by (simp_all add: put_unaligned_le32_def put_unaligned_be32_def put_unaligned_le64_def
      put_unaligned_be64_def)

section \<open>Powers of two and rotations\<close>

definition is_power_of_2 :: "u64 \<Rightarrow> bool" where
  "is_power_of_2 v \<longleftrightarrow> v \<noteq> 0 \<and> v AND (v - 1) = 0"

definition rol32 :: "u32 \<Rightarrow> nat \<Rightarrow> u32" where
  "rol32 v n = push_bit n v OR drop_bit (32 - n) v"

definition ror32 :: "u32 \<Rightarrow> nat \<Rightarrow> u32" where
  "ror32 v n = drop_bit n v OR push_bit (32 - n) v"

definition rol64 :: "u64 \<Rightarrow> nat \<Rightarrow> u64" where
  "rol64 v n = push_bit n v OR drop_bit (64 - n) v"

definition ror64 :: "u64 \<Rightarrow> nat \<Rightarrow> u64" where
  "ror64 v n = drop_bit n v OR push_bit (64 - n) v"

lemma bit_ror32: "n \<le> 32 \<Longrightarrow> i < 32 \<Longrightarrow> bit (ror32 v n) i = bit v ((i + n) mod 32)"
proof -
  assume "n \<le> 32" "i < 32"
  then show ?thesis
    by (cases "i + n < 32")
      (auto simp: ror32_def bit_simps mod_if not_less impossible_bit algebra_simps)
qed

lemma bit_ror64: "n \<le> 64 \<Longrightarrow> i < 64 \<Longrightarrow> bit (ror64 v n) i = bit v ((i + n) mod 64)"
proof -
  assume "n \<le> 64" "i < 64"
  then show ?thesis
    by (cases "i + n < 64")
      (auto simp: ror64_def bit_simps mod_if not_less impossible_bit algebra_simps)
qed

lemma rol32_ror32: "n \<le> 32 \<Longrightarrow> rol32 v n = ror32 v (32 - n)"
  by (simp add: rol32_def ror32_def or.commute)

lemma ror32_ror32: "m + n \<le> 32 \<Longrightarrow> ror32 (ror32 v m) n = ror32 v (m + n)"
  by (rule bit_word_eqI) (simp add: bit_ror32 mod_simps add.commute add.left_commute)

lemma ror32_32 [simp]: "ror32 v 32 = v"
  by (rule bit_word_eqI) (simp add: bit_ror32)

lemma ror32_XOR: "n \<le> 32 \<Longrightarrow> ror32 (v XOR w) n = ror32 v n XOR ror32 w n"
  by (rule bit_word_eqI) (simp add: bit_ror32 bit_xor_iff)

lemma two_power_of_nat: "is_power_of_2 (2 ^ k)" if "k < 64"
proof -
  have "(2 ^ k :: u64) \<noteq> 0"
    using that by (simp add: word_2p_lem exp_eq_zero_iff)
  moreover have "(2 ^ k :: u64) AND (2 ^ k - 1) = 0"
    by (rule bit_word_eqI) (auto simp: bit_simps bit_exp_iff simp flip: mask_eq_exp_minus_1)
  ultimately show ?thesis by (simp add: is_power_of_2_def)
qed

lemma is_power_of_2_iff: "is_power_of_2 v \<longleftrightarrow> (\<exists>k < 64. v = 2 ^ k)"
proof
  assume "is_power_of_2 v"
  then have nz: "v \<noteq> 0" and and0: "v AND (v - 1) = 0"
    by (auto simp: is_power_of_2_def)
  then have "unat (v AND (v - 1)) = 0" by simp
  then have "unat v AND (unat v - 1) = 0"
    using nz by (simp add: unsigned_and_eq unat_minus_one)
  moreover have "0 < unat v" using nz by (simp add: unat_gt_0)
  ultimately obtain k where k: "unat v = 2 ^ k"
    using nat_and_minus_1_pow2 by blast
  moreover have "unat v < 2 ^ LENGTH(64)" by (rule unsigned_less)
  ultimately have "2 ^ k < (2 ^ 64 :: nat)" by simp
  then have "k < 64"
    by (simp only: power_strict_increasing_iff one_less_numeral_iff semiring_norm)
  moreover have "v = of_nat (unat v)" by simp
  then have "v = 2 ^ k" by (simp only: k of_nat_power of_nat_numeral)
  ultimately show "\<exists>k < 64. v = 2 ^ k" by blast
next
  assume "\<exists>k < 64. v = 2 ^ k"
  then show "is_power_of_2 v" using two_power_of_nat by blast
qed

section \<open>The byte-wise xor loop\<close>

text \<open>
  \<open>xor(res, a, b, count)\<close> writes the first \<open>count\<close> bytes of \<open>res\<close> and leaves the
  rest; \<open>xor_into\<close> returns the whole destination buffer.
\<close>

fun xor_into :: "bytes \<Rightarrow> bytes \<Rightarrow> bytes \<Rightarrow> nat \<Rightarrow> bytes" where
  "xor_into res a b 0 = res"
| "xor_into res a b (Suc count) = (hd a XOR hd b) # xor_into (tl res) (tl a) (tl b) count"

definition xor_bytes :: "bytes \<Rightarrow> bytes \<Rightarrow> bytes" where
  "xor_bytes a b = map2 (XOR) a b"

lemma xor_into_eq:
  "count \<le> length a \<Longrightarrow> count \<le> length b \<Longrightarrow>
     xor_into res a b count = xor_bytes (take count a) (take count b) @ drop count res"
proof (induction res a b count rule: xor_into.induct)
  case (1 res a b)
  then show ?case by (simp add: xor_bytes_def)
next
  case (2 res a b count)
  then show ?case
    by (cases a; cases b) (auto simp: xor_bytes_def drop_Suc)
qed

lemma length_xor_bytes [simp]: "length (xor_bytes a b) = min (length a) (length b)"
  by (simp add: xor_bytes_def)

lemma nth_xor_bytes [simp]:
  "i < length a \<Longrightarrow> i < length b \<Longrightarrow> xor_bytes a b ! i = a ! i XOR b ! i"
  by (simp add: xor_bytes_def)

lemma xor_bytes_commute: "xor_bytes a b = xor_bytes b a"
  by (rule nth_equalityI) (simp_all add: xor.commute)

lemma xor_bytes_assoc: "xor_bytes (xor_bytes a b) c = xor_bytes a (xor_bytes b c)"
  by (rule nth_equalityI) (simp_all add: xor.assoc)

lemma xor_bytes_cancel [crypt_simps]: "length a \<le> length b \<Longrightarrow> xor_bytes (xor_bytes a b) b = a"
  by (rule nth_equalityI) (simp_all add: xor.assoc)

lemma xor_bytes_cancel2 [crypt_simps]: "length a \<le> length b \<Longrightarrow> xor_bytes b (xor_bytes b a) = a"
  by (rule nth_equalityI) (simp_all flip: xor.assoc)

lemma xor_bytes_append:
  "length a = length c \<Longrightarrow> xor_bytes (a @ b) (c @ d) = xor_bytes a c @ xor_bytes b d"
  by (simp add: xor_bytes_def)

section \<open>Hexadecimal strings\<close>

text \<open>
  \<open>hexchar2bin\<close> returns \<open>-1\<close> for a character that is no digit.  \<open>hex2bin\<close> returns
  the number of bytes it wrote or \<open>-1\<close>; the model returns the bytes, or \<open>None\<close>.
\<close>

definition hexchar2bin :: "char \<Rightarrow> int" where
  "hexchar2bin c =
     (if CHR ''a'' \<le> c \<and> c \<le> CHR ''f'' then 10 + of_char c - of_char (CHR ''a'')
      else if CHR ''A'' \<le> c \<and> c \<le> CHR ''F'' then 10 + of_char c - of_char (CHR ''A'')
      else if CHR ''0'' \<le> c \<and> c \<le> CHR ''9'' then of_char c - of_char (CHR ''0'')
      else - 1)"

fun hex2bin_loop :: "string \<Rightarrow> bytes option" where
  "hex2bin_loop (h # l # hex) =
     (let high = hexchar2bin h; low = hexchar2bin l
      in if high < 0 \<or> low < 0 then None
         else map_option ((#) (word_of_int (push_bit 4 high OR low))) (hex2bin_loop hex))"
| "hex2bin_loop _ = Some []"

definition hex2bin :: "string \<Rightarrow> nat \<Rightarrow> bytes option" where
  "hex2bin hex max_bin_size =
     (if odd (length hex) then None
      else if max_bin_size < length hex div 2 then None
      else hex2bin_loop hex)"

lemma length_hex2bin_loop:
  "hex2bin_loop hex = Some bin \<Longrightarrow> length bin = length hex div 2"
  by (induction hex arbitrary: bin rule: hex2bin_loop.induct) (auto simp: Let_def split: if_splits)

lemma hex2bin_length:
  "hex2bin hex n = Some bin \<Longrightarrow> length bin = length hex div 2 \<and> length bin \<le> n"
  by (auto simp: hex2bin_def length_hex2bin_loop split: if_splits)

end
