(* ===== verification/GF.thy ===== *)
theory GF
  imports Bytes
begin

text \<open>
  Finite field and group arithmetic of \<open>src/src/fscrypt-crypt-util.c\<close>: multiplication by
  the polynomial \<open>x\<close> in GF(2^8) and GF(2^128), the POLYVAL field product, and addition and
  subtraction modulo 2^128 on pairs of 64-bit words.  The 128-bit structures hold their fields in
  CPU order; the conversions to and from bytes are the casts to \<open>u8 *\<close> of the source.
\<close>

section \<open>GF(2^8)\<close>

definition gf2_8_mul_x :: "u8 \<Rightarrow> u8" where
  "gf2_8_mul_x b = push_bit 1 b XOR (if b AND 0x80 \<noteq> 0 then 0x1B else 0)"

definition gf2_8_mul_x_4way :: "u32 \<Rightarrow> u32" where
  "gf2_8_mul_x_4way w =
     push_bit 1 (w AND 0x7F7F7F7F) XOR (drop_bit 7 (w AND 0x80808080) * 0x1B)"

section \<open>128-bit structures\<close>

text \<open>\<open>ble128\<close> and \<open>le128\<close> have the same layout: two little endian words, the low one first.\<close>

record le128 =
  le_lo :: u64
  le_hi :: u64

type_synonym ble128 = le128

definition le128_of_bytes :: "bytes \<Rightarrow> le128" where
  "le128_of_bytes p = \<lparr>le_lo = get_unaligned_le64 p, le_hi = get_unaligned_le64 (drop 8 p)\<rparr>"

definition bytes_of_le128 :: "le128 \<Rightarrow> bytes" where
  "bytes_of_le128 t = put_unaligned_le64 (le_lo t) @ put_unaligned_le64 (le_hi t)"

record bbe128 =
  be_hi :: u64
  be_lo :: u64

definition bbe128_of_bytes :: "bytes \<Rightarrow> bbe128" where
  "bbe128_of_bytes p = \<lparr>be_hi = get_unaligned_be64 p, be_lo = get_unaligned_be64 (drop 8 p)\<rparr>"

definition bytes_of_bbe128 :: "bbe128 \<Rightarrow> bytes" where
  "bytes_of_bbe128 t = put_unaligned_be64 (be_hi t) @ put_unaligned_be64 (be_lo t)"

lemma length_bytes_of_le128 [simp, len_simps]: "length (bytes_of_le128 t) = 16"
  by (simp add: bytes_of_le128_def)

lemma length_bytes_of_bbe128 [simp, len_simps]: "length (bytes_of_bbe128 t) = 16"
  by (simp add: bytes_of_bbe128_def)

lemma get_unaligned_le64_append:
  "length p = 8 \<Longrightarrow> get_unaligned_le64 (p @ q) = get_unaligned_le64 p"
  by (simp add: get_unaligned_le64_def)

lemma le128_of_bytes_of_le128 [simp]: "le128_of_bytes (bytes_of_le128 t) = t"
  by (simp add: le128_of_bytes_def bytes_of_le128_def get_unaligned_le64_append)

lemma bytes_of_le128_of_bytes: "length p = 16 \<Longrightarrow> bytes_of_le128 (le128_of_bytes p) = p"
proof -
  assume p: "length p = 16"
  then have "get_unaligned_le64 p = get_unaligned_le64 (take 8 p)"
    by (simp add: get_unaligned_le64_def)
  with p show ?thesis
    by (simp add: le128_of_bytes_def bytes_of_le128_def put_get_le64)
qed

section \<open>GF(2^128)\<close>

definition gf2_128_mul_x_xts :: "ble128 \<Rightarrow> ble128" where
  "gf2_128_mul_x_xts t =
     (let lo = le_lo t; hi = le_hi t
      in \<lparr>le_lo = push_bit 1 lo XOR (if hi AND push_bit 63 1 \<noteq> 0 then 0x87 else 0),
          le_hi = push_bit 1 hi OR drop_bit 63 lo\<rparr>)"

definition gf2_128_mul_x_polyval :: "ble128 \<Rightarrow> ble128" where
  "gf2_128_mul_x_polyval t =
     (let lo = le_lo t; hi = le_hi t;
          lo_reducer = (if hi AND push_bit 63 1 \<noteq> 0 then 1 else 0);
          hi_reducer = (if hi AND push_bit 63 1 \<noteq> 0 then push_bit 56 0xc2 else 0)
      in \<lparr>le_lo = push_bit 1 lo XOR lo_reducer,
          le_hi = (push_bit 1 hi OR drop_bit 63 lo) XOR hi_reducer\<rparr>)"

definition gf2_128_mul_x_cmac :: "bbe128 \<Rightarrow> bbe128" where
  "gf2_128_mul_x_cmac t =
     (let lo = be_lo t; hi = be_hi t
      in \<lparr>be_hi = push_bit 1 hi OR drop_bit 63 lo,
          be_lo = push_bit 1 lo XOR (if hi AND push_bit 63 1 \<noteq> 0 then 0x87 else 0)\<rparr>)"

text \<open>One round of either loop of \<open>gf2_128_mul_polyval\<close>, for bit \<open>i\<close> of the word \<open>b\<close>.\<close>

definition mul_polyval_step :: "u64 \<Rightarrow> nat \<Rightarrow> ble128 \<times> ble128 \<Rightarrow> ble128 \<times> ble128" where
  "mul_polyval_step b i pr =
     (let (p, r) = pr;
          p' = (if b AND push_bit i 1 \<noteq> 0
                then le128_of_bytes
                       (xor_into (bytes_of_le128 p) (bytes_of_le128 p) (bytes_of_le128 r) 16)
                else p)
      in (p', gf2_128_mul_x_polyval r))"

definition gf2_128_mul_polyval :: "ble128 \<Rightarrow> ble128 \<Rightarrow> ble128" where
  "gf2_128_mul_polyval r b =
     (let pr = fold (mul_polyval_step (le_lo b)) [0..<64] (\<lparr>le_lo = 0, le_hi = 0\<rparr>, r);
          pr' = fold (mul_polyval_step (le_hi b)) [0..<64] pr
      in fst pr')"

section \<open>Integers modulo 2^128\<close>

definition le128_add :: "le128 \<Rightarrow> le128 \<Rightarrow> le128" where
  "le128_add a b =
     (let a_lo = le_lo a; b_lo = le_lo b
      in \<lparr>le_lo = a_lo + b_lo,
          le_hi = le_hi a + le_hi b + of_bool (a_lo + b_lo < a_lo)\<rparr>)"

definition le128_sub :: "le128 \<Rightarrow> le128 \<Rightarrow> le128" where
  "le128_sub a b =
     (let a_lo = le_lo a; b_lo = le_lo b
      in \<lparr>le_lo = a_lo - b_lo,
          le_hi = le_hi a - le_hi b - of_bool (a_lo - b_lo > a_lo)\<rparr>)"

section \<open>Lanes: the packed doubling acts byte by byte\<close>

lemma bit_80: "i < 32 \<Longrightarrow> bit (0x80808080::u32) i \<longleftrightarrow> i mod 8 = 7"
proof -
  have "list_all (\<lambda>i. bit (0x80808080::u32) i = (i mod 8 = 7)) [0..<32]" by code_simp
  then show "i < 32 \<Longrightarrow> ?thesis" by (simp add: list_all_iff)
qed
lemma bit_7F: "i < 32 \<Longrightarrow> bit (0x7F7F7F7F::u32) i \<longleftrightarrow> i mod 8 \<noteq> 7"
proof -
  have "list_all (\<lambda>i. bit (0x7F7F7F7F::u32) i = (i mod 8 \<noteq> 7)) [0..<32]" by code_simp
  then show "i < 32 \<Longrightarrow> ?thesis" by (simp add: list_all_iff)
qed


lemma lanes_add_xor:
  fixes a b :: "'a::len word"
  assumes "\<And>i. bit a i \<Longrightarrow> i mod 8 \<in> S" and "\<And>i. bit b i \<Longrightarrow> i mod 8 = k" and "k \<notin> S"
  shows "a + b = a XOR b"
proof (rule disjunctive_add_eq_xor, rule bit_eqI)
  fix n
  from assms have "\<not> (bit a n \<and> bit b n)" by metis
  then show "bit (a AND b) n = bit 0 n" by (simp add: bit_and_iff)
qed

lemma mult_1B:
  fixes m :: u32
  assumes "\<And>i. bit m i \<Longrightarrow> i mod 8 = 0"
  shows "m * 0x1B = m XOR push_bit 1 m XOR push_bit 3 m XOR push_bit 4 m"
proof -
  have lane: "bit (push_bit k m) i \<Longrightarrow> i mod 8 = k" if "k < 8" for k i
    using assms [of "i - k"] that by (auto simp: bit_push_bit_iff mod_eq_0_iff_dvd elim!: dvdE)
      (metis add_diff_inverse_nat leD mod_less mod_mult_self2)
  have xor_lane: "bit (a XOR push_bit k m) i \<Longrightarrow> i mod 8 \<in> insert k S"
    if "\<And>i. bit a i \<Longrightarrow> i mod 8 \<in> S" and "k < 8" for a k i S
    using that lane by (auto simp: bit_xor_iff)
  have k8: "(1::nat) < 8" "(3::nat) < 8" "(4::nat) < 8" by simp_all
  have l0: "bit m i \<Longrightarrow> i mod 8 \<in> {0}" for i using assms by simp
  note l1 = xor_lane [OF l0 k8(1)]
  note l3 = xor_lane [OF l1 k8(2)]
  have "m * 0x1B = ((m + push_bit 1 m) + push_bit 3 m) + push_bit 4 m"
    by (simp add: push_bit_eq_mult)
  also have "m + push_bit 1 m = m XOR push_bit 1 m"
    by (rule lanes_add_xor [OF l0 lane [OF k8(1)]]) simp_all
  also have "(m XOR push_bit 1 m) + push_bit 3 m = (m XOR push_bit 1 m) XOR push_bit 3 m"
    by (rule lanes_add_xor [OF l1 lane [OF k8(2)]]) simp_all
  also have "((m XOR push_bit 1 m) XOR push_bit 3 m) + push_bit 4 m
      = ((m XOR push_bit 1 m) XOR push_bit 3 m) XOR push_bit 4 m"
    by (rule lanes_add_xor [OF l3 lane [OF k8(3)]]) simp_all
  finally show ?thesis by (simp only: xor.assoc)
qed

lemma bit_mul_x_4way:
  assumes "i < 32"
  shows "bit (gf2_8_mul_x_4way w) i \<longleftrightarrow>
    (i mod 8 \<noteq> 0 \<and> bit w (i - 1)) \<noteq> (i mod 8 \<in> {0, 1, 3, 4} \<and> bit w (8 * (i div 8) + 7))"
proof -
  have k8: "(1::nat) < 8" "(3::nat) < 8" "(4::nat) < 8" by simp_all
  define m where "m = drop_bit 7 (w AND 0x80808080)"
  have m: "bit m j \<longleftrightarrow> j mod 8 = 0 \<and> bit w (j + 7)" for j
  proof (cases "j + 7 < 32")
    case True
    moreover have "(j + 7) mod 8 = 7 \<longleftrightarrow> j mod 8 = 0" by presburger
    ultimately show ?thesis
      by (simp only: m_def bit_drop_bit_eq comp_def bit_and_iff bit_80 add.commute [of 7])
        auto
  next
    case False
    then show ?thesis
      by (simp only: m_def bit_drop_bit_eq comp_def bit_and_iff add.commute [of 7])
        (simp add: impossible_bit)
  qed
  have sh: "bit (push_bit k m) i \<longleftrightarrow> i mod 8 = k \<and> bit w (8 * (i div 8) + 7)" if "k < 8" for k
  proof (cases "k \<le> i")
    case True
    have "(i - k) mod 8 = 0 \<longleftrightarrow> i mod 8 = k"
      using mod_eq_dvd_iff_nat [OF True, of 8] that by (simp add: mod_eq_0_iff_dvd)
    moreover have "i - k + 7 = 8 * (i div 8) + 7" if "i mod 8 = k"
      using that div_mult_mod_eq [of i 8] by linarith
    ultimately show ?thesis using True assms by (auto simp: bit_push_bit_iff m)
  next
    case False
    with that have "i mod 8 \<noteq> k" by (metis mod_less linorder_not_le order.strict_trans order.refl)
    with False show ?thesis by (simp add: bit_push_bit_iff)
  qed
  have lo: "bit (push_bit 1 (w AND 0x7F7F7F7F)) i \<longleftrightarrow> i mod 8 \<noteq> 0 \<and> bit w (i - 1)"
  proof (cases i)
    case 0
    then show ?thesis by (simp only: bit_push_bit_iff) simp
  next
    case (Suc j)
    then have "j mod 8 \<noteq> 7 \<longleftrightarrow> i mod 8 \<noteq> 0" by (simp add: mod_Suc)
    moreover have "bit (push_bit 1 (w AND 0x7F7F7F7F)) i \<longleftrightarrow> bit w j \<and> j mod 8 \<noteq> 7"
    proof -
      have "j < 32" using assms Suc by simp
      then show ?thesis using assms Suc
        by (simp only: bit_push_bit_iff bit_and_iff bit_7F) simp
    qed
    ultimately show ?thesis using Suc by auto
  qed
  have "gf2_8_mul_x_4way w =
      push_bit 1 (w AND 0x7F7F7F7F) XOR (m XOR push_bit 1 m XOR push_bit 3 m XOR push_bit 4 m)"
    unfolding gf2_8_mul_x_4way_def m_def [symmetric]
    by (subst mult_1B) (simp_all add: m)
  moreover have "bit m i \<longleftrightarrow> i mod 8 = 0 \<and> bit w (8 * (i div 8) + 7)"
    using sh [of 0] by simp
  ultimately show ?thesis
    using k8 by (simp only: bit_xor_iff lo sh) auto
qed
lemma bit_u8_80: "(b::u8) AND 0x80 \<noteq> 0 \<longleftrightarrow> bit b 7"
proof -
  have "b AND 0x80 = b AND push_bit 7 1" by simp
  also have "\<dots> \<noteq> 0 \<longleftrightarrow> bit b 7" by (simp only: bit_iff_and_push_bit_not_eq_0)
  finally show ?thesis .
qed

lemma bit_1B: "i < 8 \<Longrightarrow> bit (0x1B::u8) i \<longleftrightarrow> i \<in> {0, 1, 3, 4}"
proof -
  have "list_all (\<lambda>i. bit (0x1B::u8) i = (i \<in> {0, 1, 3, 4})) [0..<8]" by code_simp
  then show "i < 8 \<Longrightarrow> ?thesis" by (simp add: list_all_iff)
qed

lemma bit_mul_x:
  assumes "i < 8"
  shows "bit (gf2_8_mul_x b) i \<longleftrightarrow>
    (i \<noteq> 0 \<and> bit b (i - 1)) \<noteq> (i \<in> {0, 1, 3, 4} \<and> bit b 7)"
proof -
  have "bit (push_bit 1 b) i \<longleftrightarrow> i \<noteq> 0 \<and> bit b (i - 1)"
    using assms by (simp only: bit_push_bit_iff) auto
  then show ?thesis
    using bit_1B [OF assms] unfolding gf2_8_mul_x_def bit_u8_80 bit_xor_iff by auto
qed

lemma mul_x_4way_XOR: "gf2_8_mul_x_4way (v XOR w) = gf2_8_mul_x_4way v XOR gf2_8_mul_x_4way w"
  by (rule bit_word_eqI) (auto simp: bit_mul_x_4way bit_xor_iff)

lemma mul_x_4way_ror32: "gf2_8_mul_x_4way (ror32 w 8) = ror32 (gf2_8_mul_x_4way w) 8"
proof (rule bit_word_eqI)
  fix i assume "i < LENGTH(32)"
  then have i: "i < 32" by simp
  define j where "j = (i + 8) mod 32"
  have j: "j < 32" "j mod 8 = i mod 8" by (simp_all add: j_def mod_mod_cancel)
  have 1: "(8 * (i div 8) + 7 + 8) mod 32 = 8 * (j div 8) + 7"
    using i unfolding j_def by (auto simp: mod_if div_if)
  have 2: "(i - 1 + 8) mod 32 = j - 1" if "i mod 8 \<noteq> 0"
  proof -
    have "i \<noteq> 0" "i \<noteq> 24" using that by auto
    then show ?thesis using i unfolding j_def by (cases "i < 24") (simp_all add: mod_if)
  qed
  have "i div 8 < 4" using i by auto
  then have 3: "8 * (i div 8) + 7 < 32" "i - 1 < 32" using i by linarith+
  have n8: "(8::nat) \<le> 32" by simp
  show "bit (gf2_8_mul_x_4way (ror32 w 8)) i = bit (ror32 (gf2_8_mul_x_4way w) 8) i"
    using 2 unfolding bit_mul_x_4way [OF i] bit_ror32 [OF n8 i] j_def [symmetric]
      bit_mul_x_4way [OF j(1)] j(2) bit_ror32 [OF n8 3(1)] bit_ror32 [OF n8 3(2)] 1
    by (cases "i mod 8 = 0") (simp_all only: simp_thms)
qed

lemma mul_x_4way_packed:
  assumes "length l = 4"
  shows "gf2_8_mul_x_4way (word_of_le l) = word_of_le (map gf2_8_mul_x l)"
proof (rule bit_word_eqI)
  fix i assume "i < LENGTH(32)"
  then have i: "i < 32" by simp
  then have q: "i div 8 < 4" by auto
  have 1: "8 * (i div 8) + 7 < 32" "(8 * (i div 8) + 7) div 8 = i div 8"
    "(8 * (i div 8) + 7) mod 8 = 7" using q by auto
  have 2: "(i - 1) div 8 = i div 8" "(i - 1) mod 8 = i mod 8 - 1" if "i mod 8 \<noteq> 0"
    using that by (cases i; simp add: div_Suc mod_Suc split: if_splits)+
  have len: "length l = 4" "LENGTH(32) = 32" using assms by simp_all
  have lt: "i - 1 < 32" using i by simp
  have "bit (gf2_8_mul_x_4way (word_of_le l)) i \<longleftrightarrow>
      (i mod 8 \<noteq> 0 \<and> bit (l ! (i div 8)) (i mod 8 - 1)) \<noteq>
      (i mod 8 \<in> {0, 1, 3, 4} \<and> bit (l ! (i div 8)) 7)"
    using i q 2 1(1) unfolding bit_mul_x_4way [OF i] bit_word_of_le 1 len
    by (cases "i mod 8 = 0") (simp_all only: simp_thms lt)
  also have "\<dots> \<longleftrightarrow> bit (word_of_le (map gf2_8_mul_x l) :: u32) i"
    using i q assms by (simp add: bit_word_of_le bit_mul_x)
  finally show "bit (gf2_8_mul_x_4way (word_of_le l)) i =
      bit (word_of_le (map gf2_8_mul_x l) :: u32) i" .
qed
section \<open>Addition and subtraction undo each other\<close>

text \<open>The number a pair of words stands for.\<close>

definition le128_val :: "le128 \<Rightarrow> nat" where
  "le128_val t = unat (le_lo t) + 2 ^ 64 * unat (le_hi t)"

lemma le128_val_less: "le128_val t < 2 ^ 128"
proof -
  have "unat (le_lo t) < 2 ^ LENGTH(64)" and "unat (le_hi t) < 2 ^ LENGTH(64)" by (rule unsigned_less)+
  then show ?thesis by (simp add: le128_val_def)
qed

lemma le128_sub_add [crypt_simps]: "le128_sub (le128_add a b) b = a"
  by (simp add: le128_sub_def le128_add_def Let_def)

lemma le128_add_sub [crypt_simps]: "le128_add (le128_sub a b) b = a"
  by (simp add: le128_sub_def le128_add_def Let_def)

section \<open>Properties\<close>

text \<open>
  Four field multiplications at once: on a word that packs four bytes, the branch free
  \<open>gf2_8_mul_x_4way\<close> packs the four results of the bytewise \<open>gf2_8_mul_x\<close>, so no carry crosses from
  one byte to the next.
\<close>

theorem mul_x_4way_is_bytewise:
  "gf2_8_mul_x_4way (word_of_le [a, b, c, d]) =
     word_of_le [gf2_8_mul_x a, gf2_8_mul_x b, gf2_8_mul_x c, gf2_8_mul_x d]"
  by (subst mul_x_4way_packed) simp_all

end
