(* ===== verification/Cipher_Specs.thy ===== *)
theory Cipher_Specs
  imports Bytes
begin

text \<open>
  The contracts between the layers of \<open>src/src/fscrypt-crypt-util.c\<close>.  The modes of operation
  rely on \<open>block_cipher\<close>, which AES provides; the data unit loop of the main program relies on
  \<open>sector_cipher\<close>, which every entry of the table \<open>fscrypt_ciphers\<close> provides.
\<close>

locale block_cipher =
  fixes enc :: "'k \<Rightarrow> bytes \<Rightarrow> bytes"
    and dec :: "'k \<Rightarrow> bytes \<Rightarrow> bytes"
  assumes dec_enc: "length b = 16 \<Longrightarrow> dec k (enc k b) = b"
    and enc_dec: "length b = 16 \<Longrightarrow> enc k (dec k b) = b"
    and length_enc [simp]: "length (enc k b) = 16"
    and length_dec [simp]: "length (dec k b) = 16"

text \<open>
  A length preserving cipher: on inputs of an acceptable length both directions succeed, keep the
  length and undo each other.
\<close>

locale sector_cipher =
  fixes encrypt :: "bytes \<Rightarrow> bytes \<Rightarrow> bytes \<Rightarrow> bytes result"
    and decrypt :: "bytes \<Rightarrow> bytes \<Rightarrow> bytes \<Rightarrow> bytes result"
    and key_ok :: "bytes \<Rightarrow> bool"
    and len_ok :: "nat \<Rightarrow> bool"
  assumes encrypt_ok: "key_ok key \<Longrightarrow> length iv = 32 \<Longrightarrow> len_ok (length src) \<Longrightarrow>
      \<exists>dst. encrypt key iv src = Inr dst \<and> length dst = length src"
    and decrypt_encrypt: "key_ok key \<Longrightarrow> length iv = 32 \<Longrightarrow> len_ok (length src) \<Longrightarrow>
      encrypt key iv src = Inr dst \<Longrightarrow> decrypt key iv dst = Inr src"

lemma sector_cipherI:
  assumes "\<And>key iv src. key_ok key \<Longrightarrow> length iv = 32 \<Longrightarrow> len_ok (length src) \<Longrightarrow>
      \<exists>dst. encrypt key iv src = Inr dst \<and> length dst = length src \<and> decrypt key iv dst = Inr src"
  shows "sector_cipher encrypt decrypt key_ok len_ok"
proof
  fix key iv src dst :: bytes
  assume "key_ok key" "length iv = 32" "len_ok (length src)"
  then obtain d where d: "encrypt key iv src = Inr d" "length d = length src" "decrypt key iv d = Inr src"
    using assms by blast
  then show "\<exists>dst. encrypt key iv src = Inr dst \<and> length dst = length src" by blast
  show "decrypt key iv dst = Inr src" if "encrypt key iv src = Inr dst" using that d by simp
qed

end
