(* ===== verification/AES.thy ===== *)
theory AES
  imports GF Cipher_Specs
begin

text \<open>
  The AES block cipher of \<open>src/src/fscrypt-crypt-util.c\<close> (FIPS 197): the S-box and the
  inverse S-box built by \<open>aes_init\<close>, the round transformations on a state of four 32-bit
  columns, key expansion, and encryption and decryption of one block.
\<close>

definition AES_BLOCK_SIZE :: nat where "AES_BLOCK_SIZE = 16"
definition AES_128_KEY_SIZE :: nat where "AES_128_KEY_SIZE = 16"
definition AES_192_KEY_SIZE :: nat where "AES_192_KEY_SIZE = 24"
definition AES_256_KEY_SIZE :: nat where "AES_256_KEY_SIZE = 32"

lemmas aes_sizes = AES_BLOCK_SIZE_def AES_128_KEY_SIZE_def AES_192_KEY_SIZE_def AES_256_KEY_SIZE_def

section \<open>The state transformations\<close>

text \<open>The state is a list of four columns, each a 32-bit word.\<close>

type_synonym aes_state = "u32 list"

definition AddRoundKey :: "aes_state \<Rightarrow> u32 list \<Rightarrow> aes_state" where
  "AddRoundKey state rk = map (\<lambda>i. state ! i XOR rk ! i) [0..<4]"

definition aes_sbox :: bytes where
  "aes_sbox = [
     0x63, 0x7c, 0x77, 0x7b, 0xf2, 0x6b, 0x6f, 0xc5, 0x30, 0x01, 0x67, 0x2b,
     0xfe, 0xd7, 0xab, 0x76, 0xca, 0x82, 0xc9, 0x7d, 0xfa, 0x59, 0x47, 0xf0,
     0xad, 0xd4, 0xa2, 0xaf, 0x9c, 0xa4, 0x72, 0xc0, 0xb7, 0xfd, 0x93, 0x26,
     0x36, 0x3f, 0xf7, 0xcc, 0x34, 0xa5, 0xe5, 0xf1, 0x71, 0xd8, 0x31, 0x15,
     0x04, 0xc7, 0x23, 0xc3, 0x18, 0x96, 0x05, 0x9a, 0x07, 0x12, 0x80, 0xe2,
     0xeb, 0x27, 0xb2, 0x75, 0x09, 0x83, 0x2c, 0x1a, 0x1b, 0x6e, 0x5a, 0xa0,
     0x52, 0x3b, 0xd6, 0xb3, 0x29, 0xe3, 0x2f, 0x84, 0x53, 0xd1, 0x00, 0xed,
     0x20, 0xfc, 0xb1, 0x5b, 0x6a, 0xcb, 0xbe, 0x39, 0x4a, 0x4c, 0x58, 0xcf,
     0xd0, 0xef, 0xaa, 0xfb, 0x43, 0x4d, 0x33, 0x85, 0x45, 0xf9, 0x02, 0x7f,
     0x50, 0x3c, 0x9f, 0xa8, 0x51, 0xa3, 0x40, 0x8f, 0x92, 0x9d, 0x38, 0xf5,
     0xbc, 0xb6, 0xda, 0x21, 0x10, 0xff, 0xf3, 0xd2, 0xcd, 0x0c, 0x13, 0xec,
     0x5f, 0x97, 0x44, 0x17, 0xc4, 0xa7, 0x7e, 0x3d, 0x64, 0x5d, 0x19, 0x73,
     0x60, 0x81, 0x4f, 0xdc, 0x22, 0x2a, 0x90, 0x88, 0x46, 0xee, 0xb8, 0x14,
     0xde, 0x5e, 0x0b, 0xdb, 0xe0, 0x32, 0x3a, 0x0a, 0x49, 0x06, 0x24, 0x5c,
     0xc2, 0xd3, 0xac, 0x62, 0x91, 0x95, 0xe4, 0x79, 0xe7, 0xc8, 0x37, 0x6d,
     0x8d, 0xd5, 0x4e, 0xa9, 0x6c, 0x56, 0xf4, 0xea, 0x65, 0x7a, 0xae, 0x08,
     0xba, 0x78, 0x25, 0x2e, 0x1c, 0xa6, 0xb4, 0xc6, 0xe8, 0xdd, 0x74, 0x1f,
     0x4b, 0xbd, 0x8b, 0x8a, 0x70, 0x3e, 0xb5, 0x66, 0x48, 0x03, 0xf6, 0x0e,
     0x61, 0x35, 0x57, 0xb9, 0x86, 0xc1, 0x1d, 0x9e, 0xe1, 0xf8, 0x98, 0x11,
     0x69, 0xd9, 0x8e, 0x94, 0x9b, 0x1e, 0x87, 0xe9, 0xce, 0x55, 0x28, 0xdf,
     0x8c, 0xa1, 0x89, 0x0d, 0xbf, 0xe6, 0x42, 0x68, 0x41, 0x99, 0x2d, 0x0f,
     0xb0, 0x54, 0xbb, 0x16]"

definition aes_init :: "bytes \<Rightarrow> bytes" where
  "aes_init isbox = fold (\<lambda>i tbl. tbl[unat (aes_sbox ! i) := of_nat i]) [0..<256] isbox"

text \<open>The table as it is after \<open>main\<close> has called \<open>aes_init\<close>; static storage starts at zero.\<close>

definition aes_inverse_sbox :: bytes where
  "aes_inverse_sbox = aes_init (replicate 256 0)"

definition DoSubWord :: "u32 \<Rightarrow> bytes \<Rightarrow> u32" where
  "DoSubWord w sbox =
     push_bit 24 (ucast (sbox ! unat (ucast (drop_bit 24 w) :: u8))) OR
     push_bit 16 (ucast (sbox ! unat (ucast (drop_bit 16 w) :: u8))) OR
     push_bit 8 (ucast (sbox ! unat (ucast (drop_bit 8 w) :: u8))) OR
     push_bit 0 (ucast (sbox ! unat (ucast (drop_bit 0 w) :: u8)))"

definition SubWord :: "u32 \<Rightarrow> u32" where
  "SubWord w = DoSubWord w aes_sbox"

definition InvSubWord :: "u32 \<Rightarrow> u32" where
  "InvSubWord w = DoSubWord w aes_inverse_sbox"

definition SubBytes :: "aes_state \<Rightarrow> aes_state" where
  "SubBytes state = map SubWord state"

definition InvSubBytes :: "aes_state \<Rightarrow> aes_state" where
  "InvSubBytes state = map InvSubWord state"

definition DoShiftRows :: "aes_state \<Rightarrow> int \<Rightarrow> aes_state" where
  "DoShiftRows state direction =
     map (\<lambda>i. (state ! nat ((int i + direction * 0) AND 3) AND 0xff) OR
               (state ! nat ((int i + direction * 1) AND 3) AND 0xff00) OR
               (state ! nat ((int i + direction * 2) AND 3) AND 0xff0000) OR
               (state ! nat ((int i + direction * 3) AND 3) AND 0xff000000)) [0..<4]"

definition ShiftRows :: "aes_state \<Rightarrow> aes_state" where
  "ShiftRows state = DoShiftRows state 1"

definition InvShiftRows :: "aes_state \<Rightarrow> aes_state" where
  "InvShiftRows state = DoShiftRows state (- 1)"

definition MixColumn :: "u32 \<Rightarrow> u32" where
  "MixColumn w =
     (let two_w0_w2 = gf2_8_mul_x_4way w XOR ror32 w 16;
          three_w1_w3 = ror32 (two_w0_w2 XOR w) 8
      in two_w0_w2 XOR three_w1_w3)"

definition InvMixColumn :: "u32 \<Rightarrow> u32" where
  "InvMixColumn w =
     (let four_w = gf2_8_mul_x_4way (gf2_8_mul_x_4way w)
      in MixColumn (four_w XOR w XOR ror32 four_w 16))"

definition MixColumns :: "aes_state \<Rightarrow> aes_state" where
  "MixColumns state = map MixColumn state"

definition InvMixColumns :: "aes_state \<Rightarrow> aes_state" where
  "InvMixColumns state = map InvMixColumn state"

section \<open>Key expansion\<close>

record aes_key =
  round_keys :: "u32 list"
  nrounds :: nat

text \<open>
  One round of the key expansion loop at index \<open>i\<close>: the words written so far and the current
  round constant.
\<close>

definition aes_setkey_step :: "bytes \<Rightarrow> nat \<Rightarrow> nat \<Rightarrow> u32 list \<times> u8 \<Rightarrow> u32 list \<times> u8" where
  "aes_setkey_step key N i st =
     (let (rk, rcon) = st
      in if i < N then (rk @ [get_unaligned_le32 (drop (i * 4) key)], rcon)
         else if i mod N = 0 then
           (rk @ [rk ! (i - N) XOR SubWord (ror32 (rk ! (i - 1)) 8) XOR ucast rcon], gf2_8_mul_x rcon)
         else if N > 6 \<and> i mod N = 4 then (rk @ [rk ! (i - N) XOR SubWord (rk ! (i - 1))], rcon)
         else (rk @ [rk ! (i - N) XOR rk ! (i - 1)], rcon))"

definition aes_setkey :: "bytes \<Rightarrow> nat \<Rightarrow> aes_key result" where
  "aes_setkey key keysize =
     (let N = keysize div 4
      in bindr (assertr (keysize = 16 \<or> keysize = 24 \<or> keysize = 32)
                  ''keysize == 16 || keysize == 24 || keysize == 32'') (\<lambda>_.
           Inr \<lparr>round_keys = fst (fold (aes_setkey_step key N) [0..<4 * (6 + N + 1)] ([], 1)),
                nrounds = 6 + N\<rparr>))"

section \<open>One block\<close>

definition load_state :: "bytes \<Rightarrow> aes_state" where
  "load_state src = map (\<lambda>i. get_unaligned_le32 (drop (i * 4) src)) [0..<4]"

definition store_state :: "aes_state \<Rightarrow> bytes" where
  "store_state state = concat (map (\<lambda>i. put_unaligned_le32 (state ! i)) [0..<4])"

definition aes_encrypt :: "aes_key \<Rightarrow> bytes \<Rightarrow> bytes" where
  "aes_encrypt k src =
     (let state = AddRoundKey (load_state src) (round_keys k);
          state = fold (\<lambda>i state. AddRoundKey (MixColumns (ShiftRows (SubBytes state)))
                                    (drop (4 * i) (round_keys k)))
                    [1..<nrounds k] state;
          state = AddRoundKey (ShiftRows (SubBytes state)) (drop (4 * nrounds k) (round_keys k))
      in store_state state)"

definition aes_decrypt :: "aes_key \<Rightarrow> bytes \<Rightarrow> bytes" where
  "aes_decrypt k src =
     (let state = AddRoundKey (load_state src) (drop (4 * nrounds k) (round_keys k));
          state = InvSubBytes (InvShiftRows state);
          state = fold (\<lambda>i state. InvSubBytes (InvShiftRows (InvMixColumns
                                    (AddRoundKey state (drop (4 * i) (round_keys k))))))
                    (rev [1..<nrounds k]) state;
          state = AddRoundKey state (round_keys k)
      in store_state state)"

section \<open>The inverse S-box\<close>

lemma length_aes_sbox [simp]: "length aes_sbox = 256"
  by (simp add: aes_sbox_def)

lemma distinct_aes_sbox: "distinct (map uint aes_sbox)"
  by (simp add: aes_sbox_def)

lemma fold_upd_length [simp]: "length (fold (\<lambda>i t. t[f i := g i]) is t) = length t"
  by (induction "is" arbitrary: t) auto

lemma fold_upd_nth:
  assumes "inj_on f (set is)" and "\<forall>i \<in> set is. f i < length t" and "j \<in> set is"
  shows "fold (\<lambda>i t. t[f i := g i]) is t ! f j = g j"
  using assms
proof (induction "is" rule: rev_induct)
  case Nil
  then show ?case by simp
next
  case (snoc i "is")
  show ?case
  proof (cases "i = j")
    case True
    with snoc.prems show ?thesis by simp
  next
    case False
    with snoc.prems have "f i \<noteq> f j" by (auto dest: inj_onD)
    moreover have "inj_on f (set is)" using snoc.prems(1) by (simp add: inj_on_insert)
    ultimately show ?thesis using snoc False by simp
  qed
qed

lemma length_aes_inverse_sbox [simp]: "length aes_inverse_sbox = 256"
  by (simp add: aes_inverse_sbox_def aes_init_def)

lemma u8_less [simp]: "unat (b :: u8) < 256"
  using unsigned_less [where 'a = nat, of b] by simp

lemma aes_inverse_sbox_nth:
  assumes "i < 256"
  shows "aes_inverse_sbox ! unat (aes_sbox ! i) = of_nat i"
  unfolding aes_inverse_sbox_def aes_init_def
proof (rule fold_upd_nth)
  have "distinct aes_sbox" using distinct_aes_sbox by (simp only: distinct_map)
  then show "inj_on (\<lambda>i. unat (aes_sbox ! i)) (set [0..<256])"
    by (auto intro!: inj_onI dest!: unsigned_word_eqI simp: nth_eq_iff_index_eq)
qed (use assms in simp_all)

lemma inv_sbox_sbox [simp]: "aes_inverse_sbox ! unat (aes_sbox ! unat (b :: u8)) = b"
  by (simp add: aes_inverse_sbox_nth)

lemma sbox_inv_sbox [simp]: "aes_sbox ! unat (aes_inverse_sbox ! unat (b :: u8)) = b"
proof -
  let ?f = "\<lambda>b :: u8. aes_sbox ! unat b"
  have "inj ?f" by (metis injI inv_sbox_sbox)
  then have "surj ?f" by (simp add: finite_UNIV_inj_surj)
  then obtain c where "b = ?f c" by (metis surjD)
  then show ?thesis by simp
qed

section \<open>Each transformation has its inverse\<close>

lemma DoSubWord_le:
  assumes "length l = 4"
  shows "DoSubWord (word_of_le l) sbox = word_of_le (map (\<lambda>b. sbox ! unat b) l)"
proof -
  obtain a b c d where l: "l = [a, b, c, d]"
    using assms by (auto simp: numeral_eq_Suc length_Suc_conv)
  have lane: "ucast (drop_bit (8 * i) (word_of_le l :: u32)) = l ! i" if "i < 4" for i
  proof -
    have "le_of_word 4 (word_of_le l :: u32) ! i = l ! i"
      using assms by (simp add: le_of_word_of_le)
    then show ?thesis using that by (simp add: le_of_word_def)
  qed
  have "DoSubWord (word_of_le l) sbox =
      push_bit 24 (ucast (sbox ! unat d)) OR push_bit 16 (ucast (sbox ! unat c)) OR
      push_bit 8 (ucast (sbox ! unat b)) OR ucast (sbox ! unat a)"
    using lane [of 0] lane [of 1] lane [of 2] lane [of 3] by (simp add: DoSubWord_def l)
  also have "\<dots> = word_of_le (map (\<lambda>b. sbox ! unat b) l)"
    by (simp add: l word_of_le.simps(2) push_bit_or push_bit_push_bit or.assoc or.commute or.left_commute)
  finally show ?thesis .
qed

lemma u32_le_cases: obtains l where "length l = 4" and "(w :: u32) = word_of_le l"
  using that [of "le_of_word 4 w"] by (simp add: word_of_le_of_word)

lemma InvSubWord_SubWord [simp]: "InvSubWord (SubWord w) = w"
proof -
  obtain l where l: "length l = 4" "w = word_of_le l" by (rule u32_le_cases)
  then show ?thesis by (simp add: InvSubWord_def SubWord_def DoSubWord_le comp_def)
qed

lemma SubWord_InvSubWord [simp]: "SubWord (InvSubWord w) = w"
proof -
  obtain l where l: "length l = 4" "w = word_of_le l" by (rule u32_le_cases)
  then show ?thesis by (simp add: InvSubWord_def SubWord_def DoSubWord_le comp_def)
qed

lemma InvMixColumn_MixColumn [simp]: "InvMixColumn (MixColumn w) = w"
proof -
  let ?X = gf2_8_mul_x_4way and ?R = "\<lambda>v. ror32 v 8"
  have R2: "ror32 v 16 = ?R (?R v)" for v by (simp add: ror32_ror32)
  have R4: "?R (?R (?R (?R v))) = v" for v by (simp add: ror32_ror32)
  have cancel: "a XOR (a XOR b) = b" for a b :: u32 by (simp flip: xor.assoc)
  show ?thesis
    by (simp add: InvMixColumn_def MixColumn_def Let_def R2 R4 mul_x_4way_XOR mul_x_4way_ror32
        ror32_XOR xor.assoc xor.commute xor.left_commute cancel)
qed

lemma MixColumn_InvMixColumn [simp]: "MixColumn (InvMixColumn w) = w"
proof -
  let ?X = gf2_8_mul_x_4way and ?R = "\<lambda>v. ror32 v 8"
  have R2: "ror32 v 16 = ?R (?R v)" for v by (simp add: ror32_ror32)
  have R4: "?R (?R (?R (?R v))) = v" for v by (simp add: ror32_ror32)
  have cancel: "a XOR (a XOR b) = b" for a b :: u32 by (simp flip: xor.assoc)
  show ?thesis
    by (simp add: InvMixColumn_def MixColumn_def Let_def R2 R4 mul_x_4way_XOR mul_x_4way_ror32
        ror32_XOR xor.assoc xor.commute xor.left_commute cancel)
qed

lemma state_cases:
  assumes "length (s :: 'a list) = 4"
  obtains a b c d where "s = [a, b, c, d]"
  using assms by (auto simp: numeral_eq_Suc length_Suc_conv)

lemma upt_4: "[0..<4] = [0, 1, 2, 3 :: nat]"
  by (simp add: upt_rec)

lemma length_state [simp, len_simps]:
  "length (AddRoundKey s rk) = 4"
  "length (SubBytes s) = length s" "length (InvSubBytes s) = length s"
  "length (ShiftRows s) = 4" "length (InvShiftRows s) = 4"
  "length (MixColumns s) = length s" "length (InvMixColumns s) = length s"
  "length (load_state src) = 4"
  by (simp_all add: AddRoundKey_def SubBytes_def InvSubBytes_def ShiftRows_def InvShiftRows_def
      DoShiftRows_def MixColumns_def InvMixColumns_def load_state_def)

lemma AddRoundKey_twice [simp]: "length s = 4 \<Longrightarrow> AddRoundKey (AddRoundKey s rk) rk = s"
  by (erule state_cases) (simp add: AddRoundKey_def upt_4 xor.assoc)

lemma InvSubBytes_SubBytes [simp]: "InvSubBytes (SubBytes s) = s"
  by (simp add: InvSubBytes_def SubBytes_def comp_def)

lemma SubBytes_InvSubBytes [simp]: "SubBytes (InvSubBytes s) = s"
  by (simp add: InvSubBytes_def SubBytes_def comp_def)

lemma InvMixColumns_MixColumns [simp]: "InvMixColumns (MixColumns s) = s"
  by (simp add: InvMixColumns_def MixColumns_def comp_def)

lemma MixColumns_InvMixColumns [simp]: "MixColumns (InvMixColumns s) = s"
  by (simp add: InvMixColumns_def MixColumns_def comp_def)

text \<open>The four byte masks split a column.\<close>

lemma column_masks:
  fixes w :: u32
  shows "(w AND 0xff) OR (w AND 0xff00) OR (w AND 0xff0000) OR (w AND 0xff000000) = w"
proof -
  have "(0xff OR 0xff00 OR 0xff0000 OR 0xff000000 :: u32) = - 1" by simp
  then have "w AND (0xff OR 0xff00 OR 0xff0000 OR 0xff000000) = w"
    by (simp only: and.right_neutral)
  then show ?thesis by (simp only: bit.conj_disj_distrib or.assoc)
qed

lemma InvShiftRows_ShiftRows [simp]: "length s = 4 \<Longrightarrow> InvShiftRows (ShiftRows s) = s"
  by (erule state_cases)
    (simp add: InvShiftRows_def ShiftRows_def DoShiftRows_def upt_4 bit.conj_disj_distrib2
      and.assoc column_masks)

lemma ShiftRows_InvShiftRows [simp]: "length s = 4 \<Longrightarrow> ShiftRows (InvShiftRows s) = s"
  by (erule state_cases)
    (simp add: InvShiftRows_def ShiftRows_def DoShiftRows_def upt_4 bit.conj_disj_distrib2
      and.assoc column_masks)


section \<open>Blocks and states\<close>

lemma load_store_state: "length s = 4 \<Longrightarrow> load_state (store_state s) = s"
  by (erule state_cases)
    (simp add: load_state_def store_state_def upt_4 get_unaligned_le32_def put_unaligned_le32_def
      word_of_le_of_word)

lemma length_store_state [simp, len_simps]: "length (store_state s) = 16"
  by (simp add: store_state_def upt_4)

lemma store_load_state: "length b = 16 \<Longrightarrow> store_state (load_state b) = b"
proof -
  assume b: "length b = 16"
  have p: "put_unaligned_le32 (get_unaligned_le32 (drop n b)) = take 4 (drop n b)" if "n \<le> 12" for n
    using b that by (simp add: get_unaligned_le32_def put_unaligned_le32_def le_of_word_of_le)
  have "take 4 (drop 0 b) @ take 4 (drop 4 b) @ take 4 (drop 8 b) @ take 4 (drop 12 b) = b"
  proof -
    have "take 4 (drop 12 b) = drop 12 b" using b by simp
    moreover have "take 4 (drop 8 b) @ drop 12 b = drop 8 b"
      using append_take_drop_id [of 4 "drop 8 b"] by simp
    moreover have "take 4 (drop 4 b) @ drop 8 b = drop 4 b"
      using append_take_drop_id [of 4 "drop 4 b"] by simp
    ultimately show ?thesis by simp
  qed
  then show ?thesis using p [of 0] by (simp add: store_state_def load_state_def upt_4 p)
qed

lemma fold_inverse:
  assumes "\<And>i s. P s \<Longrightarrow> g i (f i s) = s" and "\<And>i s. P s \<Longrightarrow> P (f i s)" and "P s"
  shows "fold g (rev is) (fold f is s) = s"
  using assms(3) by (induction "is" arbitrary: s) (simp_all add: assms(1,2))

lemma length_fold_state:
  assumes "\<And>i s. length s = 4 \<Longrightarrow> length (f i s) = 4" and "length s = 4"
  shows "length (fold f is s) = (4::nat)"
  using assms(2) by (induction "is" arbitrary: s) (simp_all add: assms(1))

lemma length_aes_crypt [simp, len_simps]:
  "length (aes_encrypt k b) = 16" "length (aes_decrypt k b) = 16"
  by (simp_all add: aes_encrypt_def aes_decrypt_def Let_def)

lemma aes_decrypt_encrypt [crypt_simps]:
  assumes "length b = 16"
  shows "aes_decrypt k (aes_encrypt k b) = b"
proof -
  let ?r = "\<lambda>i s. AddRoundKey (MixColumns (ShiftRows (SubBytes s))) (drop (4 * i) (round_keys k))"
  let ?d = "\<lambda>i s. InvSubBytes (InvShiftRows (InvMixColumns (AddRoundKey s (drop (4 * i) (round_keys k)))))"
  let ?s0 = "AddRoundKey (load_state b) (round_keys k)"
  have len: "length (fold ?r [1..<nrounds k] ?s0) = 4"
    by (rule length_fold_state) simp_all
  have "fold ?d (rev [1..<nrounds k]) (fold ?r [1..<nrounds k] ?s0) = ?s0"
    by (rule fold_inverse [where P = "\<lambda>s. length s = 4"]) simp_all
  with len show ?thesis
    using assms by (simp add: aes_decrypt_def aes_encrypt_def Let_def load_store_state store_load_state)
qed

lemma aes_encrypt_decrypt [crypt_simps]:
  assumes "length b = 16"
  shows "aes_encrypt k (aes_decrypt k b) = b"
proof -
  let ?r = "\<lambda>i s. AddRoundKey (MixColumns (ShiftRows (SubBytes s))) (drop (4 * i) (round_keys k))"
  let ?d = "\<lambda>i s. InvSubBytes (InvShiftRows (InvMixColumns (AddRoundKey s (drop (4 * i) (round_keys k)))))"
  let ?s0 = "InvSubBytes (InvShiftRows
      (AddRoundKey (load_state b) (drop (4 * nrounds k) (round_keys k))))"
  have len: "length (fold ?d (rev [1..<nrounds k]) ?s0) = 4"
    by (rule length_fold_state) simp_all
  have "fold ?r (rev (rev [1..<nrounds k])) (fold ?d (rev [1..<nrounds k]) ?s0) = ?s0"
    by (rule fold_inverse [where P = "\<lambda>s. length s = 4"]) simp_all
  with len show ?thesis
    using assms by (simp add: aes_decrypt_def aes_encrypt_def Let_def load_store_state store_load_state)
qed

section \<open>Key expansion\<close>

lemma aes_setkey_Inr_iff:
  "(\<exists>k. aes_setkey key keysize = Inr k) \<longleftrightarrow> keysize \<in> {16, 24, 32}"
  by (auto simp: aes_setkey_def Let_def assertr_def)

lemma aes_setkey_step_length: "length (fst (aes_setkey_step key N i st)) = Suc (length (fst st))"
  by (simp add: aes_setkey_step_def Let_def split: prod.split)

lemma fold_setkey_length:
  "length (fst (fold (aes_setkey_step key N) is st)) = length is + length (fst st)"
  by (induction "is" arbitrary: st) (simp_all add: aes_setkey_step_length)

lemma aes_setkey_shape:
  "aes_setkey key keysize = Inr k \<Longrightarrow>
     nrounds k = 6 + keysize div 4 \<and> length (round_keys k) = 4 * (nrounds k + 1)"
  by (auto simp: aes_setkey_def Let_def bindr_Inr_iff fold_setkey_length)


text \<open>
  The recurrence of FIPS 197: word \<open>i\<close> of the expanded key in terms of earlier words, with the
  round constant as a power of \<open>x\<close>.
\<close>

definition key_word_ok :: "bytes \<Rightarrow> nat \<Rightarrow> u32 list \<Rightarrow> nat \<Rightarrow> bool" where
  "key_word_ok key N rk i \<longleftrightarrow> rk ! i =
     (if i < N then get_unaligned_le32 (drop (i * 4) key)
      else rk ! (i - N) XOR
        (if i mod N = 0 then SubWord (ror32 (rk ! (i - 1)) 8) XOR ucast ((gf2_8_mul_x ^^ (i div N - 1)) 1)
         else if N > 6 \<and> i mod N = 4 then SubWord (rk ! (i - 1))
         else rk ! (i - 1)))"

definition rcon_count :: "nat \<Rightarrow> nat \<Rightarrow> nat" where
  "rcon_count N n = (if n \<le> N then 0 else (n - 1) div N)"

lemma rcon_count_Suc:
  "0 < N \<Longrightarrow> rcon_count N (Suc n) = rcon_count N n + (if N \<le> n \<and> n mod N = 0 then 1 else 0)"
proof (cases n)
  case (Suc m)
  assume "0 < N"
  then show ?thesis
    using Suc by (auto simp: rcon_count_def div_Suc mod_Suc not_less_eq_eq le_Suc_eq split: if_splits)
qed (auto simp: rcon_count_def)

lemma setkey_fold_invariant:
  assumes "0 < N"
  shows "let (rk, rcon) = fold (aes_setkey_step key N) [0..<n] ([], 1)
         in length rk = n \<and> rcon = (gf2_8_mul_x ^^ rcon_count N n) 1 \<and>
            (\<forall>i < n. key_word_ok key N rk i)"
proof (induction n)
  case 0
  then show ?case by (simp add: rcon_count_def)
next
  case (Suc n)
  obtain rk rcon where st: "fold (aes_setkey_step key N) [0..<n] ([], 1) = (rk, rcon)"
    by fastforce
  from Suc st have len: "length rk = n" and rcon: "rcon = (gf2_8_mul_x ^^ rcon_count N n) 1"
    and ok: "\<And>i. i < n \<Longrightarrow> key_word_ok key N rk i" by simp_all
  have old: "key_word_ok key N (rk @ [w]) i" if "i < n" for i w
    using ok [OF that] that len assms by (auto simp: key_word_ok_def nth_append)
  have cnt: "rcon_count N n = n div N - 1" if "N \<le> n" "n mod N = 0"
  proof (cases "n = N")
    case False
    with that assms obtain m where "n = Suc m" by (cases n) auto
    with False that assms show ?thesis
      by (auto simp: rcon_count_def div_Suc mod_Suc split: if_splits)
  qed (use assms in \<open>simp add: rcon_count_def\<close>)
  have app: "(rk @ [w]) ! i = (if i < n then rk ! i else w)" if "i \<le> n" for i w
    using that len by (auto simp: nth_append)
  let ?st = "aes_setkey_step key N n (rk, rcon)"
  have new: "key_word_ok key N (fst ?st) n"
  proof (cases "n < N")
    case True
    then show ?thesis by (simp add: aes_setkey_step_def key_word_ok_def app)
  next
    case False
    with assms have "n - N < n" "n - 1 < n" by simp_all
    with False show ?thesis
      by (simp add: aes_setkey_step_def key_word_ok_def app rcon cnt)
  qed
  have "\<exists>w. fst ?st = rk @ [w]" by (simp add: aes_setkey_step_def)
  with old new have "\<forall>i < Suc n. key_word_ok key N (fst ?st) i" by (auto simp: less_Suc_eq)
  moreover have "snd ?st = (gf2_8_mul_x ^^ rcon_count N (Suc n)) 1"
    using assms by (simp add: aes_setkey_step_def rcon rcon_count_Suc)
  moreover have "length (fst ?st) = Suc n"
    by (simp add: aes_setkey_step_length len)
  ultimately show ?case by (simp add: st Let_def case_prod_beta)
qed

lemma aes_setkey_words:
  assumes "aes_setkey key keysize = Inr k" and "i < length (round_keys k)"
  shows "key_word_ok key (keysize div 4) (round_keys k) i"
proof -
  from assms(1) have ks: "0 < keysize div 4"
    by (auto simp: aes_setkey_def Let_def bindr_Inr_iff)
  from assms(1) have "round_keys k =
      fst (fold (aes_setkey_step key (keysize div 4)) [0..<4 * (6 + keysize div 4 + 1)] ([], 1))"
    by (auto simp: aes_setkey_def Let_def bindr_Inr_iff)
  with setkey_fold_invariant [OF ks, of key "4 * (6 + keysize div 4 + 1)"] assms(2)
  show ?thesis by (auto simp: Let_def split: prod.splits)
qed

section \<open>AES as a block cipher\<close>

interpretation aes_cipher: block_cipher aes_encrypt aes_decrypt
  by unfold_locales (simp_all add: crypt_simps)

section \<open>Properties\<close>

text \<open>
  C26. The AES block operation is a permutation of the sixteen byte blocks under every expanded key:
  decryption inverts encryption and encryption inverts decryption.
\<close>

theorem aes_block_permutation:
  assumes "length b = 16"
  shows "aes_decrypt k (aes_encrypt k b) = b \<and> aes_encrypt k (aes_decrypt k b) = b"
  using assms by (simp add: aes_decrypt_encrypt aes_encrypt_decrypt)

theorem aes_block_permutation_witness:
  "aes_decrypt \<lparr>round_keys = replicate 44 3, nrounds = 10\<rparr> (aes_encrypt \<lparr>round_keys = replicate 44 3, nrounds = 10\<rparr> (replicate 16 5))
     = replicate 16 5"
  using aes_block_permutation [of "replicate 16 5" "\<lparr>round_keys = replicate 44 3, nrounds = 10\<rparr>"] by simp

text \<open>
  The key schedule: for each of the three key sizes there are \<open>6 + keysize / 4\<close> rounds and
  four round key words per round and one extra group of four; every word is the one the AES
  recurrence prescribes (a key word, or the word one key length earlier combined with the
  previous word, through the S-box and the round constant where the index demands it).
\<close>

theorem aes_setkey_schedule:
  assumes "aes_setkey key keysize = Inr k"
  shows "nrounds k = 6 + keysize div 4 \<and> length (round_keys k) = 4 * (nrounds k + 1) \<and>
    (\<forall>i < length (round_keys k). key_word_ok key (keysize div 4) (round_keys k) i)"
  using aes_setkey_shape [OF assms] aes_setkey_words [OF assms] by blast

end
