(* ===== verification/SHA2.thy ===== *)
theory SHA2
  imports Bytes
begin

text \<open>
  SHA-512, SHA-256, HMAC-SHA512 and HKDF-SHA512 of \<open>src/src/fscrypt-crypt-util.c\<close>.  The padded
  message is built with the writes of the source (\<open>memcpy\<close>, \<open>memset\<close>, one byte, the length);
  the compression functions work on a list of eight words.
\<close>

definition SHA512_DIGEST_SIZE :: nat where "SHA512_DIGEST_SIZE = 64"
definition SHA512_BLOCK_SIZE :: nat where "SHA512_BLOCK_SIZE = 128"
definition SHA256_DIGEST_SIZE :: nat where "SHA256_DIGEST_SIZE = 32"
definition SHA256_BLOCK_SIZE :: nat where "SHA256_BLOCK_SIZE = 64"

lemmas sha_sizes = SHA512_DIGEST_SIZE_def SHA512_BLOCK_SIZE_def SHA256_DIGEST_SIZE_def
  SHA256_BLOCK_SIZE_def

definition Ch :: "'a::len word \<Rightarrow> 'a word \<Rightarrow> 'a word \<Rightarrow> 'a word" where
  "Ch x y z = (x AND y) XOR (NOT x AND z)"

definition Maj :: "'a::len word \<Rightarrow> 'a word \<Rightarrow> 'a word \<Rightarrow> 'a word" where
  "Maj x y z = (x AND y) XOR (x AND z) XOR (y AND z)"

definition Sigma512_0 :: "u64 \<Rightarrow> u64" where
  "Sigma512_0 x = ror64 x 28 XOR ror64 x 34 XOR ror64 x 39"

definition Sigma512_1 :: "u64 \<Rightarrow> u64" where
  "Sigma512_1 x = ror64 x 14 XOR ror64 x 18 XOR ror64 x 41"

definition sigma512_0 :: "u64 \<Rightarrow> u64" where
  "sigma512_0 x = ror64 x 1 XOR ror64 x 8 XOR drop_bit 7 x"

definition sigma512_1 :: "u64 \<Rightarrow> u64" where
  "sigma512_1 x = ror64 x 19 XOR ror64 x 61 XOR drop_bit 6 x"

definition Sigma256_0 :: "u32 \<Rightarrow> u32" where
  "Sigma256_0 x = ror32 x 2 XOR ror32 x 13 XOR ror32 x 22"

definition Sigma256_1 :: "u32 \<Rightarrow> u32" where
  "Sigma256_1 x = ror32 x 6 XOR ror32 x 11 XOR ror32 x 25"

definition sigma256_0 :: "u32 \<Rightarrow> u32" where
  "sigma256_0 x = ror32 x 7 XOR ror32 x 18 XOR drop_bit 3 x"

definition sigma256_1 :: "u32 \<Rightarrow> u32" where
  "sigma256_1 x = ror32 x 17 XOR ror32 x 19 XOR drop_bit 10 x"

definition sha512_iv :: "u64 list" where
  "sha512_iv = [
     0x6a09e667f3bcc908, 0xbb67ae8584caa73b, 0x3c6ef372fe94f82b,
     0xa54ff53a5f1d36f1, 0x510e527fade682d1, 0x9b05688c2b3e6c1f,
     0x1f83d9abfb41bd6b, 0x5be0cd19137e2179]"

definition sha512_round_constants :: "u64 list" where
  "sha512_round_constants = concat [
     [0x428a2f98d728ae22, 0x7137449123ef65cd, 0xb5c0fbcfec4d3b2f],
     [0xe9b5dba58189dbbc, 0x3956c25bf348b538, 0x59f111f1b605d019],
     [0x923f82a4af194f9b, 0xab1c5ed5da6d8118, 0xd807aa98a3030242],
     [0x12835b0145706fbe, 0x243185be4ee4b28c, 0x550c7dc3d5ffb4e2],
     [0x72be5d74f27b896f, 0x80deb1fe3b1696b1, 0x9bdc06a725c71235],
     [0xc19bf174cf692694, 0xe49b69c19ef14ad2, 0xefbe4786384f25e3],
     [0x0fc19dc68b8cd5b5, 0x240ca1cc77ac9c65, 0x2de92c6f592b0275],
     [0x4a7484aa6ea6e483, 0x5cb0a9dcbd41fbd4, 0x76f988da831153b5],
     [0x983e5152ee66dfab, 0xa831c66d2db43210, 0xb00327c898fb213f],
     [0xbf597fc7beef0ee4, 0xc6e00bf33da88fc2, 0xd5a79147930aa725],
     [0x06ca6351e003826f, 0x142929670a0e6e70, 0x27b70a8546d22ffc],
     [0x2e1b21385c26c926, 0x4d2c6dfc5ac42aed, 0x53380d139d95b3df],
     [0x650a73548baf63de, 0x766a0abb3c77b2a8, 0x81c2c92e47edaee6],
     [0x92722c851482353b, 0xa2bfe8a14cf10364, 0xa81a664bbc423001],
     [0xc24b8b70d0f89791, 0xc76c51a30654be30, 0xd192e819d6ef5218],
     [0xd69906245565a910, 0xf40e35855771202a, 0x106aa07032bbd1b8],
     [0x19a4c116b8d2d0c8, 0x1e376c085141ab53, 0x2748774cdf8eeb99],
     [0x34b0bcb5e19b48a8, 0x391c0cb3c5c95a63, 0x4ed8aa4ae3418acb],
     [0x5b9cca4f7763e373, 0x682e6ff3d6b2b8a3, 0x748f82ee5defb2fc],
     [0x78a5636f43172f60, 0x84c87814a1f0ab72, 0x8cc702081a6439ec],
     [0x90befffa23631e28, 0xa4506cebde82bde9, 0xbef9a3f7b2c67915],
     [0xc67178f2e372532b, 0xca273eceea26619c, 0xd186b8c721c0c207],
     [0xeada7dd6cde0eb1e, 0xf57d4f7fee6ed178, 0x06f067aa72176fba],
     [0x0a637dc5a2c898a6, 0x113f9804bef90dae, 0x1b710b35131c471b],
     [0x28db77f523047d84, 0x32caab7b40c72493, 0x3c9ebe0a15c9bebc],
     [0x431d67c49c100d4c, 0x4cc5d4becb3e42b6, 0x597f299cfc657e2a],
     [0x5fcb6fab3ad6faec, 0x6c44198c4a475817]]"

section \<open>SHA-512\<close>

definition sha512_pad :: "bytes \<Rightarrow> bytes" where
  "sha512_pad inp =
     (let inlen = length inp;
          msglen = ROUND_UP (inlen + 17) SHA512_BLOCK_SIZE;
          msg = inp @ replicate (msglen - inlen) 0;
          msg = put_at msg inlen [0x80]
      in put_at msg (msglen - 8) (put_unaligned_be64 (of_nat inlen * 8)))"

definition sha512_schedule :: "bytes \<Rightarrow> u64 list" where
  "sha512_schedule inp =
     fold (\<lambda>i W. W @ [sigma512_1 (W ! (i - 2)) + W ! (i - 7) +
                       sigma512_0 (W ! (i - 15)) + W ! (i - 16)])
       [16..<80] (map (\<lambda>i. get_unaligned_be64 (drop (i * 8) inp)) [0..<16])"

type_synonym 'a sha_vars = "'a \<times> 'a \<times> 'a \<times> 'a \<times> 'a \<times> 'a \<times> 'a \<times> 'a"

definition sha512_round :: "u64 list \<Rightarrow> nat \<Rightarrow> u64 sha_vars \<Rightarrow> u64 sha_vars" where
  "sha512_round W i v =
     (let (a, b, c, d, e, f, g, h) = v;
          T1 = h + Sigma512_1 e + Ch e f g + sha512_round_constants ! i + W ! i;
          T2 = Sigma512_0 a + Maj a b c
      in (T1 + T2, a, b, c, d + T1, e, f, g))"

definition sha512_block :: "u64 list \<Rightarrow> bytes \<Rightarrow> u64 list" where
  "sha512_block H inp =
     (let W = sha512_schedule inp;
          (a, b, c, d, e, f, g, h) =
            fold (sha512_round W) [0..<80] (H ! 0, H ! 1, H ! 2, H ! 3, H ! 4, H ! 5, H ! 6, H ! 7)
      in [H ! 0 + a, H ! 1 + b, H ! 2 + c, H ! 3 + d, H ! 4 + e, H ! 5 + f, H ! 6 + g, H ! 7 + h])"

function sha512_loop :: "u64 list \<Rightarrow> bytes \<Rightarrow> u64 list" where
  "sha512_loop H msg =
     (let H' = sha512_block H msg; rest = drop SHA512_BLOCK_SIZE msg
      in if rest = [] then H' else sha512_loop H' rest)"
  by pat_completeness auto
termination
  by (relation "measure (\<lambda>(H, msg). length msg)") (auto simp: SHA512_BLOCK_SIZE_def)

definition sha512 :: "bytes \<Rightarrow> bytes" where
  "sha512 inp = concat (map put_unaligned_be64 (sha512_loop sha512_iv (sha512_pad inp)))"

section \<open>SHA-256\<close>

definition sha256_pad :: "bytes \<Rightarrow> bytes" where
  "sha256_pad inp =
     (let inlen = length inp;
          msglen = ROUND_UP (inlen + 9) SHA256_BLOCK_SIZE;
          msg = inp @ replicate (msglen - inlen) 0;
          msg = put_at msg inlen [0x80]
      in put_at msg (msglen - 8) (put_unaligned_be64 (of_nat inlen * 8)))"

definition sha256_schedule :: "bytes \<Rightarrow> u32 list" where
  "sha256_schedule inp =
     fold (\<lambda>i W. W @ [sigma256_1 (W ! (i - 2)) + W ! (i - 7) +
                       sigma256_0 (W ! (i - 15)) + W ! (i - 16)])
       [16..<64] (map (\<lambda>i. get_unaligned_be32 (drop (i * 4) inp)) [0..<16])"

definition sha256_round :: "u32 list \<Rightarrow> nat \<Rightarrow> u32 sha_vars \<Rightarrow> u32 sha_vars" where
  "sha256_round W i v =
     (let (a, b, c, d, e, f, g, h) = v;
          T1 = h + Sigma256_1 e + Ch e f g + ucast (drop_bit 32 (sha512_round_constants ! i)) + W ! i;
          T2 = Sigma256_0 a + Maj a b c
      in (T1 + T2, a, b, c, d + T1, e, f, g))"

definition sha256_block :: "u32 list \<Rightarrow> bytes \<Rightarrow> u32 list" where
  "sha256_block H inp =
     (let W = sha256_schedule inp;
          (a, b, c, d, e, f, g, h) =
            fold (sha256_round W) [0..<64] (H ! 0, H ! 1, H ! 2, H ! 3, H ! 4, H ! 5, H ! 6, H ! 7)
      in [H ! 0 + a, H ! 1 + b, H ! 2 + c, H ! 3 + d, H ! 4 + e, H ! 5 + f, H ! 6 + g, H ! 7 + h])"

function sha256_loop :: "u32 list \<Rightarrow> bytes \<Rightarrow> u32 list" where
  "sha256_loop H msg =
     (let H' = sha256_block H msg; rest = drop SHA256_BLOCK_SIZE msg
      in if rest = [] then H' else sha256_loop H' rest)"
  by pat_completeness auto
termination
  by (relation "measure (\<lambda>(H, msg). length msg)") (auto simp: SHA256_BLOCK_SIZE_def)

definition sha256 :: "bytes \<Rightarrow> bytes" where
  "sha256 inp =
     concat (map put_unaligned_be32
       (sha256_loop (map (\<lambda>h. ucast (drop_bit 32 h)) sha512_iv) (sha256_pad inp)))"

declare sha512_loop.simps [simp del] sha256_loop.simps [simp del]

section \<open>HMAC and HKDF\<close>

definition hmac_sha512 :: "bytes \<Rightarrow> bytes \<Rightarrow> bytes result" where
  "hmac_sha512 key msg =
     bindr (assertr (length key \<le> SHA512_BLOCK_SIZE) ''keylen <= SHA512_BLOCK_SIZE'') (\<lambda>_.
       let ipad = replicate SHA512_BLOCK_SIZE 0x36;
           ibuf = xor_into ipad ipad key (length key) @ msg;
           opad = replicate SHA512_BLOCK_SIZE 0x5c;
           obuf = xor_into opad opad key (length key) @ sha512 ibuf
       in Inr (sha512 obuf))"

text \<open>
  The expansion loop.  \<open>output\<close> holds the bytes written so far, \<open>i\<close> of them except after the
  last round; the counter is a byte, and its wrap to zero is caught by the assertion.
\<close>

function hkdf_expand_loop :: "bytes \<Rightarrow> bytes \<Rightarrow> nat \<Rightarrow> nat \<Rightarrow> u8 \<Rightarrow> bytes \<Rightarrow> bytes result" where
  "hkdf_expand_loop prk info outlen i counter output =
     (if i < outlen then
        bindr (assertr (counter \<noteq> 0) ''counter != 0'') (\<lambda>_.
          let buf = (if i > 0 then take SHA512_DIGEST_SIZE (drop (i - SHA512_DIGEST_SIZE) output) else [])
                    @ info @ [counter]
          in bindr (hmac_sha512 prk buf) (\<lambda>tmp.
               hkdf_expand_loop prk info outlen (i + SHA512_DIGEST_SIZE) (counter + 1)
                 (output @ take (min SHA512_DIGEST_SIZE (outlen - i)) tmp)))
      else Inr output)"
  by pat_completeness auto
termination
  by (relation "measure (\<lambda>(prk, info, outlen, i, counter, output). outlen - i)")
    (auto simp: SHA512_DIGEST_SIZE_def)

declare hkdf_expand_loop.simps [simp del]

definition hkdf_sha512 :: "bytes \<Rightarrow> bytes \<Rightarrow> bytes \<Rightarrow> nat \<Rightarrow> bytes result" where
  "hkdf_sha512 ikm salt info outlen =
     (let salt = (if length salt = 0 then replicate SHA512_DIGEST_SIZE 0 else salt)
      in bindr (assertr (length ikm > 0) ''ikmlen > 0'') (\<lambda>_.
         bindr (hmac_sha512 salt ikm) (\<lambda>prk.
           hkdf_expand_loop prk info outlen 0 1 [])))"

section \<open>Padding\<close>

lemma pad_form:
  assumes "length inp + 9 \<le> msglen" and "length L = 8"
  shows "put_at (put_at (inp @ replicate (msglen - length inp) 0) (length inp) [b]) (msglen - 8) L =
    inp @ [b] @ replicate (msglen - length inp - 9) (0::'a::zero) @ L"
proof -
  have r: "replicate (msglen - length inp) (0::'a) =
      [0] @ replicate (msglen - length inp - 9) 0 @ replicate 8 0"
    using assms(1) by (simp flip: replicate_add replicate_Suc)
  have "put_at (inp @ replicate (msglen - length inp) 0) (length inp) [b] =
      (inp @ [b] @ replicate (msglen - length inp - 9) 0) @ replicate 8 0 @ []"
    unfolding r using put_at_append [of inp "length inp" "[b]" "[0]"] by simp
  then show ?thesis
    using assms put_at_append [of "inp @ [b] @ replicate (msglen - length inp - 9) 0" "msglen - 8" L
        "replicate 8 0" "[]"] by simp
qed

lemma sha512_pad_form:
  "sha512_pad inp = inp @ [0x80] @ replicate (ROUND_UP (length inp + 17) 128 - length inp - 9) 0 @
     put_unaligned_be64 (of_nat (length inp) * 8)"
proof -
  have "length inp + 17 \<le> ROUND_UP (length inp + 17) (2 ^ 7)" by (rule ROUND_UP_ge)
  then show ?thesis
    unfolding sha512_pad_def Let_def SHA512_BLOCK_SIZE_def by (subst pad_form) simp_all
qed

lemma sha256_pad_form:
  "sha256_pad inp = inp @ [0x80] @ replicate (ROUND_UP (length inp + 9) 64 - length inp - 9) 0 @
     put_unaligned_be64 (of_nat (length inp) * 8)"
proof -
  have "length inp + 9 \<le> ROUND_UP (length inp + 9) (2 ^ 6)" by (rule ROUND_UP_ge)
  then show ?thesis
    unfolding sha256_pad_def Let_def SHA256_BLOCK_SIZE_def by (subst pad_form) simp_all
qed

lemma length_sha512_pad: "length (sha512_pad inp) = ROUND_UP (length inp + 17) 128"
  using ROUND_UP_ge [of "length inp + 17" 7] by (simp add: sha512_pad_form)

lemma length_sha256_pad: "length (sha256_pad inp) = ROUND_UP (length inp + 9) 64"
  using ROUND_UP_ge [of "length inp + 9" 6] by (simp add: sha256_pad_form)

lemma of_nat_times_8_inj:
  assumes "m < 2 ^ 61" and "n < 2 ^ 61" and "(of_nat m * 8 :: u64) = of_nat n * 8"
  shows "m = n"
proof -
  have "unat (of_nat k * 8 :: u64) = 8 * k" if "k < 2 ^ 61" for k
  proof -
    have "(of_nat k * 8 :: u64) = of_nat (8 * k)" by simp
    then show ?thesis using that by (simp only: unat_of_nat) (simp add: take_bit_nat_eq_self)
  qed
  from this [OF assms(1)] this [OF assms(2)] have "8 * m = 8 * n" by (simp only: assms(3))
  then show ?thesis by simp
qed

lemma drop_last_8: "length L = 8 \<Longrightarrow> drop (length (xs @ L) - 8) (xs @ L) = L"
  by simp

lemma pad_inj:
  assumes "inp @ [b] @ z @ put_unaligned_be64 (of_nat (length inp) * 8) =
      inp' @ [b] @ z' @ put_unaligned_be64 (of_nat (length inp') * 8)"
    and "length inp < 2 ^ 61" and "length inp' < 2 ^ 61"
  shows "inp = inp'"
proof -
  have "put_unaligned_be64 (of_nat (length inp) * 8) = put_unaligned_be64 (of_nat (length inp') * 8)"
    using arg_cong [OF assms(1), of "\<lambda>xs. drop (length xs - 8) xs"] by simp
  then have "(of_nat (length inp) * 8 :: u64) = of_nat (length inp') * 8"
    by (metis get_put_be64)
  with assms(2,3) have "length inp = length inp'" using of_nat_times_8_inj by blast
  with assms(1) show ?thesis by simp
qed

lemma sha512_pad_injective:
  assumes "sha512_pad m = sha512_pad m'" and "length m < 2 ^ 61" and "length m' < 2 ^ 61"
  shows "m = m'"
  using assms unfolding sha512_pad_form by (rule pad_inj)

lemma sha256_pad_injective:
  assumes "sha256_pad m = sha256_pad m'" and "length m < 2 ^ 61" and "length m' < 2 ^ 61"
  shows "m = m'"
  using assms unfolding sha256_pad_form by (rule pad_inj)

section \<open>Digest lengths\<close>

lemma length_sha512_block [simp]: "length (sha512_block H inp) = 8"
  by (simp add: sha512_block_def Let_def split: prod.split)

lemma length_sha256_block [simp]: "length (sha256_block H inp) = 8"
  by (simp add: sha256_block_def Let_def split: prod.split)

lemma length_sha512_loop: "length (sha512_loop H msg) = 8"
  by (induction H msg rule: sha512_loop.induct)
    (subst sha512_loop.simps, simp add: Let_def)

lemma length_sha256_loop: "length (sha256_loop H msg) = 8"
  by (induction H msg rule: sha256_loop.induct)
    (subst sha256_loop.simps, simp add: Let_def)

lemma length_sha512 [simp, len_simps]: "length (sha512 inp) = 64"
  by (simp add: sha512_def length_concat_fixed [where n = 8] length_sha512_loop)

lemma length_sha256 [simp, len_simps]: "length (sha256 inp) = 32"
  by (simp add: sha256_def length_concat_fixed [where n = 4] length_sha256_loop)

section \<open>HMAC and HKDF\<close>

lemma hmac_sha512_Inr:
  "hmac_sha512 key msg = Inr mac \<Longrightarrow> length key \<le> 128 \<and> length mac = 64"
  by (auto simp: hmac_sha512_def sha_sizes bindr_Inr_iff Let_def)

lemma hmac_sha512_ok: "length key \<le> 128 \<Longrightarrow> \<exists>mac. hmac_sha512 key msg = Inr mac \<and> length mac = 64"
  by (simp add: hmac_sha512_def sha_sizes Let_def)

text \<open>The blocks \<open>T(1), T(2), \<dots>\<close> of RFC 5869, each chained on the one before.\<close>

fun hkdf_block :: "bytes \<Rightarrow> bytes \<Rightarrow> nat \<Rightarrow> bytes" where
  "hkdf_block prk info 0 = []"
| "hkdf_block prk info (Suc n) =
     projr (hmac_sha512 prk (hkdf_block prk info n @ info @ [of_nat (Suc n)]))"

declare hkdf_block.simps(2) [simp del]

definition hkdf_stream :: "bytes \<Rightarrow> bytes \<Rightarrow> nat \<Rightarrow> bytes" where
  "hkdf_stream prk info n = concat (map (\<lambda>j. hkdf_block prk info (Suc j)) [0..<n])"

lemma length_hkdf_block: "length prk \<le> 128 \<Longrightarrow> length (hkdf_block prk info (Suc n)) = 64"
  using hmac_sha512_ok [of prk "hkdf_block prk info n @ info @ [of_nat (Suc n)]"]
  by (auto simp: hkdf_block.simps(2))

lemma length_hkdf_stream [simp]: "length prk \<le> 128 \<Longrightarrow> length (hkdf_stream prk info n) = 64 * n"
  unfolding hkdf_stream_def
  by (subst length_concat_fixed [where n = 64]) (simp_all add: length_hkdf_block)

lemma hkdf_stream_Suc:
  "hkdf_stream prk info (Suc n) = hkdf_stream prk info n @ hkdf_block prk info (Suc n)"
  by (simp add: hkdf_stream_def)

lemma hkdf_expand_loop_step:
  assumes "i < outlen" and "counter \<noteq> 0"
    and "(if 0 < i then take 64 (drop (i - 64) output) else []) = p"
    and "hmac_sha512 prk (p @ info @ [counter]) = Inr T"
  shows "hkdf_expand_loop prk info outlen i counter output =
    hkdf_expand_loop prk info outlen (i + 64) (counter + 1) (output @ take (min 64 (outlen - i)) T)"
proof -
  have c: "assertr (counter \<noteq> 0) ''counter != 0'' = Inr ()" using assms(2) by simp
  show ?thesis using assms(1)
    by (subst hkdf_expand_loop.simps) (simp only: c sha_sizes assms(3,4) Let_def bindr_simps if_True)
qed

text \<open>The loop with the first \<open>n\<close> blocks written.\<close>

definition hkdf_after :: "bytes \<Rightarrow> bytes \<Rightarrow> nat \<Rightarrow> nat \<Rightarrow> bytes result" where
  "hkdf_after prk info outlen n =
     hkdf_expand_loop prk info outlen (64 * n) (of_nat (Suc n)) (take outlen (hkdf_stream prk info n))"

lemma hkdf_after_Suc:
  assumes "length prk \<le> 128" and "64 * n < outlen" and "n < 255"
  shows "hkdf_after prk info outlen n = hkdf_after prk info outlen (Suc n)"
proof -
  define T where "T = hkdf_block prk info (Suc n)"
  let ?out = "take outlen (hkdf_stream prk info n)"
  have c: "(of_nat (Suc n) :: u8) \<noteq> 0"
    using assms(3) by (simp only: word_of_nat_eq_0_iff) (auto dest!: dvd_imp_le)
  have full: "?out = hkdf_stream prk info n" using assms by simp
  have prev: "(if 0 < 64 * n then take 64 (drop (64 * n - 64) ?out) else []) = hkdf_block prk info n"
  proof (cases n)
    case (Suc m)
    then show ?thesis unfolding full using assms(1)
      by (simp add: hkdf_stream_Suc length_hkdf_block)
  qed simp
  have hm: "hmac_sha512 prk (hkdf_block prk info n @ info @ [of_nat (Suc n)]) = Inr T"
    using hmac_sha512_ok [OF assms(1), of "hkdf_block prk info n @ info @ [of_nat (Suc n)]"]
    by (auto simp: T_def hkdf_block.simps(2) simp del: of_nat_Suc)
  have lT: "length T = 64" using length_hkdf_block [OF assms(1)] by (simp add: T_def)
  have out: "?out @ take (min 64 (outlen - 64 * n)) T = take outlen (hkdf_stream prk info (Suc n))"
    using assms lT by (simp add: hkdf_stream_Suc T_def [symmetric] min_def)
  have "of_nat (Suc n) + 1 = (of_nat (Suc (Suc n)) :: u8)" "64 * n + 64 = 64 * Suc n" by simp_all
  then show ?thesis
    unfolding hkdf_after_def using hkdf_expand_loop_step [OF assms(2) c prev hm] out by metis
qed

lemma hkdf_after_done: "outlen \<le> 64 * n \<Longrightarrow>
    hkdf_after prk info outlen n = Inr (take outlen (hkdf_stream prk info n))"
  unfolding hkdf_after_def by (subst hkdf_expand_loop.simps) simp

lemma hkdf_after_upto:
  assumes "length prk \<le> 128" and "n \<le> 255" and "64 * n < outlen + 64"
  shows "hkdf_after prk info outlen 0 = hkdf_after prk info outlen n"
  using assms(2,3)
proof (induction n)
  case (Suc n)
  then have "hkdf_after prk info outlen 0 = hkdf_after prk info outlen n" by simp
  also have "\<dots> = hkdf_after prk info outlen (Suc n)"
    using Suc.prems assms(1) by (intro hkdf_after_Suc) simp_all
  finally show ?case .
qed simp

text \<open>
  HKDF-Expand: the output is the first \<open>outlen\<close> bytes of the block stream, up to the 255 blocks
  RFC 5869 allows; beyond that the byte counter wraps and the assertion stops the program.
\<close>

lemma hkdf_expand_ok:
  assumes "length prk \<le> 128" and "outlen \<le> 255 * 64"
  shows "hkdf_expand_loop prk info outlen 0 1 [] = Inr (take outlen (hkdf_stream prk info (DIV_ROUND_UP outlen 64)))"
proof -
  let ?n = "DIV_ROUND_UP outlen 64"
  have b: "outlen \<le> 64 * ?n" "64 * ?n < outlen + 64"
    using ceil_mult_bounds [of 64 outlen] by (simp_all add: DIV_ROUND_UP_def mult.commute)
  with assms(2) have "?n \<le> 255" by linarith
  with b have "hkdf_after prk info outlen 0 = hkdf_after prk info outlen ?n"
    using assms(1) by (intro hkdf_after_upto)
  with hkdf_after_done [OF b(1)] show ?thesis
    by (simp add: hkdf_after_def hkdf_stream_def)
qed

lemma hkdf_expand_overflow:
  assumes "length prk \<le> 128" and "255 * 64 < outlen"
  shows "hkdf_expand_loop prk info outlen 0 1 [] = Inl (Assertion ''counter != 0'')"
proof -
  have "hkdf_after prk info outlen 0 = hkdf_after prk info outlen 255"
    using assms by (intro hkdf_after_upto) simp_all
  also have "\<dots> = Inl (Assertion ''counter != 0'')"
    using assms(2) unfolding hkdf_after_def by (subst hkdf_expand_loop.simps) simp
  finally show ?thesis by (simp add: hkdf_after_def hkdf_stream_def)
qed

lemma hkdf_sha512_ok:
  assumes "0 < length ikm" and "length salt \<le> 128" and "outlen \<le> 255 * 64"
  shows "\<exists>prk. hmac_sha512 (if salt = [] then replicate 64 0 else salt) ikm = Inr prk \<and>
    hkdf_sha512 ikm salt info outlen = Inr (take outlen (hkdf_stream prk info (DIV_ROUND_UP outlen 64)))"
proof -
  have "length (if salt = [] then replicate 64 (0::u8) else salt) \<le> 128" using assms(2) by simp
  then obtain prk where "hmac_sha512 (if salt = [] then replicate 64 0 else salt) ikm = Inr prk"
    and "length prk = 64" using hmac_sha512_ok by blast
  then show ?thesis
    using assms hkdf_expand_ok [of prk outlen info]
    by (auto simp: hkdf_sha512_def Let_def sha_sizes)
qed

lemma hkdf_sha512_length:
  assumes "0 < length ikm" and "length salt \<le> 128" and "outlen \<le> 255 * 64"
  shows "\<exists>out. hkdf_sha512 ikm salt info outlen = Inr out \<and> length out = outlen"
proof -
  obtain prk where prk: "hmac_sha512 (if salt = [] then replicate 64 0 else salt) ikm = Inr prk"
    and h: "hkdf_sha512 ikm salt info outlen = Inr (take outlen (hkdf_stream prk info (DIV_ROUND_UP outlen 64)))"
    using hkdf_sha512_ok [OF assms] by blast
  from prk have "length prk \<le> 128" by (auto dest: hmac_sha512_Inr)
  moreover have "outlen \<le> 64 * DIV_ROUND_UP outlen 64"
    using ceil_mult_bounds(1) [of 64 outlen] by (simp add: DIV_ROUND_UP_def mult.commute)
  ultimately show ?thesis using h by simp
qed

section \<open>Properties\<close>

text \<open>
  The paddings of SHA-256 and SHA-512 are injective on messages of fewer than \<open>2 ^ 61\<close> bytes:
  two such messages with the same padded form are equal, so a collision of the hash is a
  collision of the compression loop.
\<close>

theorem sha_padding_injective:
  assumes "length m < 2 ^ 61" and "length m' < 2 ^ 61"
  shows "(sha512_pad m = sha512_pad m' \<longleftrightarrow> m = m') \<and> (sha256_pad m = sha256_pad m' \<longleftrightarrow> m = m')"
  using assms sha512_pad_injective sha256_pad_injective by blast

text \<open>
  C31. HKDF-SHA512 with a nonempty input key and a salt of at most one hash block: up to 255 hash
  lengths of output it returns exactly that many bytes, the prefix of the chained blocks of
  the expansion; beyond that bound the one byte block counter wraps and the assertion on it
  ends the program.
\<close>

theorem hkdf_sha512_output:
  assumes "0 < length ikm" and "length salt \<le> 128"
  shows "\<exists>prk. hmac_sha512 (if salt = [] then replicate 64 0 else salt) ikm = Inr prk \<and>
    hkdf_sha512 ikm salt info outlen =
      (if outlen \<le> 255 * 64 then Inr (take outlen (hkdf_stream prk info (DIV_ROUND_UP outlen 64)))
       else Inl (Assertion ''counter != 0''))"
proof (cases "outlen \<le> 255 * 64")
  case True
  then show ?thesis using hkdf_sha512_ok [OF assms] by simp
next
  case False
  have "length (if salt = [] then replicate 64 0 else salt) \<le> 128" using assms(2) by simp
  from hmac_sha512_ok [OF this, of ikm]
  obtain prk where prk: "hmac_sha512 (if salt = [] then replicate 64 0 else salt) ikm = Inr prk" "length prk = 64"
    by blast
  then show ?thesis using False assms hkdf_expand_overflow [of prk outlen info]
    by (intro exI [of _ prk]) (auto simp: hkdf_sha512_def Let_def sha_sizes)
qed

theorem hkdf_sha512_output_witness:
  "hkdf_sha512 [7] [] [1] 16321 = Inl (Assertion ''counter != 0'') \<and>
   (\<exists>prk. hkdf_sha512 [7] [] [1] 100 = Inr (take 100 (hkdf_stream prk [1] (DIV_ROUND_UP 100 64))))"
  using hkdf_sha512_output [of "[7]" "[]" "[1]" 16321] hkdf_sha512_output [of "[7]" "[]" "[1]" 100] by auto

end
