(* ===== verification/AES_Modes.thy ===== *)
theory AES_Modes
  imports AES SHA2
begin

text \<open>
  POLYVAL and the AES modes of operation of \<open>src/src/fscrypt-crypt-util.c\<close>: XTS, CBC, CBC with
  ciphertext stealing, CBC-ESSIV, XCTR, HCTR2 and CMAC.  The source passes a source buffer, a
  destination buffer and a byte count; here the source is a list of exactly that many bytes and the
  result is the destination.  Each block loop is a recursion over the source that takes the block
  routine as an argument, so that the facts about it hold for every block cipher.
\<close>

abbreviation xor_out :: "bytes \<Rightarrow> bytes \<Rightarrow> nat \<Rightarrow> bytes" where
  "xor_out a b count \<equiv> xor_into [] a b count"

section \<open>POLYVAL\<close>

definition inv128 :: ble128 where
  "inv128 = \<lparr>le_lo = 1, le_hi = push_bit 48 0x9204\<rparr>"

fun polyval_loop :: "ble128 \<Rightarrow> bytes \<Rightarrow> ble128 \<Rightarrow> ble128" where
  "polyval_loop h msg acc =
     (if msg = [] then acc
      else let acc = le128_of_bytes (xor_into (bytes_of_le128 acc) (bytes_of_le128 acc) msg 16)
           in polyval_loop h (drop 16 msg) (gf2_128_mul_polyval acc h))"

declare polyval_loop.simps [simp del]

definition polyval_update :: "bytes \<Rightarrow> bytes \<Rightarrow> bytes \<Rightarrow> bytes result" where
  "polyval_update key msg accumulator =
     bindr (assertr (length msg mod 16 = 0) ''msglen % POLYVAL_BLOCK_SIZE == 0'') (\<lambda>_.
       let h = gf2_128_mul_polyval (le128_of_bytes key) inv128
       in Inr (bytes_of_le128 (polyval_loop h msg (le128_of_bytes accumulator))))"

section \<open>XTS\<close>

fun xts_loop :: "(bytes \<Rightarrow> bytes) \<Rightarrow> ble128 \<Rightarrow> bytes \<Rightarrow> bytes" where
  "xts_loop crypt t src =
     (if src = [] then []
      else let dst = xor_out src (bytes_of_le128 t) 16;
               dst = crypt dst;
               dst = xor_into dst dst (bytes_of_le128 t) 16
           in dst @ xts_loop crypt (gf2_128_mul_x_xts t) (drop 16 src))"

declare xts_loop.simps [simp del]

definition aes_256_xts_crypt :: "bytes \<Rightarrow> bytes \<Rightarrow> bytes \<Rightarrow> bool \<Rightarrow> bytes result" where
  "aes_256_xts_crypt key iv src decrypting =
     bindr (assertr (length src mod AES_BLOCK_SIZE = 0) ''nbytes % AES_BLOCK_SIZE == 0'') (\<lambda>_.
     bindr (aes_setkey key AES_256_KEY_SIZE) (\<lambda>cipher_key.
     bindr (aes_setkey (drop AES_256_KEY_SIZE key) AES_256_KEY_SIZE) (\<lambda>tweak_key.
       let t = le128_of_bytes (aes_encrypt tweak_key iv)
       in Inr (xts_loop (if decrypting then aes_decrypt cipher_key else aes_encrypt cipher_key) t src))))"

definition aes_256_xts_encrypt :: "bytes \<Rightarrow> bytes \<Rightarrow> bytes \<Rightarrow> bytes result" where
  "aes_256_xts_encrypt key iv src = aes_256_xts_crypt key iv src False"

definition aes_256_xts_decrypt :: "bytes \<Rightarrow> bytes \<Rightarrow> bytes \<Rightarrow> bytes result" where
  "aes_256_xts_decrypt key iv src = aes_256_xts_crypt key iv src True"

section \<open>CBC\<close>

fun cbc_encrypt_loop :: "(bytes \<Rightarrow> bytes) \<Rightarrow> bytes \<Rightarrow> bytes \<Rightarrow> bytes" where
  "cbc_encrypt_loop enc prev src =
     (if src = [] then []
      else let dst = enc (xor_out src prev 16)
           in dst @ cbc_encrypt_loop enc dst (drop 16 src))"

declare cbc_encrypt_loop.simps [simp del]

definition aes_cbc_encrypt :: "aes_key \<Rightarrow> bytes \<Rightarrow> bytes \<Rightarrow> bytes result" where
  "aes_cbc_encrypt k iv src =
     bindr (assertr (length src mod AES_BLOCK_SIZE = 0) ''nbytes % AES_BLOCK_SIZE == 0'') (\<lambda>_.
       Inr (cbc_encrypt_loop (aes_encrypt k) iv src))"

text \<open>
  Decryption walks from the last block to the first.  The result of the call at offset \<open>i\<close> is
  the first \<open>i\<close> bytes of the destination.
\<close>

fun cbc_decrypt_loop :: "(bytes \<Rightarrow> bytes) \<Rightarrow> bytes \<Rightarrow> bytes \<Rightarrow> nat \<Rightarrow> bytes" where
  "cbc_decrypt_loop dec iv src i =
     (if i = 0 then []
      else let i = i - 16;
               dst = dec (slice src i 16);
               dst = xor_into dst dst (if i = 0 then iv else slice src (i - 16) 16) 16
           in cbc_decrypt_loop dec iv src i @ dst)"

declare cbc_decrypt_loop.simps [simp del]

definition aes_cbc_decrypt :: "aes_key \<Rightarrow> bytes \<Rightarrow> bytes \<Rightarrow> bytes result" where
  "aes_cbc_decrypt k iv src =
     bindr (assertr (length src mod AES_BLOCK_SIZE = 0) ''i % AES_BLOCK_SIZE == 0'') (\<lambda>_.
       Inr (cbc_decrypt_loop (aes_decrypt k) iv src (length src)))"

text \<open>
  The same loop when source and destination are one buffer, as in the call from
  \<open>crypt_loop\<close>: every read sees the writes made so far.
\<close>

fun cbc_decrypt_inplace :: "(bytes \<Rightarrow> bytes) \<Rightarrow> bytes \<Rightarrow> bytes \<Rightarrow> nat \<Rightarrow> bytes" where
  "cbc_decrypt_inplace dec iv buf i =
     (if i = 0 then buf
      else let i = i - 16;
               buf = put_at buf i (dec (slice buf i 16));
               buf = put_at buf i (xor_out (slice buf i 16)
                       (if i = 0 then iv else slice buf (i - 16) 16) 16)
           in cbc_decrypt_inplace dec iv buf i)"

declare cbc_decrypt_inplace.simps [simp del]

section \<open>CBC with ciphertext stealing\<close>

definition aes_cts_cbc_encrypt :: "bytes \<Rightarrow> nat \<Rightarrow> bytes \<Rightarrow> bytes \<Rightarrow> bytes result" where
  "aes_cts_cbc_encrypt key keysize iv src =
     (let nbytes = length src;
          offset = ROUND_DOWN (nbytes - 1) AES_BLOCK_SIZE;
          final_bsize = nbytes - offset
      in bindr (assertr (nbytes \<ge> AES_BLOCK_SIZE) ''nbytes >= AES_BLOCK_SIZE'') (\<lambda>_.
         bindr (aes_setkey key keysize) (\<lambda>k.
           if nbytes = AES_BLOCK_SIZE then aes_cbc_encrypt k iv src
           else bindr (aes_cbc_encrypt k iv (take offset src)) (\<lambda>dst.
             let pad = slice dst (offset - AES_BLOCK_SIZE) AES_BLOCK_SIZE;
                 buf = xor_into pad pad (drop offset src) final_bsize
             in Inr (take (offset - AES_BLOCK_SIZE) dst @ aes_encrypt k buf @ take final_bsize pad)))))"

definition aes_cts_cbc_decrypt :: "bytes \<Rightarrow> nat \<Rightarrow> bytes \<Rightarrow> bytes \<Rightarrow> bytes result" where
  "aes_cts_cbc_decrypt key keysize iv src =
     (let nbytes = length src;
          offset = ROUND_DOWN (nbytes - 1) AES_BLOCK_SIZE;
          final_bsize = nbytes - offset
      in bindr (assertr (nbytes \<ge> AES_BLOCK_SIZE) ''nbytes >= AES_BLOCK_SIZE'') (\<lambda>_.
         bindr (aes_setkey key keysize) (\<lambda>k.
           if nbytes = AES_BLOCK_SIZE then aes_cbc_decrypt k iv src
           else
             let pad = aes_decrypt k (slice src (offset - AES_BLOCK_SIZE) AES_BLOCK_SIZE);
                 final = xor_out (drop offset src) pad final_bsize;
                 pad = xor_into pad pad final final_bsize
             in bindr (aes_cbc_decrypt k
                         (if offset = AES_BLOCK_SIZE then iv
                          else drop (offset - 2 * AES_BLOCK_SIZE) src) pad) (\<lambda>pad.
                bindr (aes_cbc_decrypt k iv (take (offset - AES_BLOCK_SIZE) src)) (\<lambda>dst.
                  Inr (dst @ pad @ final))))))"

definition aes_256_cts_cbc_encrypt :: "bytes \<Rightarrow> bytes \<Rightarrow> bytes \<Rightarrow> bytes result" where
  "aes_256_cts_cbc_encrypt key iv src = aes_cts_cbc_encrypt key AES_256_KEY_SIZE iv src"

definition aes_256_cts_cbc_decrypt :: "bytes \<Rightarrow> bytes \<Rightarrow> bytes \<Rightarrow> bytes result" where
  "aes_256_cts_cbc_decrypt key iv src = aes_cts_cbc_decrypt key AES_256_KEY_SIZE iv src"

definition aes_128_cts_cbc_encrypt :: "bytes \<Rightarrow> bytes \<Rightarrow> bytes \<Rightarrow> bytes result" where
  "aes_128_cts_cbc_encrypt key iv src = aes_cts_cbc_encrypt key AES_128_KEY_SIZE iv src"

definition aes_128_cts_cbc_decrypt :: "bytes \<Rightarrow> bytes \<Rightarrow> bytes \<Rightarrow> bytes result" where
  "aes_128_cts_cbc_decrypt key iv src = aes_cts_cbc_decrypt key AES_128_KEY_SIZE iv src"

section \<open>CBC-ESSIV\<close>

definition essiv_generate_iv :: "bytes \<Rightarrow> bytes \<Rightarrow> bytes result" where
  "essiv_generate_iv orig_key orig_iv =
     (let essiv_key = sha256 (take AES_128_KEY_SIZE orig_key)
      in bindr (aes_setkey essiv_key AES_256_KEY_SIZE) (\<lambda>essiv.
           Inr (aes_encrypt essiv orig_iv)))"

definition aes_128_cbc_essiv_encrypt :: "bytes \<Rightarrow> bytes \<Rightarrow> bytes \<Rightarrow> bytes result" where
  "aes_128_cbc_essiv_encrypt key iv src =
     bindr (aes_setkey key AES_128_KEY_SIZE) (\<lambda>k.
     bindr (essiv_generate_iv key iv) (\<lambda>real_iv.
       aes_cbc_encrypt k real_iv src))"

definition aes_128_cbc_essiv_decrypt :: "bytes \<Rightarrow> bytes \<Rightarrow> bytes \<Rightarrow> bytes result" where
  "aes_128_cbc_essiv_decrypt key iv src =
     bindr (aes_setkey key AES_128_KEY_SIZE) (\<lambda>k.
     bindr (essiv_generate_iv key iv) (\<lambda>real_iv.
       aes_cbc_decrypt k real_iv src))"

section \<open>XCTR and HCTR2\<close>

text \<open>\<open>i\<close> is the offset of the block that \<open>src\<close> starts with.\<close>

fun xctr_loop :: "(bytes \<Rightarrow> bytes) \<Rightarrow> bytes \<Rightarrow> nat \<Rightarrow> bytes \<Rightarrow> bytes" where
  "xctr_loop enc iv i src =
     (if src = [] then []
      else let blk = put_unaligned_le64 (get_unaligned_le64 iv XOR of_nat (i div 16 + 1)) @ slice iv 8 8;
               blk = enc blk
           in xor_out blk src (min 16 (length src)) @ xctr_loop enc iv (i + 16) (drop 16 src))"

declare xctr_loop.simps [simp del]

definition aes_256_xctr_crypt :: "bytes \<Rightarrow> bytes \<Rightarrow> bytes \<Rightarrow> bytes result" where
  "aes_256_xctr_crypt key iv src =
     bindr (aes_setkey key AES_256_KEY_SIZE) (\<lambda>k. Inr (xctr_loop (aes_encrypt k) iv 0 src))"

definition HCTR2_IV_SIZE :: nat where "HCTR2_IV_SIZE = 32"

definition hctr2_hash_iv :: "bytes \<Rightarrow> bytes \<Rightarrow> nat \<Rightarrow> bytes result" where
  "hctr2_hash_iv hbar iv msglen =
     (let tweaklen_blk = \<lparr>le_lo = of_nat (HCTR2_IV_SIZE * 8 * 2 + 2 + of_bool (msglen mod AES_BLOCK_SIZE \<noteq> 0)),
                          le_hi = 0\<rparr>
      in bindr (polyval_update hbar (bytes_of_le128 tweaklen_blk) (replicate 16 0)) (\<lambda>digest.
           polyval_update hbar (take HCTR2_IV_SIZE iv) digest))"

definition hctr2_hash_message :: "bytes \<Rightarrow> bytes \<Rightarrow> bytes \<Rightarrow> bytes result" where
  "hctr2_hash_message hbar msg digest =
     (let msglen = length msg;
          remainder = msglen mod AES_BLOCK_SIZE
      in bindr (polyval_update hbar (take (msglen - remainder) msg) digest) (\<lambda>digest.
           if remainder \<noteq> 0 then
             let padded_block = put_at (replicate 16 0) 0 (drop (msglen - remainder) msg);
                 padded_block = padded_block[remainder := 1]
             in polyval_update hbar padded_block digest
           else Inr digest))"

definition aes_256_hctr2_crypt :: "bytes \<Rightarrow> bytes \<Rightarrow> bytes \<Rightarrow> bool \<Rightarrow> bytes result" where
  "aes_256_hctr2_crypt key iv src decrypting =
     (let nbytes = length src; bulk_bytes = nbytes - AES_BLOCK_SIZE;
          M = take AES_BLOCK_SIZE src; N = drop AES_BLOCK_SIZE src
      in bindr (assertr (nbytes \<ge> AES_BLOCK_SIZE) ''nbytes >= AES_BLOCK_SIZE'') (\<lambda>_.
         bindr (aes_setkey key AES_256_KEY_SIZE) (\<lambda>k.
           let hbar = aes_encrypt k (replicate 16 0);
               L = aes_encrypt k (1 # replicate 15 0)
           in bindr (hctr2_hash_iv hbar iv bulk_bytes) (\<lambda>digest.
              bindr (hctr2_hash_message hbar N digest) (\<lambda>digest.
                let MM = xor_out M digest AES_BLOCK_SIZE;
                    UU = (if decrypting then aes_decrypt k MM else aes_encrypt k MM);
                    S = xor_out MM UU AES_BLOCK_SIZE;
                    S = xor_out L S AES_BLOCK_SIZE
                in bindr (aes_256_xctr_crypt key S N) (\<lambda>V.
                   bindr (hctr2_hash_iv hbar iv bulk_bytes) (\<lambda>digest.
                   bindr (hctr2_hash_message hbar V digest) (\<lambda>digest.
                     Inr (xor_out UU digest AES_BLOCK_SIZE @ V)))))))))"

definition aes_256_hctr2_encrypt :: "bytes \<Rightarrow> bytes \<Rightarrow> bytes \<Rightarrow> bytes result" where
  "aes_256_hctr2_encrypt key iv src = aes_256_hctr2_crypt key iv src False"

definition aes_256_hctr2_decrypt :: "bytes \<Rightarrow> bytes \<Rightarrow> bytes \<Rightarrow> bytes result" where
  "aes_256_hctr2_decrypt key iv src = aes_256_hctr2_crypt key iv src True"

section \<open>CMAC\<close>

fun cmac_loop :: "(bytes \<Rightarrow> bytes) \<Rightarrow> nat \<Rightarrow> bytes \<Rightarrow> bytes \<Rightarrow> bytes" where
  "cmac_loop enc 0 mac msg = mac"
| "cmac_loop enc (Suc n) mac msg = cmac_loop enc n (enc (xor_into mac mac msg 16)) (drop 16 msg)"

definition aes_256_cmac :: "bytes \<Rightarrow> bytes \<Rightarrow> bytes result" where
  "aes_256_cmac key msg =
     (let msglen = length msg;
          partial = msglen mod AES_BLOCK_SIZE;
          full_blocks = (if msglen \<noteq> 0 then (msglen - 1) div AES_BLOCK_SIZE else 0)
      in bindr (aes_setkey key AES_256_KEY_SIZE) (\<lambda>k.
           let subkey = bbe128_of_bytes (aes_encrypt k (bytes_of_bbe128 \<lparr>be_hi = 0, be_lo = 0\<rparr>));
               subkey = gf2_128_mul_x_cmac subkey;
               mac = cmac_loop (aes_encrypt k) full_blocks (replicate 16 0) msg;
               i = full_blocks * AES_BLOCK_SIZE;
               mac = xor_into mac mac (drop i msg) (msglen - i);
               (mac, subkey) =
                 (if partial \<noteq> 0 \<or> msglen = 0
                  then (mac[msglen - i := mac ! (msglen - i) XOR 0x80], gf2_128_mul_x_cmac subkey)
                  else (mac, subkey));
               mac = xor_into mac mac (bytes_of_bbe128 subkey) AES_BLOCK_SIZE
           in Inr (aes_encrypt k mac)))"

text \<open>The block before block \<open>n\<close>: the IV for the first one.\<close>

definition cbc_prev :: "bytes \<Rightarrow> bytes \<Rightarrow> nat \<Rightarrow> bytes" where
  "cbc_prev iv ctext n = (if n = 0 then take 16 iv else slice ctext (16 * (n - 1)) 16)"

section \<open>The block loops over any block cipher\<close>

lemma xor_out_eq: "n \<le> length a \<Longrightarrow> n \<le> length b \<Longrightarrow> xor_out a b n = xor_bytes (take n a) (take n b)"
  by (simp add: xor_into_eq)

lemma xts_loop_Nil [simp]: "xts_loop f t [] = []"
  by (subst xts_loop.simps) simp

lemma cbc_encrypt_loop_Nil [simp]: "cbc_encrypt_loop f prev [] = []"
  by (subst cbc_encrypt_loop.simps) simp

lemma cbc_decrypt_loop_0 [simp]: "cbc_decrypt_loop f iv src 0 = []"
  by (subst cbc_decrypt_loop.simps) simp

lemma xctr_loop_Nil [simp]: "xctr_loop f iv i [] = []"
  by (subst xctr_loop.simps) simp

lemma polyval_loop_Nil [simp]: "polyval_loop h [] acc = acc"
  by (subst polyval_loop.simps) simp

lemma xts_loop_block:
  assumes "length b = 16" and "length (f (xor_bytes b (bytes_of_le128 t))) = 16"
  shows "xts_loop f t (b @ src) =
    xor_bytes (f (xor_bytes b (bytes_of_le128 t))) (bytes_of_le128 t) @ xts_loop f (gf2_128_mul_x_xts t) src"
  using assms by (subst xts_loop.simps) (auto simp: xor_into_eq Let_def)

lemma cbc_encrypt_loop_block:
  assumes "length b = 16" and "16 \<le> length prev"
  shows "cbc_encrypt_loop f prev (b @ src) =
    f (xor_bytes b (take 16 prev)) @ cbc_encrypt_loop f (f (xor_bytes b (take 16 prev))) src"
  using assms by (subst cbc_encrypt_loop.simps) (auto simp: xor_into_eq Let_def)

lemma cbc_decrypt_loop_Suc:
  assumes "length (f (slice src (16 * n) 16)) = 16" and "16 \<le> length iv" and "16 * n \<le> length src"
  shows "cbc_decrypt_loop f iv src (16 * Suc n) =
    cbc_decrypt_loop f iv src (16 * n) @ xor_bytes (f (slice src (16 * n) 16)) (cbc_prev iv src n)"
proof -
  have e: "16 * Suc n - 16 = 16 * n" by simp
  have p: "take 16 (if 16 * n = 0 then iv else slice src (16 * n - 16) 16) = cbc_prev iv src n"
    by (auto simp: cbc_prev_def slice_def diff_mult_distrib2)
  have l: "16 \<le> length (if 16 * n = 0 then iv else slice src (16 * n - 16) 16)"
    using assms(2,3) by (auto simp: slice_def)
  show ?thesis
    using assms(1) l p
    by (subst cbc_decrypt_loop.simps) (simp only: e Let_def, simp add: xor_into_eq)
qed

lemma slice_append_shift: "length a = m \<Longrightarrow> slice (a @ b) (m + off) n = slice b off n"
  by (simp add: slice_def)

context block_cipher
begin

lemma xts_roundtrip:
  assumes "length src mod 16 = 0"
  shows "xts_loop (dec k) t (xts_loop (enc k) t src) = src"
    and "length (xts_loop (enc k) t src) = length src"
proof -
  have "xts_loop (dec k) t (xts_loop (enc k) t src) = src \<and> length (xts_loop (enc k) t src) = length src"
    using assms
  proof (induction src arbitrary: t rule: block16_induct)
    case (Block b xs)
    then show ?case
      by (simp add: xts_loop_block xor_bytes_cancel dec_enc)
  qed simp_all
  then show "xts_loop (dec k) t (xts_loop (enc k) t src) = src"
    and "length (xts_loop (enc k) t src) = length src" by simp_all
qed

lemma cbc_encrypt_length:
  assumes "length src mod 16 = 0" and "16 \<le> length iv"
  shows "length (cbc_encrypt_loop (enc k) iv src) = length src"
  using assms
proof (induction src arbitrary: iv rule: block16_induct)
  case (Block b xs)
  then show ?case by (simp add: cbc_encrypt_loop_block)
qed simp_all

lemma cbc_encrypt_slice:
  assumes "length src mod 16 = 0" and "16 \<le> length iv" and "16 * n < length src"
  shows "slice (cbc_encrypt_loop (enc k) iv src) (16 * n) 16 =
    enc k (xor_bytes (slice src (16 * n) 16) (cbc_prev iv (cbc_encrypt_loop (enc k) iv src) n))"
  using assms
proof (induction src arbitrary: iv n rule: block16_induct)
  case (Block b xs)
  let ?c = "enc k (xor_bytes b (take 16 iv))"
  show ?case
  proof (cases n)
    case 0
    then show ?thesis
      using Block by (simp add: cbc_encrypt_loop_block slice_def cbc_prev_def)
  next
    case (Suc m)
    have sh: "slice (a @ ys) (16 * n) 16 = slice ys (16 * m) 16" if "length a = 16" for a ys :: bytes
      using slice_append_shift [OF that] Suc by simp
    have prev: "cbc_prev iv (?c @ cbc_encrypt_loop (enc k) ?c xs) n =
        cbc_prev ?c (cbc_encrypt_loop (enc k) ?c xs) m"
    proof (cases m)
      case (Suc l)
      with \<open>n = Suc m\<close> show ?thesis
        using slice_append_shift [of ?c 16 "cbc_encrypt_loop (enc k) ?c xs" "16 * l" 16]
        by (simp add: cbc_prev_def)
    qed (use Suc in \<open>simp add: cbc_prev_def slice_def\<close>)
    have "16 * m < length xs" using Block Suc by simp
    then have "slice (cbc_encrypt_loop (enc k) ?c xs) (16 * m) 16 =
        enc k (xor_bytes (slice xs (16 * m) 16) (cbc_prev ?c (cbc_encrypt_loop (enc k) ?c xs) m))"
      using Block by simp
    then show ?thesis
      using Block by (simp add: cbc_encrypt_loop_block sh prev)
  qed
qed simp_all

lemma cbc_roundtrip_upto:
  assumes "length src mod 16 = 0" and "16 \<le> length iv" and "16 * n \<le> length src"
  shows "cbc_decrypt_loop (dec k) iv (cbc_encrypt_loop (enc k) iv src) (16 * n) = take (16 * n) src"
  using assms(3)
proof (induction n)
  case (Suc n)
  let ?C = "cbc_encrypt_loop (enc k) iv src"
  have lt: "16 * n < length src" and le: "16 * n \<le> length src" using Suc.prems by simp_all
  have lC: "length ?C = length src" using assms(1,2) by (rule cbc_encrypt_length)
  have lp: "length (cbc_prev iv ?C n) = 16"
    using assms(2) lt lC by (auto simp: cbc_prev_def)
  have ls: "length (slice src (16 * n) 16) = 16" using Suc.prems by simp
  have "cbc_decrypt_loop (dec k) iv ?C (16 * Suc n) =
      take (16 * n) src @ xor_bytes (dec k (slice ?C (16 * n) 16)) (cbc_prev iv ?C n)"
    using assms(2) lC le Suc.IH by (subst cbc_decrypt_loop_Suc) simp_all
  also have "xor_bytes (dec k (slice ?C (16 * n) 16)) (cbc_prev iv ?C n) = slice src (16 * n) 16"
    using assms(1,2) lt lp ls by (simp add: cbc_encrypt_slice dec_enc xor_bytes_cancel)
  finally show ?case using take_add [of "16 * n" 16 src] by (simp add: slice_def add.commute)
qed simp

lemma cbc_roundtrip:
  assumes "length src mod 16 = 0" and "16 \<le> length iv"
  shows "cbc_decrypt_loop (dec k) iv (cbc_encrypt_loop (enc k) iv src) (length src) = src"
proof -
  obtain n where "length src = 16 * n" using assms(1) by auto
  with cbc_roundtrip_upto [OF assms, of n k] show ?thesis by simp
qed

lemma cbc_encrypt_append:
  assumes "length a mod 16 = 0" and "length b = 16" and "16 \<le> length iv"
  shows "cbc_encrypt_loop (enc k) iv (a @ b) =
    cbc_encrypt_loop (enc k) iv a @
    enc k (xor_bytes b (take 16 (if a = [] then iv
                                 else drop (length a - 16) (cbc_encrypt_loop (enc k) iv a))))"
  using assms(1,3)
proof (induction a arbitrary: iv rule: block16_induct)
  case Nil
  then show ?case using assms(2) cbc_encrypt_loop_block [of b iv "enc k" "[]"] by simp
next
  case (Block c xs)
  then have "xs = [] \<or> 16 \<le> length xs" by (cases "length xs < 16") auto
  with Block show ?case
    using assms(2) cbc_encrypt_length [of xs "enc k (xor_bytes c (take 16 iv))" k]
    by (auto simp: cbc_encrypt_loop_block)
qed

lemma cbc_decrypt_single:
  assumes "length c = 16" and "16 \<le> length iv"
  shows "cbc_decrypt_loop (dec k) iv c 16 = xor_bytes (dec k c) (take 16 iv)"
  using cbc_decrypt_loop_Suc [of "dec k" c 0 iv] assms by (simp add: slice_def cbc_prev_def)

lemma cbc_decrypt_prefix:
  assumes "16 * n \<le> length a" and "16 \<le> length iv"
  shows "cbc_decrypt_loop (dec k) iv (a @ b) (16 * n) = cbc_decrypt_loop (dec k) iv a (16 * n)"
  using assms(1)
proof (induction n)
  case (Suc n)
  then have "slice (a @ b) (16 * n) 16 = slice a (16 * n) 16" by (simp add: slice_def)
  moreover have "cbc_prev iv (a @ b) n = cbc_prev iv a n"
    using Suc.prems by (cases n) (simp_all add: cbc_prev_def slice_def)
  ultimately show ?case
    using Suc assms(2) cbc_decrypt_loop_Suc [of "dec k" "a @ b" n iv] cbc_decrypt_loop_Suc [of "dec k" a n iv]
    by simp
qed simp

text \<open>Walking backwards is what makes decryption in place correct: no block is read after it is written.\<close>

lemma cbc_decrypt_inplace_eq:
  assumes "16 * n \<le> length buf" and "16 \<le> length iv"
  shows "cbc_decrypt_inplace (dec k) iv buf (16 * n) =
    cbc_decrypt_loop (dec k) iv buf (16 * n) @ drop (16 * n) buf"
  using assms(1)
proof (induction n arbitrary: buf)
  case 0
  then show ?case by (subst cbc_decrypt_inplace.simps) simp
next
  case (Suc n)
  let ?d = "dec k (slice buf (16 * n) 16)"
  let ?x = "xor_bytes ?d (cbc_prev iv buf n)"
  let ?a = "take (16 * n) buf" and ?c = "drop (16 * Suc n) buf"
  have l: "length (take (16 * n) buf) = 16 * n" using Suc.prems by simp
  have lp: "length (cbc_prev iv buf n) = 16"
    using Suc.prems assms(2) by (cases n) (simp_all add: cbc_prev_def)
  have e: "16 * Suc n - 16 = 16 * n" by simp
  have 1: "put_at buf (16 * n) y = ?a @ y @ ?c" if "length y = 16" for y
    using that by (simp add: put_at_def add.commute)
  have 2: "slice (?a @ ?d @ ?c) (16 * n) 16 = ?d" using l by (simp add: slice_append)
  have pos: "xor_out ?d (if 16 * n = 0 then iv else slice (?a @ ?d @ ?c) (16 * n - 16) 16) 16 = ?x"
  proof (cases n)
    case 0
    then show ?thesis using assms(2) by (simp add: cbc_prev_def xor_into_eq)
  next
    case (Suc m)
    with \<open>16 * Suc n \<le> length buf\<close>
    have "slice (?a @ ?d @ ?c) (16 * n - 16) 16 = slice buf (16 * m) 16"
      by (simp add: slice_def drop_take)
    with Suc \<open>16 * Suc n \<le> length buf\<close> show ?thesis by (simp add: cbc_prev_def xor_into_eq)
  qed
  have 3: "put_at (?a @ ?d @ ?c) (16 * n) ?x = ?a @ ?x @ ?c"
    using l lp by (intro put_at_append) simp_all
  have "cbc_decrypt_inplace (dec k) iv buf (16 * Suc n) = cbc_decrypt_inplace (dec k) iv (?a @ ?x @ ?c) (16 * n)"
    by (subst cbc_decrypt_inplace.simps) (simp only: e Let_def 1 [OF length_dec] 2 pos 3, simp)
  also have "\<dots> = cbc_decrypt_loop (dec k) iv ?a (16 * n) @ ?x @ ?c"
    using Suc.IH [of "?a @ ?x @ ?c"] l cbc_decrypt_prefix [of n ?a iv k "?x @ ?c"] assms(2) by simp
  also have "cbc_decrypt_loop (dec k) iv ?a (16 * n) = cbc_decrypt_loop (dec k) iv buf (16 * n)"
    using l cbc_decrypt_prefix [of n ?a iv k "drop (16 * n) buf"] assms(2) by simp
  finally show ?case
    using Suc.prems assms(2) cbc_decrypt_loop_Suc [of "dec k" buf n iv] by simp
qed

end

lemma take_xor_bytes: "take n (xor_bytes a b) = xor_bytes (take n a) (take n b)"
  by (simp add: xor_bytes_def take_map take_zip)

lemma xor_bytes_take_left: "length b \<le> n \<Longrightarrow> xor_bytes (take n a) b = xor_bytes a b"
  using take_xor_bytes [of n a b] by simp

lemma xctr_loop_length:
  assumes "\<And>b. length (f b) = 16"
  shows "length (xctr_loop f iv i src) = length src"
proof (induction src arbitrary: i rule: length_induct)
  case (1 src)
  show ?case
  proof (cases "src = []")
    case False
    then show ?thesis
      using 1 assms by (subst xctr_loop.simps) (simp add: Let_def xor_into_eq)
  qed simp
qed

lemma xctr_loop_step:
  assumes "\<And>b. length (f b) = 16" and "src \<noteq> []"
  shows "xctr_loop f iv i src =
    xor_bytes (f (put_unaligned_le64 (get_unaligned_le64 iv XOR of_nat (i div 16 + 1)) @ slice iv 8 8)) (take 16 src)
    @ xctr_loop f iv (i + 16) (drop 16 src)"
proof -
  have "xor_bytes a (take 16 src) = xor_bytes (take (min 16 (length src)) a) (take (min 16 (length src)) src)" for a
    using xor_bytes_take_left [of "take 16 src" "min 16 (length src)" a]
    by (cases "length src \<le> 16") (simp_all add: min_def)
  then show ?thesis
    using assms by (subst xctr_loop.simps) (simp add: Let_def xor_into_eq)
qed

lemma xctr_loop_involution:
  assumes "\<And>b. length (f b) = 16"
  shows "xctr_loop f iv i (xctr_loop f iv i src) = src"
proof (induction src arbitrary: i rule: length_induct)
  case (1 src i)
  show ?case
  proof (cases "src = []")
    case False
    let ?ks = "f (put_unaligned_le64 (get_unaligned_le64 iv XOR of_nat (i div 16 + 1)) @ slice iv 8 8)"
    let ?x = "xor_bytes ?ks (take 16 src)" and ?r = "xctr_loop f iv (i + 16) (drop 16 src)"
    have r: "xctr_loop f iv (i + 16) ?r = drop 16 src" using 1 False by simp
    have t: "take 16 (?x @ ?r) = ?x" and d: "drop 16 (?x @ ?r) = ?r"
      using assms xctr_loop_length [of f iv "i + 16" "drop 16 src", OF assms]
      by (cases "length src \<le> 16"; simp add: min_def)+
    have x: "xor_bytes ?ks ?x = take 16 src"
      using assms by (simp add: xor_bytes_cancel2)
    have ne: "?x @ ?r \<noteq> []"
      using False assms by (metis append_is_Nil_conv length_0_conv length_xor_bytes length_take min_def zero_neq_numeral)
    have "xctr_loop f iv i (?x @ ?r) = take 16 src @ xctr_loop f iv (i + 16) ?r"
      by (subst xctr_loop_step [OF assms ne]) (simp only: t d x)
    then show ?thesis
      using r by (simp only: xctr_loop_step [of f src iv i, OF assms False] append_take_drop_id)
  qed simp
qed

section \<open>The ciphers built on AES\<close>

lemma AES_sizes [simp]: "AES_BLOCK_SIZE = 16" "AES_128_KEY_SIZE = 16" "AES_256_KEY_SIZE = 32"
  by (simp_all add: AES_BLOCK_SIZE_def AES_128_KEY_SIZE_def AES_256_KEY_SIZE_def)

lemma aes_256_setkey_ok: "32 \<le> length key \<Longrightarrow> \<exists>k. aes_setkey key 32 = Inr k"
  and aes_128_setkey_ok: "16 \<le> length key \<Longrightarrow> \<exists>k. aes_setkey key 16 = Inr k"
  using aes_setkey_Inr_iff by auto

lemma aes_cbc_encrypt_ok:
  "length src mod 16 = 0 \<Longrightarrow> aes_cbc_encrypt k iv src = Inr (cbc_encrypt_loop (aes_encrypt k) iv src)"
  by (simp add: aes_cbc_encrypt_def)

lemma aes_cbc_decrypt_ok:
  "length src mod 16 = 0 \<Longrightarrow> aes_cbc_decrypt k iv src = Inr (cbc_decrypt_loop (aes_decrypt k) iv src (length src))"
  by (simp add: aes_cbc_decrypt_def)

lemma aes_256_xts_ok:
  assumes "length src mod 16 = 0"
  shows "\<exists>dst. aes_256_xts_encrypt key iv src = Inr dst \<and> length dst = length src \<and>
    aes_256_xts_decrypt key iv dst = Inr src"
proof -
  obtain ck tk where "aes_setkey key 32 = Inr ck" "aes_setkey (drop 32 key) 32 = Inr tk"
    using aes_setkey_Inr_iff by fastforce
  then show ?thesis
    using assms by (simp add: aes_256_xts_encrypt_def aes_256_xts_decrypt_def aes_256_xts_crypt_def
        Let_def aes_cipher.xts_roundtrip)
qed

lemma blocks_cases: "length a mod 16 = 0 \<Longrightarrow> a = [] \<or> 16 \<le> length a"
  by (cases "length a < 16") auto

lemma split_last_blocks:
  assumes "16 < length src"
  obtains a p l where "src = a @ p @ l" "length a mod 16 = 0" "length p = 16" "0 < length l" "length l \<le> 16"
    "ROUND_DOWN (length src - 1) 16 = length a + 16"
proof -
  define m where "m = (length src - 1) div 16"
  have r: "ROUND_DOWN (length src - 1) 16 = 16 * m"
    using ROUND_DOWN_pow2 [of "length src - 1" 4] by (simp add: m_def)
  have m: "1 \<le> m" "16 * m < length src" "length src \<le> 16 * m + 16"
    using assms by (auto simp: m_def)
  then obtain n where n: "m = Suc n" by (cases m) auto
  have "src = take (16 * n) src @ slice src (16 * n) 16 @ drop (16 * m) src"
    by (simp add: n slice_def add.commute flip: drop_drop)
  then show ?thesis
    using m r n by (intro that [of "take (16 * n) src" "slice src (16 * n) 16" "drop (16 * m) src"]) simp_all
qed

text \<open>The three pieces of a CTS ciphertext: the chained blocks, the swapped full block, the truncated one.\<close>

lemma aes_cts_cbc_encrypt_form:
  assumes "aes_setkey key keysize = Inr k" and "16 \<le> length iv"
    and "length a mod 16 = 0" and "length p = 16" and "0 < length l" and "length l \<le> 16"
    and "ROUND_DOWN (length (a @ p @ l) - 1) 16 = length a + 16"
    and "ca = cbc_encrypt_loop (aes_encrypt k) iv a"
    and "cp = aes_encrypt k (xor_bytes p (take 16 (if a = [] then iv else drop (length a - 16) ca)))"
  shows "aes_cts_cbc_encrypt key keysize iv (a @ p @ l) =
    Inr (ca @ aes_encrypt k (xor_bytes (take (length l) cp) l @ drop (length l) cp) @ take (length l) cp)"
proof -
  have lc: "length ca = length a" "length cp = 16"
    using assms(2,3,8,9) by (simp_all add: aes_cipher.cbc_encrypt_length)
  have e: "aes_cbc_encrypt k iv (a @ p) = Inr (ca @ cp)"
    using assms(2,3,4,8,9) by (simp add: aes_cbc_encrypt_ok aes_cipher.cbc_encrypt_append)
  show ?thesis
    using assms(1,4-7) lc e
    by (simp add: aes_cts_cbc_encrypt_def Let_def slice_def xor_into_eq)
qed

lemma aes_cts_cbc_decrypt_form:
  assumes "aes_setkey key keysize = Inr k" and "16 \<le> length iv"
    and "length ca mod 16 = 0" and "length c = 16" and "0 < length t" and "length t \<le> 16"
    and "pad = aes_decrypt k c" and "final = xor_bytes t (take (length t) pad)"
  shows "aes_cts_cbc_decrypt key keysize iv (ca @ c @ t) =
    Inr (cbc_decrypt_loop (aes_decrypt k) iv ca (length ca) @
         xor_bytes (aes_decrypt k (xor_bytes (take (length t) pad) final @ drop (length t) pad))
           (take 16 (if ca = [] then iv else drop (length ca - 16) ca)) @ final)"
proof -
  have rd: "ROUND_DOWN (length (ca @ c @ t) - 1) 16 = length ca + 16"
  proof -
    obtain n where "length ca = 16 * n" using assms(3) by auto
    then have "length (ca @ c @ t) - 1 = 16 * Suc n + (length t - 1)" using assms(4,5) by simp
    moreover have "(16 * Suc n + (length t - 1)) div 16 = Suc n" using assms(5,6) by simp
    ultimately show ?thesis
      using ROUND_DOWN_pow2 [of "length (ca @ c @ t) - 1" 4] \<open>length ca = 16 * n\<close> by simp
  qed
  have lpad: "length pad = 16" using assms(7) by simp
  define pad2 where "pad2 = xor_bytes (take (length t) pad) final @ drop (length t) pad"
  have "length pad2 = 16" using assms(6,8) lpad by (simp add: pad2_def)
  then have "cbc_decrypt_loop (aes_decrypt k) (if ca = [] then iv else drop (length ca - 16) (ca @ c @ t)) pad2 16 =
      xor_bytes (aes_decrypt k pad2) (take 16 (if ca = [] then iv else drop (length ca - 16) ca))"
    using assms(2) blocks_cases [OF assms(3)] by (auto simp: aes_cipher.cbc_decrypt_single)
  moreover have "xor_into pad pad final (length t) = pad2"
    using assms(6,8) lpad by (simp add: pad2_def xor_into_eq)
  moreover have "xor_out t pad (length t) = final"
    using assms(6,8) lpad by (simp add: xor_into_eq)
  moreover have "length (ca @ c @ t) - (length ca + 16) = length t" using assms(4) by simp
  ultimately show ?thesis
    unfolding pad2_def [symmetric]
    using assms(1,3-5,7) rd \<open>length pad2 = 16\<close>
    by (cases "ca = []"; simp add: aes_cts_cbc_decrypt_def Let_def slice_def aes_cbc_decrypt_ok)
qed

lemma aes_cts_cbc_ok:
  assumes "aes_setkey key keysize = Inr k" and "16 \<le> length iv" and "16 \<le> length src"
  shows "\<exists>dst. aes_cts_cbc_encrypt key keysize iv src = Inr dst \<and> length dst = length src \<and>
    aes_cts_cbc_decrypt key keysize iv dst = Inr src"
proof (cases "length src = 16")
  case True
  then show ?thesis
    using assms aes_cipher.cbc_roundtrip [of src iv k] aes_cipher.cbc_encrypt_length [of src iv k]
    by (simp add: aes_cts_cbc_encrypt_def aes_cts_cbc_decrypt_def aes_cbc_encrypt_ok aes_cbc_decrypt_ok)
next
  case False
  then have "16 < length src" using assms(3) by simp
  then obtain a p l where src: "src = a @ p @ l" and la: "length a mod 16 = 0" and lp: "length p = 16"
    and ll: "0 < length l" "length l \<le> 16" and rd: "ROUND_DOWN (length src - 1) 16 = length a + 16"
    by (rule split_last_blocks)
  define ca where "ca = cbc_encrypt_loop (aes_encrypt k) iv a"
  define prev where "prev = take 16 (if a = [] then iv else drop (length a - 16) ca)"
  define cp where "cp = aes_encrypt k (xor_bytes p prev)"
  define buf where "buf = xor_bytes (take (length l) cp) l @ drop (length l) cp"
  have lc: "length ca = length a" "length cp = 16"
    using assms(2) la by (simp_all add: ca_def cp_def aes_cipher.cbc_encrypt_length)
  have lprev: "length prev = 16"
    using assms(2) lc blocks_cases [OF la] by (auto simp: prev_def)
  have enc: "aes_cts_cbc_encrypt key keysize iv src = Inr (ca @ aes_encrypt k buf @ take (length l) cp)"
    unfolding src using assms(1,2) la lp ll rd
    by (simp add: aes_cts_cbc_encrypt_form [OF _ _ _ _ _ _ _ ca_def] src buf_def cp_def prev_def)
  have "aes_cts_cbc_decrypt key keysize iv (ca @ aes_encrypt k buf @ take (length l) cp) = Inr src"
  proof -
    have lt: "length (take (length l) cp) = length l" using ll lc by simp
    have buf: "aes_decrypt k (aes_encrypt k buf) = buf"
      using ll lc by (intro aes_decrypt_encrypt) (simp add: buf_def)
    have tb: "take (length l) buf = xor_bytes (take (length l) cp) l" and "drop (length l) buf = drop (length l) cp"
      using ll lc by (simp_all add: buf_def)
    moreover have "xor_bytes (take (length l) cp) (take (length l) buf) = l"
      using lt by (simp add: tb xor_bytes_cancel2)
    moreover have "xor_bytes (take (length l) buf) l = take (length l) cp"
      using lt by (simp add: tb xor_bytes_cancel)
    moreover have "xor_bytes (aes_decrypt k cp) prev = p"
      using lp lprev by (simp add: cp_def aes_decrypt_encrypt xor_bytes_cancel)
    moreover have "ca = [] \<longleftrightarrow> a = []" using lc(1) by auto
    moreover have "cbc_decrypt_loop (aes_decrypt k) iv ca (length a) = a"
      using aes_cipher.cbc_roundtrip [OF la assms(2)] by (simp add: ca_def)
    ultimately show ?thesis
      using assms(1,2) la ll lc lt buf
      by (subst aes_cts_cbc_decrypt_form [OF assms(1,2) _ _ _ _ refl refl]; cases "a = []") (simp_all add: src prev_def)
  qed
  then show ?thesis using enc lc ll lp src by simp
qed

text \<open>The salt of ESSIV is a block, whatever the key.\<close>

lemma essiv_generate_iv_ok: "\<exists>iv'. essiv_generate_iv key iv = Inr iv' \<and> length iv' = 16"
  using aes_setkey_Inr_iff [of "sha256 (take 16 key)" 32] by (auto simp: essiv_generate_iv_def Let_def)

lemma aes_128_cbc_essiv_ok:
  assumes "length src mod 16 = 0"
  shows "\<exists>dst. aes_128_cbc_essiv_encrypt key iv src = Inr dst \<and> length dst = length src \<and>
    aes_128_cbc_essiv_decrypt key iv dst = Inr src"
proof -
  obtain k where "aes_setkey key 16 = Inr k" using aes_setkey_Inr_iff by fastforce
  moreover obtain iv' where "essiv_generate_iv key iv = Inr iv'" "length iv' = 16"
    using essiv_generate_iv_ok by blast
  ultimately show ?thesis
    using assms aes_cipher.cbc_roundtrip [of src iv' k] aes_cipher.cbc_encrypt_length [of src iv' k]
    by (simp add: aes_128_cbc_essiv_encrypt_def aes_128_cbc_essiv_decrypt_def aes_cbc_encrypt_ok aes_cbc_decrypt_ok)
qed

lemma aes_256_xctr_ok:
  "\<exists>dst. aes_256_xctr_crypt key iv src = Inr dst \<and> length dst = length src \<and> aes_256_xctr_crypt key iv dst = Inr src"
proof -
  obtain k where "aes_setkey key 32 = Inr k" using aes_setkey_Inr_iff by fastforce
  then show ?thesis
    by (simp add: aes_256_xctr_crypt_def xctr_loop_length xctr_loop_involution)
qed

lemma polyval_update_ok:
  "length msg mod 16 = 0 \<Longrightarrow> \<exists>d. polyval_update key msg acc = Inr d \<and> length d = 16"
  by (simp add: polyval_update_def Let_def bytes_of_le128_def)

lemma hctr2_hash_iv_ok:
  assumes "length iv = 32"
  shows "\<exists>d. hctr2_hash_iv hbar iv n = Inr d \<and> length d = 16"
  using assms by (simp add: hctr2_hash_iv_def Let_def HCTR2_IV_SIZE_def polyval_update_def bytes_of_le128_def)

lemma hctr2_hash_message_ok: "\<exists>d. hctr2_hash_message hbar msg digest = Inr d \<and> length d = 16"
proof -
  let ?r = "length msg mod 16"
  have "length (take (length msg - ?r) msg) mod 16 = 0"
    by (simp add: minus_mod_eq_mult_div)
  from polyval_update_ok [OF this, of hbar digest]
  obtain d where d: "polyval_update hbar (take (length msg - ?r) msg) digest = Inr d" "length d = 16"
    by blast
  have "length ((put_at (replicate 16 0) 0 (drop (length msg - ?r) msg))[?r := (1 :: u8)]) = 16"
    by simp
  then show ?thesis
    using d polyval_update_ok by (simp add: hctr2_hash_message_def Let_def)
qed

lemma hctr2_hash_total:
  assumes "length iv = 32"
  shows "\<exists>h. (\<forall>msg (f :: bytes \<Rightarrow> 'a result).
      bindr (hctr2_hash_iv hbar iv n) (\<lambda>d. bindr (hctr2_hash_message hbar msg d) f) = f (h msg)) \<and>
    (\<forall>msg. length (h msg) = 16)"
proof -
  obtain d where d: "hctr2_hash_iv hbar iv n = Inr d" using hctr2_hash_iv_ok [OF assms] by blast
  have "\<forall>msg. \<exists>e. hctr2_hash_message hbar msg d = Inr e \<and> length e = 16"
    using hctr2_hash_message_ok by blast
  then obtain h where "\<And>msg. hctr2_hash_message hbar msg d = Inr (h msg)" "\<And>msg. length (h msg) = 16"
    by metis
  then show ?thesis using d by (intro exI [of _ h]) simp
qed

lemma aes_256_hctr2_crypt_form:
  assumes "aes_setkey key 32 = Inr k" and "length iv = 32"
  shows "\<exists>h. (\<forall>src decrypting. 16 \<le> length src \<longrightarrow> length src = n \<longrightarrow>
     aes_256_hctr2_crypt key iv src decrypting =
       (let MM = xor_bytes (take 16 src) (h (drop 16 src));
            UU = (if decrypting then aes_decrypt k MM else aes_encrypt k MM);
            V = xctr_loop (aes_encrypt k) (xor_bytes (aes_encrypt k (1 # replicate 15 0)) (xor_bytes MM UU)) 0
                  (drop 16 src)
        in Inr (xor_bytes UU (h V) @ V))) \<and> (\<forall>msg. length (h msg) = 16)"
proof -
  obtain h where h: "\<And>msg f. bindr (hctr2_hash_iv (aes_encrypt k (replicate 16 0)) iv (n - 16))
        (\<lambda>d. bindr (hctr2_hash_message (aes_encrypt k (replicate 16 0)) msg d) f) = (f (h msg) :: bytes result)"
    and lh: "\<And>msg. length (h msg) = 16"
    using hctr2_hash_total [OF assms(2), of "aes_encrypt k (replicate 16 0)" "n - 16"] by metis
  have "aes_256_hctr2_crypt key iv src decrypting =
       (let MM = xor_bytes (take 16 src) (h (drop 16 src));
            UU = (if decrypting then aes_decrypt k MM else aes_encrypt k MM);
            V = xctr_loop (aes_encrypt k) (xor_bytes (aes_encrypt k (1 # replicate 15 0)) (xor_bytes MM UU)) 0
                  (drop 16 src)
        in Inr (xor_bytes UU (h V) @ V))" if "16 \<le> length src" "length src = n" for src decrypting
    using that assms(1) lh
    by (simp add: aes_256_hctr2_crypt_def aes_256_xctr_crypt_def Let_def h xor_into_eq)
  then show ?thesis using lh by blast
qed

lemma aes_256_hctr2_ok:
  assumes "length iv = 32" and "16 \<le> length src"
  shows "\<exists>dst. aes_256_hctr2_encrypt key iv src = Inr dst \<and> length dst = length src \<and>
    aes_256_hctr2_decrypt key iv dst = Inr src"
proof -
  obtain k where k: "aes_setkey key 32 = Inr k" using aes_setkey_Inr_iff by fastforce
  obtain h where form: "\<And>src' decrypting. 16 \<le> length src' \<Longrightarrow> length src' = length src \<Longrightarrow>
     aes_256_hctr2_crypt key iv src' decrypting =
       (let MM = xor_bytes (take 16 src') (h (drop 16 src'));
            UU = (if decrypting then aes_decrypt k MM else aes_encrypt k MM);
            V = xctr_loop (aes_encrypt k) (xor_bytes (aes_encrypt k (1 # replicate 15 0)) (xor_bytes MM UU)) 0
                  (drop 16 src')
        in Inr (xor_bytes UU (h V) @ V))" and lh: "\<And>msg. length (h msg) = 16"
    using aes_256_hctr2_crypt_form [OF k assms(1), of "length src"] by blast
  define MM where "MM = xor_bytes (take 16 src) (h (drop 16 src))"
  define S where "S = xor_bytes (aes_encrypt k (1 # replicate 15 0)) (xor_bytes MM (aes_encrypt k MM))"
  define V where "V = xctr_loop (aes_encrypt k) S 0 (drop 16 src)"
  define U where "U = xor_bytes (aes_encrypt k MM) (h V)"
  have l: "length MM = 16" "length U = 16" "length V = length src - 16"
    using assms(2) lh by (simp_all add: MM_def U_def V_def xctr_loop_length)
  have "aes_256_hctr2_encrypt key iv src = Inr (U @ V)"
    using form [of src False] assms(2)
    by (simp add: aes_256_hctr2_encrypt_def Let_def U_def V_def S_def MM_def)
  moreover have "xor_bytes U (h V) = aes_encrypt k MM" using lh by (simp add: U_def xor_bytes_cancel)
  moreover have "aes_decrypt k (aes_encrypt k MM) = MM" using l by (simp add: aes_decrypt_encrypt)
  moreover have "xctr_loop (aes_encrypt k) S 0 V = drop 16 src" by (simp add: V_def xctr_loop_involution)
  moreover have "xor_bytes MM (h (drop 16 src)) = take 16 src" using lh by (simp add: MM_def xor_bytes_cancel)
  ultimately show ?thesis
    using l assms(2) form [of "U @ V" True]
    by (simp add: aes_256_hctr2_decrypt_def Let_def S_def xor_bytes_commute [of "aes_encrypt k MM" MM])
qed

section \<open>Every AES based entry of the cipher table is a sector cipher\<close>

lemma aes_cts_cbc_sector:
  assumes "keysize \<in> {16, 24, 32}" and "length iv = 32" and "16 \<le> length src"
  shows "\<exists>dst. aes_cts_cbc_encrypt key keysize iv src = Inr dst \<and> length dst = length src \<and>
    aes_cts_cbc_decrypt key keysize iv dst = Inr src"
proof -
  obtain k where "aes_setkey key keysize = Inr k" using assms(1) aes_setkey_Inr_iff by blast
  then show ?thesis using assms aes_cts_cbc_ok by auto
qed

interpretation xts: sector_cipher aes_256_xts_encrypt aes_256_xts_decrypt
  "\<lambda>key. length key = 64" "\<lambda>n. n mod 16 = 0"
  by (rule sector_cipherI) (rule aes_256_xts_ok)

interpretation cts256: sector_cipher aes_256_cts_cbc_encrypt aes_256_cts_cbc_decrypt
  "\<lambda>key. length key = 32" "\<lambda>n. 16 \<le> n"
  by (rule sector_cipherI)
    (auto simp: aes_256_cts_cbc_encrypt_def aes_256_cts_cbc_decrypt_def intro: aes_cts_cbc_sector)

interpretation cts128: sector_cipher aes_128_cts_cbc_encrypt aes_128_cts_cbc_decrypt
  "\<lambda>key. length key = 16" "\<lambda>n. 16 \<le> n"
  by (rule sector_cipherI)
    (auto simp: aes_128_cts_cbc_encrypt_def aes_128_cts_cbc_decrypt_def intro: aes_cts_cbc_sector)

interpretation essiv: sector_cipher aes_128_cbc_essiv_encrypt aes_128_cbc_essiv_decrypt
  "\<lambda>key. length key = 16" "\<lambda>n. n mod 16 = 0"
  by (rule sector_cipherI) (rule aes_128_cbc_essiv_ok)

interpretation hctr2: sector_cipher aes_256_hctr2_encrypt aes_256_hctr2_decrypt
  "\<lambda>key. length key = 32" "\<lambda>n. 16 \<le> n"
  by (rule sector_cipherI) (rule aes_256_hctr2_ok)

section \<open>Properties\<close>

text \<open>
  C24. XTS: for every key, IV and every sequence of whole blocks the encryption succeeds, keeps the
  length, and decryption under the same key and IV returns the plaintext.
\<close>

theorem xts_decrypts_to_plaintext:
  assumes "length src mod 16 = 0"
  shows "\<exists>dst. aes_256_xts_encrypt key iv src = Inr dst \<and> length dst = length src \<and>
    aes_256_xts_decrypt key iv dst = Inr src"
  using assms by (rule aes_256_xts_ok)

theorem xts_decrypts_to_plaintext_witness:
  "\<exists>dst. aes_256_xts_encrypt (replicate 64 7) (replicate 32 1) (replicate 32 9) = Inr dst \<and> length dst = 32 \<and>
    aes_256_xts_decrypt (replicate 64 7) (replicate 32 1) dst = Inr (replicate 32 9)"
  using xts_decrypts_to_plaintext [of "replicate 32 9" "replicate 64 7" "replicate 32 1"] by simp

text \<open>
  C23. CBC with ciphertext stealing, for the three AES key sizes: every message of at least one block is
  encrypted to a message of the same length (no padding) and decrypted to itself.
\<close>

theorem cts_decrypts_to_plaintext:
  assumes "keysize \<in> {16, 24, 32}" and "length iv = 32" and "16 \<le> length src"
  shows "\<exists>dst. aes_cts_cbc_encrypt key keysize iv src = Inr dst \<and> length dst = length src \<and>
    aes_cts_cbc_decrypt key keysize iv dst = Inr src"
  using assms by (rule aes_cts_cbc_sector)

theorem cts_decrypts_to_plaintext_witness:
  "\<exists>dst. aes_cts_cbc_encrypt (replicate 32 7) 32 (replicate 32 1) (replicate 37 9) = Inr dst \<and> length dst = 37 \<and>
    aes_cts_cbc_decrypt (replicate 32 7) 32 (replicate 32 1) dst = Inr (replicate 37 9)"
  using cts_decrypts_to_plaintext [of 32 "replicate 32 1" "replicate 37 9" "replicate 32 7"] by simp

text \<open>
  C22. HCTR2: every message of at least one block keeps its length under encryption and is returned by
  decryption.
\<close>

theorem hctr2_decrypts_to_plaintext:
  assumes "length iv = 32" and "16 \<le> length src"
  shows "\<exists>dst. aes_256_hctr2_encrypt key iv src = Inr dst \<and> length dst = length src \<and>
    aes_256_hctr2_decrypt key iv dst = Inr src"
  using assms by (rule aes_256_hctr2_ok)

theorem hctr2_decrypts_to_plaintext_witness:
  "\<exists>dst. aes_256_hctr2_encrypt (replicate 32 7) (replicate 32 1) (replicate 37 9) = Inr dst \<and> length dst = 37 \<and>
    aes_256_hctr2_decrypt (replicate 32 7) (replicate 32 1) dst = Inr (replicate 37 9)"
  using hctr2_decrypts_to_plaintext [of "replicate 32 1" "replicate 37 9" "replicate 32 7"] by simp

text \<open>
  C25. CBC decryption may run in place: it goes through the blocks from the last to the first, so on a
  shared source and destination buffer every previous ciphertext block is still there when it
  is needed, and the buffer ends with the result of the out of place run.
\<close>

theorem cbc_decrypt_in_place:
  assumes "16 * n \<le> length buf" and "16 \<le> length iv"
  shows "cbc_decrypt_inplace (aes_decrypt k) iv buf (16 * n) =
    cbc_decrypt_loop (aes_decrypt k) iv buf (16 * n) @ drop (16 * n) buf"
  using assms by (rule aes_cipher.cbc_decrypt_inplace_eq)

theorem cbc_decrypt_in_place_witness:
  "cbc_decrypt_inplace (aes_decrypt \<lparr>round_keys = replicate 44 3, nrounds = 10\<rparr>) (replicate 16 1) (replicate 50 9) 32 =
    cbc_decrypt_loop (aes_decrypt \<lparr>round_keys = replicate 44 3, nrounds = 10\<rparr>) (replicate 16 1) (replicate 50 9) 32 @ replicate 18 9"
  using cbc_decrypt_in_place [of 2 "replicate 50 9" "replicate 16 1" "\<lparr>round_keys = replicate 44 3, nrounds = 10\<rparr>"] by simp

end
