(* ===== verification/Poly1305.thy ===== *)
theory Poly1305
  imports GF
begin

text \<open>
  The Poly1305 hash of \<open>src/src/fscrypt-crypt-util.c\<close> at the widths the source computes with:
  the five limbs \<open>h_0\<close> to \<open>h_4\<close> are 32-bit words, the key limbs and the products 64-bit ones.
  The theory shows that no limb operation overflows and that the result is the value of the
  polynomial in the clamped key modulo 2^130 - 5, reduced modulo 2^128.
\<close>

section \<open>Poly1305\<close>

definition limb_mask :: u32 where "limb_mask = 0x3ffffff"

record poly1305_key =
  r_0 :: u64
  r_1 :: u64
  r_2 :: u64
  r_3 :: u64
  r_4 :: u64

definition poly1305_clamp :: "bytes \<Rightarrow> poly1305_key" where
  "poly1305_clamp key =
     \<lparr>r_0 = ucast (get_unaligned_le32 key AND 0x3ffffff),
      r_1 = ucast (drop_bit 2 (get_unaligned_le32 (drop 3 key)) AND 0x3ffff03),
      r_2 = ucast (drop_bit 4 (get_unaligned_le32 (drop 6 key)) AND 0x3ffc0ff),
      r_3 = ucast (drop_bit 6 (get_unaligned_le32 (drop 9 key)) AND 0x3f03fff),
      r_4 = ucast (drop_bit 8 (get_unaligned_le32 (drop 12 key)) AND 0x00fffff)\<rparr>"

record poly1305_acc =
  h_0 :: u32
  h_1 :: u32
  h_2 :: u32
  h_3 :: u32
  h_4 :: u32

definition poly1305_add_block :: "bytes \<Rightarrow> poly1305_acc \<Rightarrow> poly1305_acc" where
  "poly1305_add_block msg h =
     \<lparr>h_0 = h_0 h + (get_unaligned_le32 msg AND limb_mask),
      h_1 = h_1 h + (drop_bit 2 (get_unaligned_le32 (drop 3 msg)) AND limb_mask),
      h_2 = h_2 h + (drop_bit 4 (get_unaligned_le32 (drop 6 msg)) AND limb_mask),
      h_3 = h_3 h + (drop_bit 6 (get_unaligned_le32 (drop 9 msg)) AND limb_mask),
      h_4 = h_4 h + (drop_bit 8 (get_unaligned_le32 (drop 12 msg)) OR push_bit 24 1)\<rparr>"

text \<open>
  One multiplication and the partial reduction.  The products by 5 are computed on 32 bits and
  widened when they meet a 64-bit key limb.
\<close>

definition poly1305_mul :: "poly1305_key \<Rightarrow> poly1305_acc \<Rightarrow> u64 \<times> u64 \<times> u64 \<times> u64 \<times> u64" where
  "poly1305_mul r h =
     (ucast (h_0 h) * r_0 r + ucast (h_1 h * 5) * r_4 r + ucast (h_2 h * 5) * r_3 r + ucast (h_3 h * 5) * r_2 r + ucast (h_4 h * 5) * r_1 r,
      ucast (h_0 h) * r_1 r + ucast (h_1 h) * r_0 r + ucast (h_2 h * 5) * r_4 r + ucast (h_3 h * 5) * r_3 r + ucast (h_4 h * 5) * r_2 r,
      ucast (h_0 h) * r_2 r + ucast (h_1 h) * r_1 r + ucast (h_2 h) * r_0 r + ucast (h_3 h * 5) * r_4 r + ucast (h_4 h * 5) * r_3 r,
      ucast (h_0 h) * r_3 r + ucast (h_1 h) * r_2 r + ucast (h_2 h) * r_1 r + ucast (h_3 h) * r_0 r + ucast (h_4 h * 5) * r_4 r,
      ucast (h_0 h) * r_4 r + ucast (h_1 h) * r_3 r + ucast (h_2 h) * r_2 r + ucast (h_3 h) * r_1 r + ucast (h_4 h) * r_0 r)"

definition poly1305_reduce :: "u64 \<times> u64 \<times> u64 \<times> u64 \<times> u64 \<Rightarrow> poly1305_acc" where
  "poly1305_reduce d =
     (case d of (d0, d1, d2, d3, d4) \<Rightarrow>
        let d1 = d1 + drop_bit 26 d0; a0 = ucast (d0 AND ucast limb_mask) :: u32;
            d2 = d2 + drop_bit 26 d1; a1 = ucast (d1 AND ucast limb_mask) :: u32;
            d3 = d3 + drop_bit 26 d2; a2 = ucast (d2 AND ucast limb_mask) :: u32;
            d4 = d4 + drop_bit 26 d3; a3 = ucast (d3 AND ucast limb_mask) :: u32;
            a0 = ucast (ucast a0 + drop_bit 26 d4 * 5) :: u32; a4 = ucast (d4 AND ucast limb_mask) :: u32;
            a1 = a1 + drop_bit 26 a0; a0 = a0 AND limb_mask
        in \<lparr>h_0 = a0, h_1 = a1, h_2 = a2, h_3 = a3, h_4 = a4\<rparr>)"

fun poly1305_loop :: "poly1305_key \<Rightarrow> bytes \<Rightarrow> poly1305_acc \<Rightarrow> poly1305_acc" where
  "poly1305_loop r msg h =
     (if msg = [] then h
      else poly1305_loop r (drop 16 msg) (poly1305_reduce (poly1305_mul r (poly1305_add_block msg h))))"

declare poly1305_loop.simps [simp del]

definition poly1305_carry :: "poly1305_acc \<Rightarrow> poly1305_acc" where
  "poly1305_carry h =
     (let a0 = h_0 h; a1 = h_1 h; a2 = h_2 h; a3 = h_3 h; a4 = h_4 h;
          a2 = a2 + drop_bit 26 a1; a1 = a1 AND limb_mask;
          a3 = a3 + drop_bit 26 a2; a2 = a2 AND limb_mask;
          a4 = a4 + drop_bit 26 a3; a3 = a3 AND limb_mask;
          a0 = a0 + drop_bit 26 a4 * 5; a4 = a4 AND limb_mask;
          a1 = a1 + drop_bit 26 a0; a0 = a0 AND limb_mask
      in \<lparr>h_0 = a0, h_1 = a1, h_2 = a2, h_3 = a3, h_4 = a4\<rparr>)"

definition poly1305_final_sub :: "poly1305_acc \<Rightarrow> poly1305_acc" where
  "poly1305_final_sub h =
     (let g0 = h_0 h + 5;
          g1 = h_1 h + drop_bit 26 g0; g0 = g0 AND limb_mask;
          g2 = h_2 h + drop_bit 26 g1; g1 = g1 AND limb_mask;
          g3 = h_3 h + drop_bit 26 g2; g2 = g2 AND limb_mask;
          g4 = h_4 h + drop_bit 26 g3; g3 = g3 AND limb_mask;
          ge_p_mask = NOT (drop_bit 26 g4 - 1)
      in \<lparr>h_0 = (h_0 h AND NOT ge_p_mask) OR (g0 AND ge_p_mask),
          h_1 = (h_1 h AND NOT ge_p_mask) OR (g1 AND ge_p_mask),
          h_2 = (h_2 h AND NOT ge_p_mask) OR (g2 AND ge_p_mask),
          h_3 = (h_3 h AND NOT ge_p_mask) OR (g3 AND ge_p_mask),
          h_4 = (h_4 h AND NOT ge_p_mask) OR (g4 AND ge_p_mask AND limb_mask)\<rparr>)"

definition poly1305_out :: "poly1305_acc \<Rightarrow> le128" where
  "poly1305_out h =
     \<lparr>le_lo = push_bit 52 (ucast (h_2 h)) OR push_bit 26 (ucast (h_1 h)) OR ucast (h_0 h),
      le_hi = push_bit 40 (ucast (h_4 h)) OR push_bit 14 (ucast (h_3 h)) OR ucast (drop_bit 12 (h_2 h))\<rparr>"

definition poly1305 :: "bytes \<Rightarrow> bytes \<Rightarrow> le128 result" where
  "poly1305 key msg =
     bindr (assertr (length msg mod 16 = 0) ''msglen % POLY1305_BLOCK_SIZE == 0'') (\<lambda>_.
       let h = poly1305_loop (poly1305_clamp key) msg \<lparr>h_0 = 0, h_1 = 0, h_2 = 0, h_3 = 0, h_4 = 0\<rparr>
       in Inr (poly1305_out (poly1305_final_sub (poly1305_carry h))))"

section \<open>What the limbs stand for\<close>

named_theorems limb_simps \<open>the numbers that limb expressions stand for\<close>

definition limbs_val :: "poly1305_acc \<Rightarrow> nat" where
  "limbs_val h = unat (h_0 h) + 2 ^ 26 * unat (h_1 h) + 2 ^ 52 * unat (h_2 h) + 2 ^ 78 * unat (h_3 h) + 2 ^ 104 * unat (h_4 h)"

definition limbs_ok :: "poly1305_acc \<Rightarrow> bool" where
  "limbs_ok h \<longleftrightarrow> unat (h_0 h) < 2 ^ 26 \<and> unat (h_1 h) < 2 ^ 26 + 2 ^ 6 \<and> unat (h_2 h) < 2 ^ 26 \<and>
     unat (h_3 h) < 2 ^ 26 \<and> unat (h_4 h) < 2 ^ 26"

definition key_val :: "poly1305_key \<Rightarrow> nat" where
  "key_val r = unat (r_0 r) + 2 ^ 26 * unat (r_1 r) + 2 ^ 52 * unat (r_2 r) + 2 ^ 78 * unat (r_3 r) + 2 ^ 104 * unat (r_4 r)"

definition poly1305_prime :: nat where "poly1305_prime = 2 ^ 130 - 5"

definition block_val :: "bytes \<Rightarrow> nat" where
  "block_val b = unat (word_of_le (take 16 b) :: 128 word)"

text \<open>Products whose factors fit, and those by five, have the value they are meant to have.\<close>

definition wide_ok :: "poly1305_acc \<Rightarrow> bool" where
  "wide_ok h \<longleftrightarrow> unat (h_0 h) < 2 ^ 27 + 2 ^ 6 \<and> unat (h_1 h) < 2 ^ 27 + 2 ^ 6 \<and> unat (h_2 h) < 2 ^ 27 + 2 ^ 6 \<and>
     unat (h_3 h) < 2 ^ 27 + 2 ^ 6 \<and> unat (h_4 h) < 2 ^ 27 + 2 ^ 6"

definition poly1305_key_ok :: "poly1305_key \<Rightarrow> bool" where
  "poly1305_key_ok r \<longleftrightarrow> unat (r_0 r) < 2 ^ 26 \<and> unat (r_1 r) < 2 ^ 26 \<and> unat (r_2 r) < 2 ^ 26 \<and> unat (r_3 r) < 2 ^ 26 \<and>
     unat (r_4 r) < 2 ^ 26"

definition limbs_canonical :: "poly1305_acc \<Rightarrow> bool" where
  "limbs_canonical h \<longleftrightarrow> unat (h_0 h) < 2 ^ 26 \<and> unat (h_1 h) < 2 ^ 26 \<and> unat (h_2 h) < 2 ^ 26 \<and>
     unat (h_3 h) < 2 ^ 26 \<and> unat (h_4 h) < 2 ^ 26"

text \<open>Poly1305 as the polynomial it evaluates.\<close>

definition poly1305_r :: "bytes \<Rightarrow> nat" where
  "poly1305_r key = block_val key AND 0x0ffffffc0ffffffc0ffffffc0fffffff"

fun poly1305_eval :: "nat \<Rightarrow> bytes \<Rightarrow> nat \<Rightarrow> nat" where
  "poly1305_eval r msg acc =
     (if msg = [] then acc
      else poly1305_eval r (drop 16 msg) ((acc + (block_val msg + 2 ^ 128)) * r mod poly1305_prime))"

declare poly1305_eval.simps [simp del]

section \<open>Limb arithmetic is exact\<close>

lemma unat_add_limb: "unat a + unat b < 2 ^ LENGTH('a) \<Longrightarrow> unat (a + b :: 'a::len word) = unat a + unat b"
  by (simp add: unat_word_ariths)

lemma unat_mult_limb: "unat a * unat b < 2 ^ LENGTH('a) \<Longrightarrow> unat (a * b :: 'a::len word) = unat a * unat b"
  by (simp add: unat_word_ariths)

lemma limb_mask_mask: "limb_mask = mask 26" and limb_mask64: "ucast limb_mask = (mask 26 :: u64)"
  by (simp_all add: limb_mask_def mask_eq_exp_minus_1)

lemma unat_limb_mask [limb_simps]: "unat (x AND limb_mask) = unat x mod 2 ^ 26"
  by (simp only: limb_mask_mask take_bit_eq_mask [symmetric] unsigned_take_bit_eq) (rule take_bit_eq_mod)

lemma unat_limb_mask64 [limb_simps]: "unat (x AND ucast limb_mask :: u64) = unat x mod 2 ^ 26"
  by (simp only: limb_mask64 take_bit_eq_mask [symmetric] unsigned_take_bit_eq) (rule take_bit_eq_mod)

lemma unat_drop_limb [limb_simps]: "unat (drop_bit n x) = unat x div 2 ^ n"
  by (simp only: unat_drop_bit_eq) (rule drop_bit_eq_div)

lemma unat_widen [limb_simps]: "unat (ucast (x :: u32) :: u64) = unat x"
  by (simp add: unsigned_ucast_eq take_bit_nat_eq_self_iff unsigned_less [THEN order_less_le_trans])

lemma unat_narrow [limb_simps]: "unat (ucast (x :: u64) :: u32) = unat x mod 2 ^ 32"
  by (simp add: unsigned_ucast_eq take_bit_eq_mod)

lemma unat_get_le32:
  assumes "k + 4 \<le> 16" and "16 \<le> length p"
  shows "unat (get_unaligned_le32 (drop k p)) = take_bit 32 (drop_bit (8 * k) (block_val p))"
proof (rule bit_eqI)
  fix n
  have "(8 * k + n) div 8 = k + n div 8" and "(8 * k + n) mod 8 = n mod 8" by simp_all
  moreover have "n div 8 < 4 \<longleftrightarrow> n < 32" by auto
  moreover have "8 * k + n < 128" if "n < 32" using that assms by simp
  moreover have "k + n div 8 < 16" if "n < 32" using that assms(1) by auto
  ultimately show "bit (unat (get_unaligned_le32 (drop k p))) n =
      bit (take_bit 32 (drop_bit (8 * k) (block_val p))) n"
    using assms
    by (auto simp: get_unaligned_le32_def block_val_def bit_unsigned_iff bit_word_of_le bit_take_bit_iff
        bit_drop_bit_eq)
qed

lemma horner_limbs:
  "X = a + 2 ^ 26 * x1 \<Longrightarrow> x1 = b + 2 ^ 26 * x2 \<Longrightarrow> x2 = c + 2 ^ 26 * x3 \<Longrightarrow> x3 = d + 2 ^ 26 * x4 \<Longrightarrow>
    X = a + 2 ^ 26 * b + 2 ^ 52 * c + 2 ^ 78 * d + 2 ^ 104 * (x4 :: nat)"
  by simp

lemma digits_130:
  "(X :: nat) = X mod 2 ^ 26 + 2 ^ 26 * (X div 2 ^ 26 mod 2 ^ 26) + 2 ^ 52 * (X div 2 ^ 52 mod 2 ^ 26) +
    2 ^ 78 * (X div 2 ^ 78 mod 2 ^ 26) + 2 ^ 104 * (X div 2 ^ 104)"
proof -
  define x1 x2 x3 x4 where "x1 = X div 2 ^ 26" and "x2 = x1 div 2 ^ 26" and "x3 = x2 div 2 ^ 26" and "x4 = x3 div 2 ^ 26"
  then have d: "X div 2 ^ 52 = x2" "X div 2 ^ 78 = x3" "X div 2 ^ 104 = x4"
    by (simp_all add: div_mult2_eq [symmetric])
  have "X = X mod 2 ^ 26 + 2 ^ 26 * x1" "x1 = x1 mod 2 ^ 26 + 2 ^ 26 * x2"
    "x2 = x2 mod 2 ^ 26 + 2 ^ 26 * x3" "x3 = x3 mod 2 ^ 26 + 2 ^ 26 * x4"
    by (simp_all add: x1_def x2_def x3_def x4_def)
  then show ?thesis unfolding x1_def [symmetric] d by (rule horner_limbs)
qed

lemma unat_word_limb:
  assumes "k + 4 \<le> 16" and "16 \<le> length p" and "s + 26 \<le> 32"
  shows "unat (drop_bit s (get_unaligned_le32 (drop k p)) AND limb_mask) = block_val p div 2 ^ (8 * k + s) mod 2 ^ 26"
proof -
  have "unat (drop_bit s (get_unaligned_le32 (drop k p)) AND limb_mask) =
      take_bit 26 (drop_bit s (take_bit 32 (drop_bit (8 * k) (block_val p))))"
    using assms(1,2)
    by (simp only: unat_limb_mask unat_drop_bit_eq unat_get_le32 take_bit_eq_mod [symmetric])
  also have "\<dots> = take_bit 26 (drop_bit (8 * k + s) (block_val p))"
  proof -
    have "min 26 (32 - s) = 26" using assms(3) by (simp add: min_def)
    then show ?thesis by (simp only: drop_bit_take_bit take_bit_take_bit drop_bit_drop_bit add.commute)
  qed
  finally show ?thesis by (simp only: take_bit_eq_mod drop_bit_eq_div)
qed

lemma block_val_bound: "block_val p < 2 ^ 128"
  unfolding block_val_def using unsigned_less [of "word_of_le (take 16 p) :: 128 word"] by simp

lemma unat_top_word:
  assumes "16 \<le> length p"
  shows "unat (drop_bit 8 (get_unaligned_le32 (drop 12 p))) = block_val p div 2 ^ 104"
proof -
  have "block_val p div 2 ^ 96 < 2 ^ 32" using block_val_bound [of p] by (simp add: div_less_iff_less_mult)
  then have "unat (drop_bit 8 (get_unaligned_le32 (drop 12 p))) = block_val p div 2 ^ 96 div 2 ^ 8"
    using assms unat_get_le32 [of 12 p]
    by (simp only: unat_drop_limb) (simp add: take_bit_eq_mod drop_bit_eq_div)
  then show ?thesis by (simp add: div_mult2_eq [symmetric])
qed

lemma unat_top_limb:
  assumes "16 \<le> length p"
  shows "unat (drop_bit 8 (get_unaligned_le32 (drop 12 p)) OR push_bit 24 1) = block_val p div 2 ^ 104 + 2 ^ 24"
proof -
  let ?w = "drop_bit 8 (get_unaligned_le32 (drop 12 p))"
  have "?w AND push_bit 24 1 = 0"
  proof (rule bit_word_eqI)
    fix n :: nat
    have "\<not> bit (get_unaligned_le32 (drop 12 p)) (8 + 24)" by (simp add: impossible_bit)
    then show "bit (?w AND push_bit 24 1) n = bit (0 :: u32) n"
      by (cases "n = 24") (simp_all only: push_bit_of_1 bit_and_iff bit_drop_bit_eq bit_exp_iff comp_apply, simp_all)
  qed
  then have "?w OR push_bit 24 1 = ?w + push_bit 24 1"
    by (simp add: disjunctive_add_eq_or)
  moreover have "block_val p div 2 ^ 104 < 2 ^ 24"
    using block_val_bound [of p] by (simp add: div_less_iff_less_mult)
  ultimately show ?thesis using unat_top_word [OF assms] by (simp add: unat_add_limb)
qed

lemma limbs_add_block:
  assumes "limbs_ok h" and "16 \<le> length msg"
  defines "g \<equiv> poly1305_add_block msg h"
  shows "limbs_val g = limbs_val h + (block_val msg + 2 ^ 128)"
    and "unat (h_0 g) < 2 ^ 27" and "unat (h_1 g) < 2 ^ 27 + 2 ^ 6" and "unat (h_2 g) < 2 ^ 27"
    and "unat (h_3 g) < 2 ^ 27" and "unat (h_4 g) < 2 ^ 26 + 2 ^ 25"
proof -
  let ?N = "block_val msg"
  define m0 where "m0 = get_unaligned_le32 msg AND limb_mask"
  define m1 where "m1 = drop_bit 2 (get_unaligned_le32 (drop 3 msg)) AND limb_mask"
  define m2 where "m2 = drop_bit 4 (get_unaligned_le32 (drop 6 msg)) AND limb_mask"
  define m3 where "m3 = drop_bit 6 (get_unaligned_le32 (drop 9 msg)) AND limb_mask"
  define m4 where "m4 = drop_bit 8 (get_unaligned_le32 (drop 12 msg)) OR push_bit 24 1"
  note m_defs = m0_def m1_def m2_def m3_def m4_def
  have m: "unat m0 = ?N mod 2 ^ 26" "unat m1 = ?N div 2 ^ 26 mod 2 ^ 26" "unat m2 = ?N div 2 ^ 52 mod 2 ^ 26"
    "unat m3 = ?N div 2 ^ 78 mod 2 ^ 26" "unat m4 = ?N div 2 ^ 104 + 2 ^ 24"
    using assms(2) unat_word_limb [of 0 msg 0] unat_word_limb [of 3 msg 2] unat_word_limb [of 6 msg 4]
      unat_word_limb [of 9 msg 6] unat_top_limb [of msg] by (simp_all add: m_defs)
  have b: "unat m0 < 2 ^ 26" "unat m1 < 2 ^ 26" "unat m2 < 2 ^ 26" "unat m3 < 2 ^ 26" "unat m4 < 2 ^ 25"
    using block_val_bound [of msg] by (simp_all add: m div_less_iff_less_mult)
  have N: "?N + 2 ^ 128 = unat m0 + 2 ^ 26 * unat m1 + 2 ^ 52 * unat m2 + 2 ^ 78 * unat m3 + 2 ^ 104 * unat m4"
    using digits_130 [of ?N] unfolding m by (simp add: algebra_simps)
  have g: "h_0 g = h_0 h + m0" "h_1 g = h_1 h + m1" "h_2 g = h_2 h + m2" "h_3 g = h_3 h + m3" "h_4 g = h_4 h + m4"
    by (simp_all add: g_def poly1305_add_block_def m_defs)
  have u: "unat (h_0 g) = unat (h_0 h) + unat m0" "unat (h_1 g) = unat (h_1 h) + unat m1"
    "unat (h_2 g) = unat (h_2 h) + unat m2" "unat (h_3 g) = unat (h_3 h) + unat m3"
    "unat (h_4 g) = unat (h_4 h) + unat m4"
    using assms(1) b by (simp_all add: g limbs_ok_def unat_add_limb)
  show "limbs_val g = limbs_val h + (?N + 2 ^ 128)"
    unfolding N limbs_val_def u by (simp add: algebra_simps)
  show "unat (h_0 g) < 2 ^ 27" and "unat (h_1 g) < 2 ^ 27 + 2 ^ 6" and "unat (h_2 g) < 2 ^ 27"
    and "unat (h_3 g) < 2 ^ 27" and "unat (h_4 g) < 2 ^ 26 + 2 ^ 25"
    using assms(1) b by (simp_all add: u limbs_ok_def)
qed

lemma unat_prod_limb:
  assumes "unat (a :: u32) < 2 ^ 30" and "unat (r :: u64) < 2 ^ 26"
  shows "unat (ucast a * r) = unat a * unat r" and "unat a * unat r < 2 ^ 56"
proof -
  have "unat a * unat r < 2 ^ 30 * 2 ^ 26"
    using assms by (intro mult_strict_mono) simp_all
  then show "unat a * unat r < 2 ^ 56" by simp
  then show "unat (ucast a * r) = unat a * unat r"
    by (simp add: unat_mult_limb unat_widen)
qed

lemma unat_times5: "unat (a :: u32) < 2 ^ 27 + 2 ^ 6 \<Longrightarrow> unat (a * 5) = unat a * 5"
  by (simp add: unat_mult_limb)

lemma dot5:
  assumes "unat (a0 :: u32) < 2 ^ 30" "unat (a1 :: u32) < 2 ^ 30" "unat (a2 :: u32) < 2 ^ 30" "unat (a3 :: u32) < 2 ^ 30"
    "unat (a4 :: u32) < 2 ^ 30"
    and "unat (b0 :: u64) < 2 ^ 26" "unat (b1 :: u64) < 2 ^ 26" "unat (b2 :: u64) < 2 ^ 26" "unat (b3 :: u64) < 2 ^ 26"
    "unat (b4 :: u64) < 2 ^ 26"
  shows "unat (ucast a0 * b0 + ucast a1 * b1 + ucast a2 * b2 + ucast a3 * b3 + ucast a4 * b4) =
      unat a0 * unat b0 + unat a1 * unat b1 + unat a2 * unat b2 + unat a3 * unat b3 + unat a4 * unat b4"
    and "unat a0 * unat b0 + unat a1 * unat b1 + unat a2 * unat b2 + unat a3 * unat b3 + unat a4 * unat b4 < 2 ^ 59"
  using unat_prod_limb [OF assms(1,6)] unat_prod_limb [OF assms(2,7)] unat_prod_limb [OF assms(3,8)]
    unat_prod_limb [OF assms(4,9)] unat_prod_limb [OF assms(5,10)]
  by (simp_all add: unat_add_limb)

lemma unat_poly1305_mul:
  assumes "wide_ok h" and "poly1305_key_ok r"
    and "poly1305_mul r h = (d0, d1, d2, d3, d4)"
  shows "unat d0 = unat (h_0 h) * unat (r_0 r) + 5 * (unat (h_1 h) * unat (r_4 r)) + 5 * (unat (h_2 h) * unat (r_3 r)) +
      5 * (unat (h_3 h) * unat (r_2 r)) + 5 * (unat (h_4 h) * unat (r_1 r))"
    and "unat d1 = unat (h_0 h) * unat (r_1 r) + unat (h_1 h) * unat (r_0 r) + 5 * (unat (h_2 h) * unat (r_4 r)) +
      5 * (unat (h_3 h) * unat (r_3 r)) + 5 * (unat (h_4 h) * unat (r_2 r))"
    and "unat d2 = unat (h_0 h) * unat (r_2 r) + unat (h_1 h) * unat (r_1 r) + unat (h_2 h) * unat (r_0 r) +
      5 * (unat (h_3 h) * unat (r_4 r)) + 5 * (unat (h_4 h) * unat (r_3 r))"
    and "unat d3 = unat (h_0 h) * unat (r_3 r) + unat (h_1 h) * unat (r_2 r) + unat (h_2 h) * unat (r_1 r) +
      unat (h_3 h) * unat (r_0 r) + 5 * (unat (h_4 h) * unat (r_4 r))"
    and "unat d4 = unat (h_0 h) * unat (r_4 r) + unat (h_1 h) * unat (r_3 r) + unat (h_2 h) * unat (r_2 r) +
      unat (h_3 h) * unat (r_1 r) + unat (h_4 h) * unat (r_0 r)"
    and "unat d0 < 2 ^ 59" and "unat d1 < 2 ^ 59" and "unat d2 < 2 ^ 59" and "unat d3 < 2 ^ 59"
proof -
  have d: "d0 = ucast (h_0 h) * r_0 r + ucast (h_1 h * 5) * r_4 r + ucast (h_2 h * 5) * r_3 r + ucast (h_3 h * 5) * r_2 r + ucast (h_4 h * 5) * r_1 r"
    "d1 = ucast (h_0 h) * r_1 r + ucast (h_1 h) * r_0 r + ucast (h_2 h * 5) * r_4 r + ucast (h_3 h * 5) * r_3 r + ucast (h_4 h * 5) * r_2 r"
    "d2 = ucast (h_0 h) * r_2 r + ucast (h_1 h) * r_1 r + ucast (h_2 h) * r_0 r + ucast (h_3 h * 5) * r_4 r + ucast (h_4 h * 5) * r_3 r"
    "d3 = ucast (h_0 h) * r_3 r + ucast (h_1 h) * r_2 r + ucast (h_2 h) * r_1 r + ucast (h_3 h) * r_0 r + ucast (h_4 h * 5) * r_4 r"
    "d4 = ucast (h_0 h) * r_4 r + ucast (h_1 h) * r_3 r + ucast (h_2 h) * r_2 r + ucast (h_3 h) * r_1 r + ucast (h_4 h) * r_0 r"
    using assms(3) by (simp_all add: poly1305_mul_def)
  have w: "unat (h_0 h) < 2 ^ 30" "unat (h_1 h) < 2 ^ 30" "unat (h_2 h) < 2 ^ 30"
     "unat (h_3 h) < 2 ^ 30" "unat (h_4 h) < 2 ^ 30"
    and k: "unat (r_0 r) < 2 ^ 26" "unat (r_1 r) < 2 ^ 26" "unat (r_2 r) < 2 ^ 26" "unat (r_3 r) < 2 ^ 26"
     "unat (r_4 r) < 2 ^ 26"
    and v: "unat (h_1 h * 5) < 2 ^ 30" "unat (h_2 h * 5) < 2 ^ 30" "unat (h_3 h * 5) < 2 ^ 30" "unat (h_4 h * 5) < 2 ^ 30"
    and t: "unat (h_1 h * 5) = 5 * unat (h_1 h)" "unat (h_2 h * 5) = 5 * unat (h_2 h)"
     "unat (h_3 h * 5) = 5 * unat (h_3 h)" "unat (h_4 h * 5) = 5 * unat (h_4 h)"
    using assms(1,2) by (simp_all add: wide_ok_def poly1305_key_ok_def unat_times5)
  note a = mult.assoc
  show "unat d0 = unat (h_0 h) * unat (r_0 r) + 5 * (unat (h_1 h) * unat (r_4 r)) + 5 * (unat (h_2 h) * unat (r_3 r)) +
      5 * (unat (h_3 h) * unat (r_2 r)) + 5 * (unat (h_4 h) * unat (r_1 r))" and "unat d0 < 2 ^ 59"
    using dot5 [OF w(1) v k(1,5,4,3,2)] unfolding d t a by simp_all
  show "unat d1 = unat (h_0 h) * unat (r_1 r) + unat (h_1 h) * unat (r_0 r) + 5 * (unat (h_2 h) * unat (r_4 r)) +
      5 * (unat (h_3 h) * unat (r_3 r)) + 5 * (unat (h_4 h) * unat (r_2 r))" and "unat d1 < 2 ^ 59"
    using dot5 [OF w(1,2) v(2-4) k(2,1,5,4,3)] unfolding d t a by simp_all
  show "unat d2 = unat (h_0 h) * unat (r_2 r) + unat (h_1 h) * unat (r_1 r) + unat (h_2 h) * unat (r_0 r) +
      5 * (unat (h_3 h) * unat (r_4 r)) + 5 * (unat (h_4 h) * unat (r_3 r))" and "unat d2 < 2 ^ 59"
    using dot5 [OF w(1-3) v(3,4) k(3,2,1,5,4)] unfolding d t a by simp_all
  show "unat d3 = unat (h_0 h) * unat (r_3 r) + unat (h_1 h) * unat (r_2 r) + unat (h_2 h) * unat (r_1 r) +
      unat (h_3 h) * unat (r_0 r) + 5 * (unat (h_4 h) * unat (r_4 r))" and "unat d3 < 2 ^ 59"
    using dot5 [OF w(1-4) v(4) k(4,3,2,1,5)] unfolding d t a by simp_all
  show "unat d4 = unat (h_0 h) * unat (r_4 r) + unat (h_1 h) * unat (r_3 r) + unat (h_2 h) * unat (r_2 r) +
      unat (h_3 h) * unat (r_1 r) + unat (h_4 h) * unat (r_0 r)"
    using dot5 [OF w k(5,4,3,2,1)] unfolding d by simp
qed

lemma unat_poly1305_mul_top:
  assumes "wide_ok h" and "poly1305_key_ok r" and "poly1305_mul r h = (d0, d1, d2, d3, d4)"
  shows "unat d4 < 5 * ((2 ^ 27 + 2 ^ 6) * 2 ^ 26)"
proof -
  have m: "a * b < (2 ^ 27 + 2 ^ 6) * 2 ^ 26" if "a < 2 ^ 27 + 2 ^ 6" "b < 2 ^ 26" for a b :: nat
    using that by (intro mult_strict_mono) simp_all
  show ?thesis
    unfolding unat_poly1305_mul(5) [OF assms]
    using assms(1,2) m [of "unat (h_0 h)" "unat (r_4 r)"] m [of "unat (h_1 h)" "unat (r_3 r)"]
      m [of "unat (h_2 h)" "unat (r_2 r)"] m [of "unat (h_3 h)" "unat (r_1 r)"] m [of "unat (h_4 h)" "unat (r_0 r)"]
    by (simp add: wide_ok_def poly1305_key_ok_def)
qed

lemma mul_limbs_identity:
  fixes h0 h1 h2 h3 h4 r0 r1 r2 r3 r4 B :: nat
  assumes "d0 = h0 * r0 + 5 * (h1 * r4) + 5 * (h2 * r3) + 5 * (h3 * r2) + 5 * (h4 * r1)"
    and "d1 = h0 * r1 + h1 * r0 + 5 * (h2 * r4) + 5 * (h3 * r3) + 5 * (h4 * r2)"
    and "d2 = h0 * r2 + h1 * r1 + h2 * r0 + 5 * (h3 * r4) + 5 * (h4 * r3)"
    and "d3 = h0 * r3 + h1 * r2 + h2 * r1 + h3 * r0 + 5 * (h4 * r4)"
    and "d4 = h0 * r4 + h1 * r3 + h2 * r2 + h3 * r1 + h4 * r0"
    and "5 \<le> B ^ 5"
  shows "(h0 + B * h1 + B^2 * h2 + B^3 * h3 + B^4 * h4) * (r0 + B * r1 + B^2 * r2 + B^3 * r3 + B^4 * r4) =
    d0 + B * d1 + B^2 * d2 + B^3 * d3 + B^4 * d4 +
    (B^5 - 5) * (h1 * r4 + h2 * r3 + h3 * r2 + h4 * r1 + B * (h2 * r4 + h3 * r3 + h4 * r2) +
      B^2 * (h3 * r4 + h4 * r3) + B^3 * (h4 * r4))"
proof -
  obtain P where P: "B ^ 5 = P + 5" using assms(6) by (metis le_add_diff_inverse2)
  let ?S = "h1 * r4 + h2 * r3 + h3 * r2 + h4 * r1 + B * (h2 * r4 + h3 * r3 + h4 * r2) +
      B^2 * (h3 * r4 + h4 * r3) + B^3 * (h4 * r4)"
  let ?L = "h0 * r0 + B * (h0 * r1 + h1 * r0) + B^2 * (h0 * r2 + h1 * r1 + h2 * r0) +
      B^3 * (h0 * r3 + h1 * r2 + h2 * r1 + h3 * r0) + B^4 * (h0 * r4 + h1 * r3 + h2 * r2 + h3 * r1 + h4 * r0)"
  have "(h0 + B * h1 + B^2 * h2 + B^3 * h3 + B^4 * h4) * (r0 + B * r1 + B^2 * r2 + B^3 * r3 + B^4 * r4) =
      ?L + B^5 * ?S"
    by (simp add: algebra_simps power_numeral_reduce power_Suc2 [symmetric] flip: power_add)
  also have "\<dots> = (?L + 5 * ?S) + P * ?S" by (simp add: P algebra_simps)
  also have "?L + 5 * ?S = d0 + B * d1 + B^2 * d2 + B^3 * d3 + B^4 * d4"
    unfolding assms by (simp add: algebra_simps)
  finally show ?thesis by (simp add: P)
qed

lemma unat_carry64:
  assumes "unat (d :: u64) < 2 ^ 60" and "unat (c :: u64) < 2 ^ 60"
  shows "unat (d + drop_bit 26 c) = unat d + unat c div 2 ^ 26"
proof -
  have "unat c div 2 ^ 26 \<le> unat c" by (rule div_le_dividend)
  then show ?thesis using assms by (subst unat_add_limb) (simp_all add: limb_simps)
qed

lemma unat_low64: "unat (ucast ((d :: u64) AND ucast limb_mask) :: u32) = unat d mod 2 ^ 26"
proof -
  have "unat d mod 2 ^ 26 < 2 ^ 26" by simp
  then show ?thesis by (simp only: limb_simps) simp
qed

lemma mod_limb: "(x :: nat) = x mod 2 ^ 26 + 2 ^ 26 * (x div 2 ^ 26)"
  by simp

lemma carry_chain:
  fixes d0 d1 d2 d3 d4 :: nat
  assumes "e1 = d1 + d0 div 2 ^ 26" "e2 = d2 + e1 div 2 ^ 26" "e3 = d3 + e2 div 2 ^ 26" "e4 = d4 + e3 div 2 ^ 26"
  shows "d0 + 2 ^ 26 * d1 + 2 ^ 52 * d2 + 2 ^ 78 * d3 + 2 ^ 104 * d4 =
    d0 mod 2 ^ 26 + 2 ^ 26 * (e1 mod 2 ^ 26) + 2 ^ 52 * (e2 mod 2 ^ 26) + 2 ^ 78 * (e3 mod 2 ^ 26) +
    2 ^ 104 * (e4 mod 2 ^ 26) + 2 ^ 130 * (e4 div 2 ^ 26)"
proof -
  define q0 q1 q2 q3 q4 where "q0 = d0 div 2 ^ 26" and "q1 = e1 div 2 ^ 26" and "q2 = e2 div 2 ^ 26"
    and "q3 = e3 div 2 ^ 26" and "q4 = e4 div 2 ^ 26"
  define m0 m1 m2 m3 m4 where "m0 = d0 mod 2 ^ 26" and "m1 = e1 mod 2 ^ 26" and "m2 = e2 mod 2 ^ 26"
    and "m3 = e3 mod 2 ^ 26" and "m4 = e4 mod 2 ^ 26"
  have "d0 = m0 + 2 ^ 26 * q0" "d1 + q0 = m1 + 2 ^ 26 * q1" "d2 + q1 = m2 + 2 ^ 26 * q2"
    "d3 + q2 = m3 + 2 ^ 26 * q3" "d4 + q3 = m4 + 2 ^ 26 * q4"
    using mod_limb [of d0] mod_limb [of e1] mod_limb [of e2] mod_limb [of e3] mod_limb [of e4]
    unfolding q0_def q1_def q2_def q3_def q4_def m0_def m1_def m2_def m3_def m4_def assms [symmetric] by blast+
  then have "d0 + 2 ^ 26 * d1 + 2 ^ 52 * d2 + 2 ^ 78 * d3 + 2 ^ 104 * d4 =
      m0 + 2 ^ 26 * m1 + 2 ^ 52 * m2 + 2 ^ 78 * m3 + 2 ^ 104 * m4 + 2 ^ 130 * q4" by simp
  then show ?thesis by (simp only: q4_def m0_def m1_def m2_def m3_def m4_def)
qed

lemma fold_top_limb:
  fixes a0 a1 q :: nat
  assumes "b0 = a0 + q * 5"
  shows "a0 + 2 ^ 26 * a1 + 2 ^ 52 * a2 + 2 ^ 78 * a3 + 2 ^ 104 * a4 + 2 ^ 130 * q =
    (b0 mod 2 ^ 26 + 2 ^ 26 * (a1 + b0 div 2 ^ 26) + 2 ^ 52 * a2 + 2 ^ 78 * a3 + 2 ^ 104 * a4) + poly1305_prime * q"
proof -
  have "b0 mod 2 ^ 26 + 2 ^ 26 * (b0 div 2 ^ 26) = a0 + q * 5"
    using mod_limb [of b0] assms by (simp only: )
  then show ?thesis by (simp add: poly1305_prime_def algebra_simps)
qed

lemma limbs_reduce:
  assumes "unat d0 < 2 ^ 59" "unat d1 < 2 ^ 59" "unat d2 < 2 ^ 59" "unat d3 < 2 ^ 59"
    and "unat d4 < 5 * ((2 ^ 27 + 2 ^ 6) * 2 ^ 26)"
  defines "h \<equiv> poly1305_reduce (d0, d1, d2, d3, d4)"
  shows "limbs_ok h"
    and "\<exists>q. unat d0 + 2 ^ 26 * unat d1 + 2 ^ 52 * unat d2 + 2 ^ 78 * unat d3 + 2 ^ 104 * unat d4 =
      limbs_val h + poly1305_prime * q"
proof -
  define e1 e2 e3 e4 where "e1 = d1 + drop_bit 26 d0" and "e2 = d2 + drop_bit 26 e1" and "e3 = d3 + drop_bit 26 e2"
    and "e4 = d4 + drop_bit 26 e3"
  have lt: "x div 2 ^ 26 < 2 ^ 34" if "x < 2 ^ 60" for x :: nat using that by (simp add: div_less_iff_less_mult)
  have e1: "unat e1 = unat d1 + unat d0 div 2 ^ 26" "unat e1 < 2 ^ 60"
    using assms(1,2) unat_carry64 [of d1 d0] lt [of "unat d0"] by (simp_all add: e1_def)
  have e2: "unat e2 = unat d2 + unat e1 div 2 ^ 26" "unat e2 < 2 ^ 60"
    using assms(3) e1(2) unat_carry64 [of d2 e1] lt [of "unat e1"] by (simp_all add: e2_def)
  have e3: "unat e3 = unat d3 + unat e2 div 2 ^ 26" "unat e3 < 2 ^ 60"
    using assms(4) e2(2) unat_carry64 [of d3 e2] lt [of "unat e2"] by (simp_all add: e3_def)
  have e4: "unat e4 = unat d4 + unat e3 div 2 ^ 26"
    using assms(5) e3(2) unat_carry64 [of d4 e3] by (simp add: e4_def)
  define q where "q = unat e4 div 2 ^ 26"
  have q: "q * 5 < 51 * 2 ^ 26"
  proof -
    have "unat e4 < (10 * 2 ^ 26 + 2 ^ 10) * 2 ^ 26" using e4 lt [OF e3(2)] assms(5) by simp
    then have "q < 10 * 2 ^ 26 + 2 ^ 10" unfolding q_def by (rule less_mult_imp_div_less)
    then show ?thesis by simp
  qed
  define b0 where "b0 = unat d0 mod 2 ^ 26 + q * 5"
  have m0: "unat d0 mod 2 ^ 26 < 2 ^ 26" and m1: "unat e1 mod 2 ^ 26 < 2 ^ 26" by simp_all
  have b0: "b0 < 52 * 2 ^ 26" using m0 q by (simp add: b0_def)
  define w0 where "w0 = (ucast (ucast (ucast (d0 AND ucast limb_mask) :: u32) + drop_bit 26 e4 * 5 :: u64) :: u32)"
  have w0: "unat w0 = b0"
  proof -
    have "unat (drop_bit 26 e4 * 5) = q * 5"
      using q by (subst unat_mult_limb) (simp_all only: limb_simps flip: q_def, simp_all)
    then have "unat (ucast (ucast (d0 AND ucast limb_mask) :: u32) + drop_bit 26 e4 * 5 :: u64) = b0"
      using b0 by (subst unat_add_limb) (simp_all only: unat_widen unat_low64 b0_def, simp_all)
    then show ?thesis unfolding w0_def using b0 by (simp only: unat_narrow) simp
  qed
  define w1 where "w1 = (ucast (e1 AND ucast limb_mask) :: u32) + drop_bit 26 w0"
  have c: "b0 div 2 ^ 26 < 52" using b0 by (rule less_mult_imp_div_less)
  have w1: "unat w1 = unat e1 mod 2 ^ 26 + b0 div 2 ^ 26"
    unfolding w1_def using m1 c by (subst unat_add_limb) (simp_all only: unat_low64 unat_drop_limb w0, simp_all)
  have h: "unat (h_0 h) = b0 mod 2 ^ 26" "unat (h_1 h) = unat e1 mod 2 ^ 26 + b0 div 2 ^ 26"
    "unat (h_2 h) = unat e2 mod 2 ^ 26" "unat (h_3 h) = unat e3 mod 2 ^ 26" "unat (h_4 h) = unat e4 mod 2 ^ 26"
    using w0 w1 unat_limb_mask [of w0]
    by (simp_all only: h_def poly1305_reduce_def Let_def prod.case poly1305_acc.simps unat_low64
        e1_def [symmetric] e2_def [symmetric] e3_def [symmetric] e4_def [symmetric] w0_def [symmetric] w1_def [symmetric])
  show "limbs_ok h" unfolding limbs_ok_def h using m1 c by simp
  have "unat d0 + 2 ^ 26 * unat d1 + 2 ^ 52 * unat d2 + 2 ^ 78 * unat d3 + 2 ^ 104 * unat d4 =
      limbs_val h + poly1305_prime * q"
    unfolding limbs_val_def h carry_chain [OF e1(1) e2(1) e3(1) e4] q_def [symmetric] fold_top_limb [OF b0_def] ..
  then show "\<exists>q. unat d0 + 2 ^ 26 * unat d1 + 2 ^ 52 * unat d2 + 2 ^ 78 * unat d3 + 2 ^ 104 * unat d4 =
      limbs_val h + poly1305_prime * q" ..
qed

lemma unat_carry32:
  assumes "unat (d :: u32) < 2 ^ 27" and "unat (c :: u32) < 2 ^ 28"
  shows "unat (d + drop_bit 26 c) = unat d + unat c div 2 ^ 26" and "unat c div 2 ^ 26 < 4"
proof -
  show c: "unat c div 2 ^ 26 < 4" using assms(2) by (intro less_mult_imp_div_less) simp
  show "unat (d + drop_bit 26 c) = unat d + unat c div 2 ^ 26"
    using assms(1) c by (subst unat_add_limb) (simp_all only: limb_simps, simp_all)
qed

lemma div_limb_1: "x < 2 * 2 ^ 26 \<Longrightarrow> x div 2 ^ 26 \<le> 1" for x :: nat
  using less_mult_imp_div_less [of x 2 "2 ^ 26"] by linarith

lemma limbs_carry:
  assumes "limbs_ok h"
  defines "g \<equiv> poly1305_carry h"
  shows "limbs_canonical g" and "\<exists>q. limbs_val h = limbs_val g + poly1305_prime * q"
proof -
  have b: "unat (h_0 h) < 2 ^ 26" "unat (h_1 h) < 2 ^ 26 + 2 ^ 6" "unat (h_2 h) < 2 ^ 26"
    "unat (h_3 h) < 2 ^ 26" "unat (h_4 h) < 2 ^ 26"
    using assms(1) by (simp_all add: limbs_ok_def)
  define e2 e3 e4 where "e2 = h_2 h + drop_bit 26 (h_1 h)" and "e3 = h_3 h + drop_bit 26 e2" and "e4 = h_4 h + drop_bit 26 e3"
  have c1: "unat (h_1 h) div 2 ^ 26 \<le> 1" using b(2) by (intro div_limb_1) simp
  have e2: "unat e2 = unat (h_2 h) + unat (h_1 h) div 2 ^ 26" unfolding e2_def using b by (intro unat_carry32) simp_all
  have c2: "unat e2 div 2 ^ 26 \<le> 1" using e2 c1 b(3) by (intro div_limb_1) simp
  have e3: "unat e3 = unat (h_3 h) + unat e2 div 2 ^ 26" unfolding e3_def using b e2 c1 by (intro unat_carry32) simp_all
  have c3: "unat e3 div 2 ^ 26 \<le> 1" using e3 c2 b(4) by (intro div_limb_1) simp
  have e4: "unat e4 = unat (h_4 h) + unat e3 div 2 ^ 26" unfolding e4_def using b e3 c2 by (intro unat_carry32) simp_all
  define q where "q = unat e4 div 2 ^ 26"
  have q: "q \<le> 1" unfolding q_def using e4 c3 b(5) by (intro div_limb_1) simp
  define w0 where "w0 = h_0 h + drop_bit 26 e4 * 5"
  have w0: "unat w0 = unat (h_0 h) + q * 5"
  proof -
    have "unat (drop_bit 26 e4 * 5) = q * 5"
      using q by (subst unat_mult_limb) (simp_all only: limb_simps flip: q_def, simp_all)
    then show ?thesis unfolding w0_def using b(1) q by (subst unat_add_limb) simp_all
  qed
  have c0: "unat w0 div 2 ^ 26 \<le> 1" using w0 q b(1) by (intro div_limb_1) simp
  define w1 where "w1 = (h_1 h AND limb_mask) + drop_bit 26 w0"
  have lt: "x mod 2 ^ 26 < 2 ^ 26" for x :: nat by simp
  have w1: "unat w1 = unat (h_1 h) mod 2 ^ 26 + unat w0 div 2 ^ 26"
    unfolding w1_def using c0 lt [of "unat (h_1 h)"] by (subst unat_add_limb) (simp_all only: limb_simps, simp_all)
  have g: "unat (h_0 g) = unat w0 mod 2 ^ 26" "unat (h_1 g) = unat (h_1 h) mod 2 ^ 26 + unat w0 div 2 ^ 26"
    "unat (h_2 g) = unat e2 mod 2 ^ 26" "unat (h_3 g) = unat e3 mod 2 ^ 26" "unat (h_4 g) = unat e4 mod 2 ^ 26"
    using w1
    by (simp_all only: g_def poly1305_carry_def Let_def poly1305_acc.simps unat_limb_mask
        e2_def [symmetric] e3_def [symmetric] e4_def [symmetric] w0_def [symmetric] w1_def [symmetric])
  have "unat (h_1 h) mod 2 ^ 26 + unat w0 div 2 ^ 26 < 2 ^ 26"
  proof (cases "unat (h_1 h) < 2 ^ 26")
    case True
    then have "q = 0" using b e2 e3 e4 by (simp add: q_def)
    then show ?thesis using w0 b(1) lt [of "unat (h_1 h)"] by simp
  next
    case False
    then have "unat (h_1 h) mod 2 ^ 26 < 2 ^ 6" using b(2) by (simp add: mod_if, linarith)
    then show ?thesis using c0 by simp
  qed
  then show "limbs_canonical g" by (simp add: limbs_canonical_def g)
  have h1: "unat (h_1 h) = unat (h_1 h) + unat (h_0 h) div 2 ^ 26" and h0: "unat (h_0 h) mod 2 ^ 26 = unat (h_0 h)"
    using b(1) by simp_all
  have "limbs_val h = limbs_val g + poly1305_prime * q"
    unfolding limbs_val_def g carry_chain [OF h1 e2 e3 e4] h0 q_def [symmetric] fold_top_limb [OF w0] ..
  then show "\<exists>q. limbs_val h = limbs_val g + poly1305_prime * q" ..
qed

lemma limbs_val_bound: "limbs_canonical h \<Longrightarrow> limbs_val h < 2 ^ 130"
  by (simp add: limbs_canonical_def limbs_val_def)

lemma limbs_final_sub:
  assumes "limbs_canonical h"
  defines "g \<equiv> poly1305_final_sub h"
  shows "limbs_canonical g" and "limbs_val g = limbs_val h mod poly1305_prime"
proof -
  have b: "unat (h_0 h) < 2 ^ 26" "unat (h_1 h) < 2 ^ 26" "unat (h_2 h) < 2 ^ 26"
    "unat (h_3 h) < 2 ^ 26" "unat (h_4 h) < 2 ^ 26"
    using assms(1) by (simp_all add: limbs_canonical_def)
  define g0 g1 g2 g3 g4 where "g0 = h_0 h + 5" and "g1 = h_1 h + drop_bit 26 g0" and "g2 = h_2 h + drop_bit 26 g1"
    and "g3 = h_3 h + drop_bit 26 g2" and "g4 = h_4 h + drop_bit 26 g3"
  note g_defs = g0_def g1_def g2_def g3_def g4_def
  have u0: "unat g0 = unat (h_0 h) + 5" unfolding g0_def using b(1) by (subst unat_add_limb) simp_all
  have c0: "unat g0 div 2 ^ 26 \<le> 1" using u0 b(1) by (intro div_limb_1) simp
  have u1: "unat g1 = unat (h_1 h) + unat g0 div 2 ^ 26" unfolding g1_def using b u0 by (intro unat_carry32) simp_all
  have c1: "unat g1 div 2 ^ 26 \<le> 1" using u1 c0 b(2) by (intro div_limb_1) simp
  have u2: "unat g2 = unat (h_2 h) + unat g1 div 2 ^ 26" unfolding g2_def using b u1 c0 by (intro unat_carry32) simp_all
  have c2: "unat g2 div 2 ^ 26 \<le> 1" using u2 c1 b(3) by (intro div_limb_1) simp
  have u3: "unat g3 = unat (h_3 h) + unat g2 div 2 ^ 26" unfolding g3_def using b u2 c1 by (intro unat_carry32) simp_all
  have c3: "unat g3 div 2 ^ 26 \<le> 1" using u3 c2 b(4) by (intro div_limb_1) simp
  have u4: "unat g4 = unat (h_4 h) + unat g3 div 2 ^ 26" unfolding g4_def using b u3 c2 by (intro unat_carry32) simp_all
  define q where "q = unat g4 div 2 ^ 26"
  have q: "q \<le> 1" unfolding q_def using u4 c3 b(5) by (intro div_limb_1) simp
  define G where "G = \<lparr>h_0 = g0 AND limb_mask, h_1 = g1 AND limb_mask, h_2 = g2 AND limb_mask, h_3 = g3 AND limb_mask,
     h_4 = g4 AND limb_mask\<rparr>"
  have G: "limbs_canonical G" "limbs_val h + 5 = limbs_val G + 2 ^ 130 * q"
  proof -
    show "limbs_canonical G" by (simp add: limbs_canonical_def G_def unat_limb_mask)
    show "limbs_val h + 5 = limbs_val G + 2 ^ 130 * q"
      using carry_chain [OF u1 u2 u3 u4] unfolding limbs_val_def G_def poly1305_acc.simps unat_limb_mask q_def [symmetric]
      by (simp add: u0)
  qed
  have dq: "drop_bit 26 g4 = (if q = 0 then 0 else 1)"
  proof -
    have "unat (drop_bit 26 g4) = unat (if q = 0 then 0 else 1 :: u32)"
      unfolding unat_drop_limb q_def [symmetric] using q by auto
    then show ?thesis by (rule unsigned_word_eqI)
  qed
  have g: "g = (if q = 0 then h else G)"
    unfolding g_def poly1305_final_sub_def Let_def g_defs [symmetric] dq by (simp add: G_def)
  show "limbs_canonical g" using g G(1) assms(1) by simp
  show "limbs_val g = limbs_val h mod poly1305_prime"
  proof (cases "q = 0")
    case True
    then have "limbs_val h < poly1305_prime"
      using G limbs_val_bound [OF G(1)] by (simp add: poly1305_prime_def)
    then show ?thesis using g True by simp
  next
    case False
    then have "q = 1" using q by simp
    then have "limbs_val h = limbs_val G + poly1305_prime" and "limbs_val G < poly1305_prime"
      using G(2) limbs_val_bound [OF assms(1)] by (simp_all add: poly1305_prime_def)
    then show ?thesis using g False by simp
  qed
qed

lemma or_disjoint_add:
  "unat (b :: u64) < 2 ^ n \<Longrightarrow> push_bit n a OR b = push_bit n a + b"
proof (rule disjunctive_add_eq_or [symmetric], rule bit_word_eqI)
  fix i assume b: "unat b < 2 ^ n"
  have "\<not> bit b i" if "n \<le> i"
  proof -
    have "take_bit n (unat b) = unat b" using b by (rule take_bit_nat_eq_self)
    then have "bit (unat b) i \<Longrightarrow> i < n" by (metis bit_take_bit_iff)
    then show ?thesis using that by (auto simp: bit_unsigned_iff dest: bit_imp_le_length)
  qed
  then show "bit (push_bit n a AND b) i = bit (0 :: u64) i"
    by (auto simp only: bit_and_iff bit_push_bit_iff bit_0_eq bot_apply bot_bool_def)
qed

lemma unat_push_bit: "unat (push_bit n x :: 'a::len word) = unat x * 2 ^ n mod 2 ^ LENGTH('a)"
  by (simp only: unsigned_push_bit_eq) (simp only: take_bit_eq_mod push_bit_eq_mult)

lemma unat_or_limb:
  assumes "unat (b :: u64) < 2 ^ n" and "n + m = 64"
  shows "unat (push_bit n a OR b) = unat a mod 2 ^ m * 2 ^ n + unat b"
proof -
  have p: "unat (push_bit n a) = unat a mod 2 ^ m * 2 ^ n"
    using assms(2) by (simp add: unat_push_bit mult_mod_left flip: power_add) (simp add: add.commute)
  have "unat a mod 2 ^ m + 1 \<le> 2 ^ m" by (simp add: Suc_le_eq)
  then have "(unat a mod 2 ^ m + 1) * 2 ^ n \<le> 2 ^ m * 2 ^ n" by (rule mult_le_mono1)
  also have "\<dots> = 2 ^ 64" using assms(2) by (simp add: add.commute flip: power_add)
  finally have "unat (push_bit n a) + unat b < 2 ^ 64" using assms(1) p by (simp add: algebra_simps)
  then show ?thesis using or_disjoint_add [OF assms(1), of a] p by (simp add: unat_add_limb)
qed

lemma split_shifted: "2 ^ k * (x :: nat) = 2 ^ k * (x mod 2 ^ n) + 2 ^ (k + n) * (x div 2 ^ n)"
  by (simp add: power_add mult.assoc flip: distrib_left)

lemma limbs_out:
  assumes "limbs_canonical h"
  shows "le128_val (poly1305_out h) = limbs_val h mod 2 ^ 128"
proof -
  define a b c d e where "a = unat (h_0 h)" and "b = unat (h_1 h)" and "c = unat (h_2 h)" and "d = unat (h_3 h)"
    and "e = unat (h_4 h)"
  note defs = a_def b_def c_def d_def e_def
  have bd: "a < 2 ^ 26" "b < 2 ^ 26" "c < 2 ^ 26" "d < 2 ^ 26" "e < 2 ^ 26"
    using assms by (simp_all add: limbs_canonical_def defs)
  have "unat (push_bit 26 (ucast (h_1 h)) OR ucast (h_0 h) :: u64) = b mod 2 ^ 38 * 2 ^ 26 + a"
    using bd(1) unat_or_limb [of "ucast (h_0 h)" 26 38 "ucast (h_1 h)"] by (simp add: unat_widen defs)
  moreover have "b mod 2 ^ 38 = b" using bd(2) by simp
  ultimately have i: "unat (push_bit 26 (ucast (h_1 h)) OR ucast (h_0 h) :: u64) = b * 2 ^ 26 + a" by simp
  have "b * 2 ^ 26 + a < 2 ^ 52" using bd by simp
  then have lo: "unat (le_lo (poly1305_out h)) = c mod 2 ^ 12 * 2 ^ 52 + (b * 2 ^ 26 + a)"
    unfolding poly1305_out_def using i unat_or_limb [of "push_bit 26 (ucast (h_1 h)) OR ucast (h_0 h)" 52 12 "ucast (h_2 h)"]
    by (simp add: unat_widen defs)
  have cd: "c div 2 ^ 12 < 2 ^ 14" using bd(3) by (intro less_mult_imp_div_less) simp
  have "unat (push_bit 14 (ucast (h_3 h)) OR ucast (drop_bit 12 (h_2 h)) :: u64) = d mod 2 ^ 50 * 2 ^ 14 + c div 2 ^ 12"
    using cd unat_or_limb [of "ucast (drop_bit 12 (h_2 h))" 14 50 "ucast (h_3 h)"] by (simp add: unat_widen unat_drop_limb defs)
  moreover have "d mod 2 ^ 50 = d" using bd(4) by simp
  ultimately have j: "unat (push_bit 14 (ucast (h_3 h)) OR ucast (drop_bit 12 (h_2 h)) :: u64) = d * 2 ^ 14 + c div 2 ^ 12" by simp
  have "d * 2 ^ 14 + c div 2 ^ 12 < 2 ^ 40" using bd cd by simp
  then have hi: "unat (le_hi (poly1305_out h)) = e mod 2 ^ 24 * 2 ^ 40 + (d * 2 ^ 14 + c div 2 ^ 12)"
    unfolding poly1305_out_def using j unat_or_limb [of "push_bit 14 (ucast (h_3 h)) OR ucast (drop_bit 12 (h_2 h))" 40 24 "ucast (h_4 h)"]
    by (simp add: unat_widen defs)
  have v: "limbs_val h = le128_val (poly1305_out h) + 2 ^ 128 * (e div 2 ^ 24)"
  proof -
    have "2 ^ 52 * c = 2 ^ 52 * (c mod 2 ^ 12) + 2 ^ 64 * (c div 2 ^ 12)"
      and "2 ^ 104 * e = 2 ^ 104 * (e mod 2 ^ 24) + 2 ^ 128 * (e div 2 ^ 24)"
      using split_shifted [of 52 c 12] split_shifted [of 104 e 24] by (simp_all only:) simp_all
    then show ?thesis unfolding limbs_val_def le128_val_def lo hi defs [symmetric] by (simp add: algebra_simps)
  qed
  have "le128_val (poly1305_out h) < 2 ^ 128" by (rule le128_val_less)
  then show ?thesis using v by simp
qed

lemma limbs_step:
  assumes "limbs_ok h" and "poly1305_key_ok r" and "16 \<le> length msg"
  defines "g \<equiv> poly1305_reduce (poly1305_mul r (poly1305_add_block msg h))"
  shows "limbs_ok g"
    and "limbs_val g mod poly1305_prime = (limbs_val h mod poly1305_prime + (block_val msg + 2 ^ 128)) * key_val r mod poly1305_prime"
proof -
  define a where "a = poly1305_add_block msg h"
  note add = limbs_add_block [OF assms(1,3), folded a_def]
  have wide: "wide_ok a" using add(2-6) by (simp add: wide_ok_def)
  obtain d0 d1 d2 d3 d4 where d: "poly1305_mul r a = (d0, d1, d2, d3, d4)" by (cases "poly1305_mul r a")
  note mul = unat_poly1305_mul [OF wide assms(2) d]
  note red = limbs_reduce [OF mul(6-9) unat_poly1305_mul_top [OF wide assms(2) d]]
  have g: "g = poly1305_reduce (d0, d1, d2, d3, d4)" by (simp add: g_def d flip: a_def)
  then show "limbs_ok g" using red(1) by simp
  obtain q where q: "unat d0 + 2 ^ 26 * unat d1 + 2 ^ 52 * unat d2 + 2 ^ 78 * unat d3 + 2 ^ 104 * unat d4 =
      limbs_val g + poly1305_prime * q"
    using red(2) g by auto
  have "\<exists>s. limbs_val a * key_val r = unat d0 + 2 ^ 26 * unat d1 + 2 ^ 52 * unat d2 + 2 ^ 78 * unat d3 +
      2 ^ 104 * unat d4 + poly1305_prime * s"
  proof -
    have pw: "((2 :: nat) ^ 26) ^ 2 = 2 ^ 52" "((2 :: nat) ^ 26) ^ 3 = 2 ^ 78" "((2 :: nat) ^ 26) ^ 4 = 2 ^ 104"
      "((2 :: nat) ^ 26) ^ 5 = 2 ^ 130" and le: "(5 :: nat) \<le> (2 ^ 26) ^ 5" by simp_all
    show ?thesis
      unfolding limbs_val_def key_val_def poly1305_prime_def
      by (rule exI) (rule mul_limbs_identity [OF mul(1-5) le, unfolded pw])
  qed
  then obtain s where "limbs_val a * key_val r = limbs_val g + poly1305_prime * q + poly1305_prime * s"
    unfolding q by blast
  then have "limbs_val g mod poly1305_prime = limbs_val a * key_val r mod poly1305_prime" by simp
  also have "\<dots> = (limbs_val h mod poly1305_prime + (block_val msg + 2 ^ 128)) * key_val r mod poly1305_prime"
    unfolding add(1) by (metis mod_add_left_eq mod_mult_left_eq)
  finally show "limbs_val g mod poly1305_prime = \<dots>" .
qed

lemma limbs_loop:
  assumes "length msg mod 16 = 0" and "limbs_ok h" and "poly1305_key_ok r"
  shows "limbs_ok (poly1305_loop r msg h)"
    and "limbs_val (poly1305_loop r msg h) mod poly1305_prime = poly1305_eval (key_val r) msg (limbs_val h mod poly1305_prime)"
proof -
  have "limbs_ok (poly1305_loop r msg h) \<and>
    limbs_val (poly1305_loop r msg h) mod poly1305_prime = poly1305_eval (key_val r) msg (limbs_val h mod poly1305_prime)"
    using assms(1,2)
  proof (induction msg arbitrary: h rule: block16_induct)
    case Nil
    then show ?case by (subst poly1305_loop.simps, subst (2) poly1305_loop.simps, subst poly1305_eval.simps) simp
  next
    case (Block b xs)
    let ?g = "poly1305_reduce (poly1305_mul r (poly1305_add_block (b @ xs) h))"
    have s: "limbs_ok ?g"
      "limbs_val ?g mod poly1305_prime =
        (limbs_val h mod poly1305_prime + (block_val (b @ xs) + 2 ^ 128)) * key_val r mod poly1305_prime"
      using Block assms(3) by (intro limbs_step; simp)+
    have l: "poly1305_loop r (b @ xs) h = poly1305_loop r xs ?g"
      using Block by (subst poly1305_loop.simps) auto
    have e: "poly1305_eval (key_val r) (b @ xs) (limbs_val h mod poly1305_prime) =
        poly1305_eval (key_val r) xs (limbs_val ?g mod poly1305_prime)"
      using Block s(2) by (subst poly1305_eval.simps) auto
    show ?case unfolding l e using Block.IH [OF s(1)] by simp
  qed
  then show "limbs_ok (poly1305_loop r msg h)"
    and "limbs_val (poly1305_loop r msg h) mod poly1305_prime = poly1305_eval (key_val r) msg (limbs_val h mod poly1305_prime)"
    by simp_all
qed

lemma and_digit: "(X AND Y) div 2 ^ n mod 2 ^ 26 = (X div 2 ^ n mod 2 ^ 26) AND (Y div 2 ^ n mod 2 ^ 26)" for X Y :: nat
  by (simp only: drop_bit_eq_div [symmetric] take_bit_eq_mod [symmetric] drop_bit_and take_bit_and)

lemma unat_and_limb: "unat (x AND y :: 'a::len word) = unat x AND unat y"
  by (simp add: unsigned_and_eq)

lemma and_nat_le: "(x :: nat) AND y \<le> y"
proof -
  have "int x AND int y \<le> int y" by (rule AND_upper2) simp
  then show ?thesis by (metis nat_int of_nat_and_eq of_nat_le_iff)
qed

lemma key_limb:
  assumes "k + 4 \<le> 16" and "16 \<le> length p" and "s + 26 \<le> 32" and "unat m = M" and "M mod 2 ^ 26 = M"
  shows "unat (ucast (drop_bit s (get_unaligned_le32 (drop k p)) AND m) :: u64) =
    (block_val p div 2 ^ (8 * k + s) mod 2 ^ 26) AND M"
proof -
  have "take_bit 26 M = M" using assms(5) by (simp add: take_bit_eq_mod)
  then have "unat (drop_bit s (get_unaligned_le32 (drop k p)) AND m) =
      take_bit 26 (unat (drop_bit s (get_unaligned_le32 (drop k p)))) AND M"
    by (metis assms(4) unat_and_limb and.commute and.left_commute take_bit_eq_mask and.assoc)
  also have "take_bit 26 (unat (drop_bit s (get_unaligned_le32 (drop k p)))) =
      unat (drop_bit s (get_unaligned_le32 (drop k p)) AND limb_mask)"
    by (simp only: unat_limb_mask take_bit_eq_mod)
  finally show ?thesis by (simp only: unat_widen unat_word_limb [OF assms(1-3)])
qed

lemma poly1305_clamp_val:
  assumes "16 \<le> length key"
  shows "poly1305_key_ok (poly1305_clamp key)" and "key_val (poly1305_clamp key) = poly1305_r key"
proof -
  let ?N = "block_val key" and ?C = "0x0ffffffc0ffffffc0ffffffc0fffffff :: nat"
  have r: "unat (r_0 (poly1305_clamp key)) = poly1305_r key mod 2 ^ 26"
    "unat (r_1 (poly1305_clamp key)) = poly1305_r key div 2 ^ 26 mod 2 ^ 26"
    "unat (r_2 (poly1305_clamp key)) = poly1305_r key div 2 ^ 52 mod 2 ^ 26"
    "unat (r_3 (poly1305_clamp key)) = poly1305_r key div 2 ^ 78 mod 2 ^ 26"
    using key_limb [of 0 key 0 "0x3ffffff" "0x3ffffff"] key_limb [of 3 key 2 "0x3ffff03" "0x3ffff03"]
      key_limb [of 6 key 4 "0x3ffc0ff" "0x3ffc0ff"] key_limb [of 9 key 6 "0x3f03fff" "0x3f03fff"] assms
      and_digit [of ?N ?C 0] and_digit [of ?N ?C 26] and_digit [of ?N ?C 52] and_digit [of ?N ?C 78]
    by (simp_all add: poly1305_clamp_def poly1305_r_def)
  have w: "unat (drop_bit 8 (get_unaligned_le32 (drop 12 key))) = ?N div 2 ^ 104"
    by (rule unat_top_word) (rule assms)
  have "unat (r_4 (poly1305_clamp key)) = (?N div 2 ^ 104) AND 0xfffff"
    unfolding poly1305_clamp_def poly1305_key.simps unat_widen unat_and_limb w by simp
  moreover have "poly1305_r key div 2 ^ 104 = (?N div 2 ^ 104) AND 0xfffff"
    unfolding poly1305_r_def drop_bit_eq_div [symmetric] drop_bit_and by (simp add: drop_bit_eq_div)
  ultimately have r4: "unat (r_4 (poly1305_clamp key)) = poly1305_r key div 2 ^ 104" by simp
  have "poly1305_r key \<le> ?C" unfolding poly1305_r_def by (rule and_nat_le)
  then have "poly1305_r key div 2 ^ 104 < 2 ^ 26" by (intro less_mult_imp_div_less) simp
  then show "poly1305_key_ok (poly1305_clamp key)" unfolding poly1305_key_ok_def r r4 by simp
  show "key_val (poly1305_clamp key) = poly1305_r key"
    unfolding key_val_def r r4 using digits_130 [of "poly1305_r key"] by simp
qed

lemma poly1305_value:
  assumes "length msg mod 16 = 0" and "16 \<le> length key"
  shows "\<exists>out. poly1305 key msg = Inr out \<and> le128_val out = poly1305_eval (poly1305_r key) msg 0 mod 2 ^ 128"
proof -
  let ?z = "\<lparr>h_0 = 0, h_1 = 0, h_2 = 0, h_3 = 0, h_4 = 0\<rparr>"
  let ?h = "poly1305_loop (poly1305_clamp key) msg ?z"
  have z: "limbs_ok ?z" "limbs_val ?z mod poly1305_prime = 0" by (simp_all add: limbs_ok_def limbs_val_def)
  note loop = limbs_loop [OF assms(1) z(1) poly1305_clamp_val(1) [OF assms(2)]]
  obtain q where q: "limbs_val ?h = limbs_val (poly1305_carry ?h) + poly1305_prime * q"
    using limbs_carry(2) [OF loop(1)] by blast
  note carry = limbs_carry(1) [OF loop(1)]
  have "le128_val (poly1305_out (poly1305_final_sub (poly1305_carry ?h))) =
      limbs_val (poly1305_carry ?h) mod poly1305_prime mod 2 ^ 128"
    using limbs_out [OF limbs_final_sub(1) [OF carry]] limbs_final_sub(2) [OF carry] by simp
  also have "limbs_val (poly1305_carry ?h) mod poly1305_prime = poly1305_eval (poly1305_r key) msg 0"
    using loop(2) q z(2) poly1305_clamp_val(2) [OF assms(2)] by simp
  finally show ?thesis using assms(1) by (simp add: poly1305_def Let_def)
qed

section \<open>Properties\<close>

text \<open>
  C16. Poly1305 in five 26 bit limbs is the polynomial over the integers modulo \<open>2 ^ 130 - 5\<close>: for every
  message of whole blocks the sixteen bytes returned are the value of the message's polynomial at
  the clamped key, reduced modulo the prime and then to 128 bits; no limb product or carry
  overflows its machine word.
\<close>

theorem poly1305_evaluates_polynomial:
  assumes "length msg mod 16 = 0" and "16 \<le> length key"
  shows "\<exists>out. poly1305 key msg = Inr out \<and> le128_val out = poly1305_eval (poly1305_r key) msg 0 mod 2 ^ 128"
  using assms by (rule poly1305_value)

theorem poly1305_evaluates_polynomial_witness:
  "\<exists>out. poly1305 (replicate 16 200) (replicate 48 255) = Inr out \<and>
     le128_val out = poly1305_eval (poly1305_r (replicate 16 200)) (replicate 48 255) 0 mod 2 ^ 128"
  using poly1305_evaluates_polynomial [of "replicate 48 255" "replicate 16 200"] by simp

end
