(* ===== verification/Adiantum.thy ===== *)
theory Adiantum
  imports AES_Modes Poly1305
begin

text \<open>
  XChaCha12, NH and the Adiantum mode of \<open>src/src/fscrypt-crypt-util.c\<close>.
\<close>

section \<open>XChaCha\<close>

definition chacha_consts :: bytes where
  "chacha_consts = map (\<lambda>c. of_nat (of_char c)) ''expand 32-byte k''"

definition chacha_init_state :: "bytes \<Rightarrow> bytes \<Rightarrow> u32 list" where
  "chacha_init_state key iv =
     map (\<lambda>i. get_unaligned_le32 (drop (i * 4) chacha_consts)) [0..<4] @
     map (\<lambda>i. get_unaligned_le32 (drop (i * 4) key)) [0..<8] @
     map (\<lambda>i. get_unaligned_le32 (drop (i * 4) iv)) [0..<4]"

definition CHACHA_QUARTERROUND :: "nat \<Rightarrow> nat \<Rightarrow> nat \<Rightarrow> nat \<Rightarrow> u32 list \<Rightarrow> u32 list" where
  "CHACHA_QUARTERROUND i j k l x =
     (let a = x ! i; b = x ! j; c = x ! k; d = x ! l;
          a = a + b; d = rol32 (d XOR a) 16;
          c = c + d; b = rol32 (b XOR c) 12;
          a = a + b; d = rol32 (d XOR a) 8;
          c = c + d; b = rol32 (b XOR c) 7
      in x[i := a, j := b, k := c, l := d])"

definition chacha_double_round :: "u32 list \<Rightarrow> u32 list" where
  "chacha_double_round x =
     (let x = CHACHA_QUARTERROUND 0 4 8 12 x;
          x = CHACHA_QUARTERROUND 1 5 9 13 x;
          x = CHACHA_QUARTERROUND 2 6 10 14 x;
          x = CHACHA_QUARTERROUND 3 7 11 15 x;
          x = CHACHA_QUARTERROUND 0 5 10 15 x;
          x = CHACHA_QUARTERROUND 1 6 11 12 x;
          x = CHACHA_QUARTERROUND 2 7 8 13 x;
          x = CHACHA_QUARTERROUND 3 4 9 14 x
      in x)"

text \<open>
  The round loop counts down by two and stops at zero exactly, so it returns for positive
  even counts only; a call that does not return is \<open>None\<close>.
\<close>

partial_function (option) chacha_permute :: "u32 list \<Rightarrow> int \<Rightarrow> u32 list option" where
  [code]: "chacha_permute x rounds =
     (let x = chacha_double_round x; rounds = rounds - 2
      in if rounds \<noteq> 0 then chacha_permute x rounds else Some x)"

definition chacha_keystream :: "u32 list \<Rightarrow> u32 list \<Rightarrow> bytes" where
  "chacha_keystream x state = concat (map (\<lambda>j. put_unaligned_le32 (x ! j + state ! j)) [0..<16])"

definition chacha_next_block :: "u32 list \<Rightarrow> u32 list" where
  "chacha_next_block state =
     (let state = state[12 := state ! 12 + 1]
      in if state ! 12 = 0 then state[13 := state ! 13 + 1] else state)"

fun xchacha_loop :: "int \<Rightarrow> u32 list \<Rightarrow> bytes \<Rightarrow> bytes option" where
  "xchacha_loop rounds state src =
     (if src = [] then Some []
      else Option.bind (chacha_permute state rounds) (\<lambda>x.
           Option.bind (xchacha_loop rounds (chacha_next_block state) (drop 64 src)) (\<lambda>dst.
             Some (xor_out src (chacha_keystream x state) (min (length src) 64) @ dst))))"

declare xchacha_loop.simps [simp del]

definition xchacha_real_key :: "u32 list \<Rightarrow> bytes" where
  "xchacha_real_key state =
     concat (map (\<lambda>i. put_unaligned_le32 (state ! ((if i < 4 then 0 else 8) + i))) [0..<8])"

definition xchacha :: "bytes \<Rightarrow> bytes \<Rightarrow> bytes \<Rightarrow> int \<Rightarrow> bytes option" where
  "xchacha key nonce src rounds =
     Option.bind (chacha_permute (chacha_init_state key nonce) rounds) (\<lambda>state.
       let real_key = xchacha_real_key state;
           real_iv = replicate 8 0 @ slice nonce 16 8
       in xchacha_loop rounds (chacha_init_state real_key real_iv) src)"

definition xchacha12 :: "bytes \<Rightarrow> bytes \<Rightarrow> bytes \<Rightarrow> bytes option" where
  "xchacha12 key nonce src = xchacha key nonce src 12"

section \<open>NH and the Adiantum hash\<close>

fun nh_pass_loop :: "u32 list \<Rightarrow> bytes \<Rightarrow> u64 \<Rightarrow> u64" where
  "nh_pass_loop key msg acc =
     (if msg = [] then acc
      else let acc = acc + ucast (get_unaligned_le32 msg + key ! 0) * ucast (get_unaligned_le32 (drop 8 msg) + key ! 2);
               acc = acc + ucast (get_unaligned_le32 (drop 4 msg) + key ! 1) * ucast (get_unaligned_le32 (drop 12 msg) + key ! 3)
           in nh_pass_loop (drop 4 key) (drop 16 msg) acc)"

declare nh_pass_loop.simps [simp del]

definition nh_pass :: "u32 list \<Rightarrow> bytes \<Rightarrow> u64 result" where
  "nh_pass key msg =
     bindr (assertr (length msg mod 16 = 0) ''msglen % NH_MESSAGE_UNIT == 0'') (\<lambda>_.
       Inr (nh_pass_loop key msg 0))"

definition NH_KEY_SIZE :: nat where "NH_KEY_SIZE = 1072"
definition NH_KEY_WORDS :: nat where "NH_KEY_WORDS = NH_KEY_SIZE div 4"
definition NH_BLOCK_SIZE :: nat where "NH_BLOCK_SIZE = 1024"
definition NH_HASH_SIZE :: nat where "NH_HASH_SIZE = 32"
definition ADIANTUM_HASH_KEY_SIZE :: nat where "ADIANTUM_HASH_KEY_SIZE = 2 * 16 + NH_KEY_SIZE"

fun nh_loop :: "nat \<Rightarrow> u32 list \<Rightarrow> bytes \<Rightarrow> bytes result" where
  "nh_loop 0 key msg = Inr []"
| "nh_loop (Suc n) key msg =
     bindr (nh_pass key msg) (\<lambda>acc.
     bindr (nh_loop n (drop 4 key) msg) (\<lambda>result.
       Inr (put_unaligned_le64 acc @ result)))"

definition nh :: "u32 list \<Rightarrow> bytes \<Rightarrow> bytes result" where
  "nh key msg = nh_loop (NH_HASH_SIZE div 8) key msg"

text \<open>The NH hashes of the blocks \<open>i\<close>, \<open>i + 1\<close>, ... of the padded message, \<open>n\<close> of them.\<close>

fun nh_blocks :: "u32 list \<Rightarrow> bytes \<Rightarrow> nat \<Rightarrow> nat \<Rightarrow> bytes result" where
  "nh_blocks key padded_msg i 0 = Inr []"
| "nh_blocks key padded_msg i (Suc n) =
     bindr (nh key (slice padded_msg (i * NH_BLOCK_SIZE)
                      (min NH_BLOCK_SIZE (length padded_msg - i * NH_BLOCK_SIZE)))) (\<lambda>h.
     bindr (nh_blocks key padded_msg (Suc i) n) (\<lambda>hs. Inr (h @ hs)))"

definition adiantum_hash :: "bytes \<Rightarrow> bytes \<Rightarrow> bytes \<Rightarrow> le128 result" where
  "adiantum_hash key iv msg =
     (let header_poly_key = key;
          msg_poly_key = drop 16 header_poly_key;
          nh_key = drop 16 msg_poly_key;
          msglen = length msg;
          num_nh_blocks = DIV_ROUND_UP msglen NH_BLOCK_SIZE;
          padded_msglen = ROUND_UP msglen 16;
          nh_key_words = map (\<lambda>i. get_unaligned_le32 (drop (i * 4) nh_key)) [0..<NH_KEY_WORDS];
          header = put_unaligned_le64 (of_nat msglen * 8) @ put_unaligned_le64 0 @ take 32 iv
      in bindr (poly1305 header_poly_key header) (\<lambda>hash1.
         let padded_msg = msg @ replicate (padded_msglen - msglen) 0
         in bindr (nh_blocks nh_key_words padded_msg 0 num_nh_blocks) (\<lambda>nh_hashes.
            bindr (poly1305 msg_poly_key nh_hashes) (\<lambda>hash2.
              Inr (le128_add hash1 hash2)))))"

section \<open>Adiantum\<close>

text \<open>A call that never returns stops the caller as well.\<close>

definition returned :: "'a option \<Rightarrow> 'a result" where
  "returned r = (case r of None \<Rightarrow> Inl NoReturn | Some x \<Rightarrow> Inr x)"

definition adiantum_crypt :: "bytes \<Rightarrow> bytes \<Rightarrow> bytes \<Rightarrow> bool \<Rightarrow> bytes result" where
  "adiantum_crypt key iv src decrypting =
     (let nbytes = length src; bulk_len = nbytes - 16
      in bindr (assertr (nbytes \<ge> 16) ''nbytes >= sizeof(u.block)'') (\<lambda>_.
         bindr (returned (xchacha12 key (1 # replicate 23 0)
                  (replicate (AES_256_KEY_SIZE + ADIANTUM_HASH_KEY_SIZE) 0))) (\<lambda>subkeys.
         bindr (aes_setkey subkeys AES_256_KEY_SIZE) (\<lambda>aes_key.
         bindr (adiantum_hash (drop AES_256_KEY_SIZE subkeys) iv (take bulk_len src)) (\<lambda>hash.
           let block = bytes_of_le128 (le128_add (le128_of_bytes (drop bulk_len src)) hash);
               block = (if \<not> decrypting then aes_encrypt aes_key block else block);
               nonce = block @ (1 # replicate 7 0)
           in bindr (returned (xchacha12 key nonce (take bulk_len src))) (\<lambda>dst.
              let block = (if decrypting then aes_decrypt aes_key block else block)
              in bindr (adiantum_hash (drop AES_256_KEY_SIZE subkeys) iv dst) (\<lambda>hash.
                   Inr (dst @ bytes_of_le128 (le128_sub (le128_of_bytes block) hash)))))))))"

definition adiantum_encrypt :: "bytes \<Rightarrow> bytes \<Rightarrow> bytes \<Rightarrow> bytes result" where
  "adiantum_encrypt key iv src = adiantum_crypt key iv src False"

definition adiantum_decrypt :: "bytes \<Rightarrow> bytes \<Rightarrow> bytes \<Rightarrow> bytes result" where
  "adiantum_decrypt key iv src = adiantum_crypt key iv src True"

section \<open>The keystream\<close>

text \<open>The keystream from a state: one permuted block per counter value, \<open>n\<close> blocks of it.\<close>

fun chacha_stream :: "nat \<Rightarrow> u32 list \<Rightarrow> nat \<Rightarrow> bytes" where
  "chacha_stream r state 0 = []"
| "chacha_stream r state (Suc n) =
     chacha_keystream ((chacha_double_round ^^ r) state) state @ chacha_stream r (chacha_next_block state) n"

definition xchacha12_stream :: "bytes \<Rightarrow> bytes \<Rightarrow> nat \<Rightarrow> bytes" where
  "xchacha12_stream key nonce len =
     (let state = (chacha_double_round ^^ 6) (chacha_init_state key nonce)
      in chacha_stream 6 (chacha_init_state (xchacha_real_key state) (replicate 8 0 @ slice nonce 16 8))
           ((len + 63) div 64))"

section \<open>XChaCha is a stream cipher\<close>

lemma chacha_permute_returns:
  "chacha_permute x (2 * int (Suc n)) = Some ((chacha_double_round ^^ Suc n) x)"
proof (induction n arbitrary: x)
  case 0
  show ?case by (subst chacha_permute.simps) (simp add: Let_def)
next
  case (Suc n)
  have "2 * int (Suc (Suc n)) - 2 = 2 * int (Suc n)" by simp
  then have "chacha_permute x (2 * int (Suc (Suc n))) = chacha_permute (chacha_double_round x) (2 * int (Suc n))"
    by (subst chacha_permute.simps) (simp only: Let_def, simp)
  also have "\<dots> = Some ((chacha_double_round ^^ Suc n) (chacha_double_round x))" by (rule Suc.IH)
  finally show ?case by (simp only: funpow_swap1 funpow.simps comp_apply)
qed

lemma length_chacha_keystream [simp, len_simps]: "length (chacha_keystream x state) = 64"
proof -
  have "length (concat (map (\<lambda>j. put_unaligned_le32 (x ! j + state ! j)) [0..<16])) = 4 * 16"
    by (subst length_concat_fixed [of _ 4]) auto
  then show ?thesis by (simp add: chacha_keystream_def)
qed

lemma length_chacha_stream [simp, len_simps]: "length (chacha_stream r state n) = 64 * n"
  by (induction n arbitrary: state) simp_all

lemma xor_bytes_first_block:
  assumes "length ks = 64" and "src \<noteq> []"
  shows "xor_out src ks (min (length src) 64) @ xor_bytes (drop 64 src) s = xor_bytes src (ks @ s)"
proof (cases "length src \<le> 64")
  case True
  then have "xor_bytes src (ks @ s) = xor_bytes src (take (length src) ks)"
    using assms xor_bytes_take_left [of src "length src" "ks @ s"] xor_bytes_commute by simp
  then show ?thesis using True assms by (simp add: xor_into_eq xor_bytes_def)
next
  case False
  then have "xor_bytes src (ks @ s) = xor_bytes (take 64 src @ drop 64 src) (ks @ s)" by simp
  also have "\<dots> = xor_bytes (take 64 src) ks @ xor_bytes (drop 64 src) s"
    using False assms by (intro xor_bytes_append) simp
  finally show ?thesis using False assms by (simp add: xor_into_eq)
qed

lemma xchacha_loop_stream:
  "xchacha_loop (2 * int (Suc r)) state src =
     Some (xor_bytes src (chacha_stream (Suc r) state ((length src + 63) div 64)))"
proof (induction src arbitrary: state rule: length_induct)
  case (1 src)
  show ?case
  proof (cases "src = []")
    case True
    then show ?thesis by (subst xchacha_loop.simps) (simp add: xor_bytes_def)
  next
    case False
    have n: "(length src + 63) div 64 = Suc ((length (drop 64 src) + 63) div 64)"
    proof (cases "length src \<le> 64")
      case True
      moreover have "0 < length src" using False by simp
      ultimately have "(length src + 63) div 64 = 1" by (intro div_nat_eqI) (simp_all add: Suc_le_eq)
      then show ?thesis using True by simp
    next
      case False
      then have "length src + 63 = (length (drop 64 src) + 63) + 64" by simp
      then show ?thesis by simp
    qed
    have "xchacha_loop (2 * int (Suc r)) (chacha_next_block state) (drop 64 src) =
        Some (xor_bytes (drop 64 src)
          (chacha_stream (Suc r) (chacha_next_block state) ((length (drop 64 src) + 63) div 64)))"
      using 1 False by simp
    then show ?thesis
      using False n chacha_permute_returns [of state r]
      by (subst xchacha_loop.simps) (simp add: xor_bytes_first_block del: of_nat_Suc funpow.simps)
  qed
qed

lemma xchacha12_eq: "xchacha12 key nonce src = Some (xor_bytes src (xchacha12_stream key nonce (length src)))"
proof -
  have twelve: "(12 :: int) = 2 * int (Suc 5)" and six: "Suc 5 = 6" by simp_all
  show ?thesis
    unfolding xchacha12_def xchacha_def twelve chacha_permute_returns xchacha_loop_stream xchacha12_stream_def
    by (simp only: six bind.bind_lunit Let_def)
qed

lemma length_xchacha12_stream: "len \<le> length (xchacha12_stream key nonce len)"
  by (simp add: xchacha12_stream_def Let_def)

lemma xchacha12_involution:
  "\<exists>dst. xchacha12 key nonce src = Some dst \<and> length dst = length src \<and> xchacha12 key nonce dst = Some src"
  using length_xchacha12_stream [of "length src" key nonce]
  by (simp add: xchacha12_eq xor_bytes_cancel min_absorb1)

section \<open>The Adiantum hash is total\<close>

lemma poly1305_ok: "length msg mod 16 = 0 \<Longrightarrow> \<exists>d. poly1305 key msg = Inr d"
  by (simp add: poly1305_def Let_def)

lemma nh_loop_ok: "length msg mod 16 = 0 \<Longrightarrow> \<exists>h. nh_loop n key msg = Inr h \<and> length h = 8 * n"
proof (induction n arbitrary: key)
  case (Suc n)
  from Suc.IH [OF Suc.prems, of "drop 4 key"]
  obtain h where "nh_loop n (drop 4 key) msg = Inr h" "length h = 8 * n" by auto
  then show ?case using Suc.prems by (simp add: nh_pass_def)
qed simp

lemma nh_blocks_ok:
  "length msg mod 16 = 0 \<Longrightarrow> \<exists>h. nh_blocks key msg i n = Inr h \<and> length h = 32 * n"
proof (induction n arbitrary: i)
  case (Suc n)
  let ?b = "slice msg (i * NH_BLOCK_SIZE) (min NH_BLOCK_SIZE (length msg - i * NH_BLOCK_SIZE))"
  have "length ?b = min 1024 (length msg - 16 * (i * 64))"
    by (simp add: slice_def NH_BLOCK_SIZE_def)
  moreover have "(length msg - 16 * (i * 64)) mod 16 = 0"
    using Suc.prems by (simp add: mod_eq_0_iff_dvd)
  ultimately have "length ?b mod 16 = 0" by (simp add: min_def)
  then obtain h where "nh key ?b = Inr h" "length h = 32"
    using nh_loop_ok [of ?b 4 key] by (auto simp: nh_def NH_HASH_SIZE_def)
  moreover obtain hs where "nh_blocks key msg (Suc i) n = Inr hs" "length hs = 32 * n"
    using Suc.IH [OF Suc.prems, of "Suc i"] by auto
  ultimately show ?case by simp
qed simp

lemma adiantum_hash_ok:
  assumes "length iv = 32"
  shows "\<exists>d. adiantum_hash key iv msg = Inr d"
proof -
  let ?padded = "msg @ replicate (ROUND_UP (length msg) 16 - length msg) 0"
  have "16 dvd ROUND_UP (length msg) 16" "length msg \<le> ROUND_UP (length msg) 16"
    using ROUND_UP_dvd [of 4 "length msg"] ROUND_UP_ge [of "length msg" 4] by simp_all
  then have "length ?padded mod 16 = 0" by simp
  from nh_blocks_ok [OF this] obtain hs where hs: "nh_blocks (map (\<lambda>i. get_unaligned_le32 (drop (i * 4) (drop 16 (drop 16 key)))) [0..<NH_KEY_WORDS])
      ?padded 0 (DIV_ROUND_UP (length msg) NH_BLOCK_SIZE) = Inr hs"
    and "length hs = 32 * DIV_ROUND_UP (length msg) NH_BLOCK_SIZE"
    by metis
  then have "length hs mod 16 = 0" by simp
  from poly1305_ok [OF this, of "drop 16 key"] obtain d2 where d2: "poly1305 (drop 16 key) hs = Inr d2" by auto
  obtain d1 where d1: "poly1305 key (put_unaligned_le64 (of_nat (length msg) * 8) @ put_unaligned_le64 0 @ take 32 iv) = Inr d1"
    using assms poly1305_ok [of "put_unaligned_le64 (of_nat (length msg) * 8) @ put_unaligned_le64 0 @ take 32 iv" key] by auto
  show ?thesis
    using d1 d2 hs by (simp add: adiantum_hash_def Let_def add.commute)
qed

lemma adiantum_crypt_form:
  assumes "length iv = 32"
  shows "\<exists>k h. \<forall>src decrypting. 16 \<le> length src \<longrightarrow>
    adiantum_crypt key iv src decrypting =
      (let bulk = take (length src - 16) src;
           block = bytes_of_le128 (le128_add (le128_of_bytes (drop (length src - 16) src)) (h bulk));
           block = (if decrypting then block else aes_encrypt k block);
           dst = xor_bytes bulk (xchacha12_stream key (block @ (1 # replicate 7 0)) (length bulk));
           block = (if decrypting then aes_decrypt k block else block)
       in Inr (dst @ bytes_of_le128 (le128_sub (le128_of_bytes block) (h dst))))"
proof -
  define subkeys where "subkeys = xor_bytes (replicate (AES_256_KEY_SIZE + ADIANTUM_HASH_KEY_SIZE) 0)
    (xchacha12_stream key (1 # replicate 23 0) (AES_256_KEY_SIZE + ADIANTUM_HASH_KEY_SIZE))"
  obtain k where k: "aes_setkey subkeys 32 = Inr k" using aes_setkey_Inr_iff by fastforce
  have "\<forall>msg. \<exists>d. adiantum_hash (drop 32 subkeys) iv msg = Inr d" using adiantum_hash_ok [OF assms] by blast
  then obtain h where h: "\<And>msg. adiantum_hash (drop 32 subkeys) iv msg = Inr (h msg)" by metis
  have s: "xchacha12 key (1 # replicate 23 0) (replicate (AES_256_KEY_SIZE + ADIANTUM_HASH_KEY_SIZE) 0) = Some subkeys"
    by (simp add: xchacha12_eq subkeys_def)
  show ?thesis
    unfolding adiantum_crypt_def s
    by (rule exI [of _ k], rule exI [of _ h])
      (auto simp add: Let_def returned_def k h xchacha12_eq)
qed

lemma adiantum_ok:
  assumes "length iv = 32" and "16 \<le> length src"
  shows "\<exists>dst. adiantum_encrypt key iv src = Inr dst \<and> length dst = length src \<and>
    adiantum_decrypt key iv dst = Inr src"
proof -
  obtain k h where form: "\<And>src decrypting. 16 \<le> length src \<Longrightarrow>
    adiantum_crypt key iv src decrypting =
      (let bulk = take (length src - 16) src;
           block = bytes_of_le128 (le128_add (le128_of_bytes (drop (length src - 16) src)) (h bulk));
           block = (if decrypting then block else aes_encrypt k block);
           dst = xor_bytes bulk (xchacha12_stream key (block @ (1 # replicate 7 0)) (length bulk));
           block = (if decrypting then aes_decrypt k block else block)
       in Inr (dst @ bytes_of_le128 (le128_sub (le128_of_bytes block) (h dst))))"
    using adiantum_crypt_form [OF assms(1), of key] by metis
  define n where "n = length src - 16"
  define bulk where "bulk = take n src"
  define block where "block = bytes_of_le128 (le128_add (le128_of_bytes (drop n src)) (h bulk))"
  define C where "C = aes_encrypt k block"
  define S where "S = xchacha12_stream key (C @ (1 # replicate 7 0)) n"
  define dst where "dst = xor_bytes bulk S"
  define T where "T = bytes_of_le128 (le128_sub (le128_of_bytes C) (h dst))"
  have l: "length bulk = n" "n \<le> length S" "length block = 16"
    using length_xchacha12_stream by (simp_all add: bulk_def n_def S_def block_def)
  have ld: "length dst = n" "length T = 16" using l by (simp_all add: dst_def T_def)
  have enc: "adiantum_encrypt key iv src = Inr (dst @ T)"
    using form [OF assms(2), of False] l
    by (simp add: adiantum_encrypt_def Let_def dst_def T_def S_def C_def block_def bulk_def flip: n_def)
  have "bytes_of_le128 (le128_add (le128_of_bytes T) (h dst)) = C"
    by (simp add: T_def le128_add_sub bytes_of_le128_of_bytes C_def)
  moreover have "xor_bytes dst S = bulk" using l by (simp add: dst_def xor_bytes_cancel)
  moreover have "aes_decrypt k C = block" using l by (simp add: C_def aes_decrypt_encrypt)
  moreover have "bytes_of_le128 (le128_sub (le128_of_bytes block) (h bulk)) = drop n src"
    using assms(2) by (simp add: block_def le128_sub_add bytes_of_le128_of_bytes n_def)
  ultimately have "adiantum_decrypt key iv (dst @ T) = Inr (bulk @ drop n src)"
    using form [of "dst @ T" True] ld by (simp add: adiantum_decrypt_def Let_def flip: S_def)
  then show ?thesis using enc ld assms(2) by (simp add: bulk_def n_def)
qed

interpretation adiantum: sector_cipher adiantum_encrypt adiantum_decrypt
  "\<lambda>key. length key = 32" "\<lambda>n. 16 \<le> n"
  by (rule sector_cipherI) (rule adiantum_ok)

section \<open>Properties\<close>

text \<open>
  C20. XChaCha12 returns for every key, nonce and message: the rounds loop, which counts down by two until
  it hits zero exactly, ends.  The result has the length of the message, and the same call on it
  gives the message back.
\<close>

theorem xchacha12_returns_and_inverts:
  "\<exists>dst. xchacha12 key nonce src = Some dst \<and> length dst = length src \<and> xchacha12 key nonce dst = Some src"
  by (rule xchacha12_involution)

text \<open>
  C21. Adiantum: every message of at least one block is encrypted to a message of its length and decrypted
  to itself.
\<close>

theorem adiantum_decrypts_to_plaintext:
  assumes "length iv = 32" and "16 \<le> length src"
  shows "\<exists>dst. adiantum_encrypt key iv src = Inr dst \<and> length dst = length src \<and>
    adiantum_decrypt key iv dst = Inr src"
  using assms by (rule adiantum_ok)

theorem adiantum_decrypts_to_plaintext_witness:
  "\<exists>dst. adiantum_encrypt (replicate 32 7) (replicate 32 1) (replicate 37 9) = Inr dst \<and> length dst = 37 \<and>
    adiantum_decrypt (replicate 32 7) (replicate 32 1) dst = Inr (replicate 37 9)"
  using adiantum_decrypts_to_plaintext [of "replicate 32 1" "replicate 37 9" "replicate 32 7"] by simp

end
