(* ===== verification/Fscrypt.thy ===== *)
theory Fscrypt
  imports Adiantum
begin

text \<open>
  The main program of \<open>src/src/fscrypt-crypt-util.c\<close>: SipHash, the cipher table, the loop that
  reads, pads, encrypts or decrypts and writes the data units, key derivation, IV generation,
  option parsing and \<open>main\<close>.  Reading and writing go through the \<open>read\<close> and \<open>write\<close> system
  calls, which are parameters: functions on an abstract state that may transfer fewer bytes than
  asked for, or fail.
\<close>

section \<open>SipHash\<close>

definition SIPROUND :: "u64 \<times> u64 \<times> u64 \<times> u64 \<Rightarrow> u64 \<times> u64 \<times> u64 \<times> u64" where
  "SIPROUND v =
     (case v of (v0, v1, v2, v3) \<Rightarrow>
        let v0 = v0 + v1; v2 = v2 + v3;
            v1 = rol64 v1 13; v3 = rol64 v3 16;
            v1 = v1 XOR v0; v3 = v3 XOR v2;
            v0 = rol64 v0 32;
            v2 = v2 + v1; v0 = v0 + v3;
            v1 = rol64 v1 17; v3 = rol64 v3 21;
            v1 = v1 XOR v2; v3 = v3 XOR v0;
            v2 = rol64 v2 32
        in (v0, v1, v2, v3))"

definition siphash_compress :: "u64 \<Rightarrow> u64 \<times> u64 \<times> u64 \<times> u64 \<Rightarrow> u64 \<times> u64 \<times> u64 \<times> u64" where
  "siphash_compress m v =
     (case v of (v0, v1, v2, v3) \<Rightarrow>
      case SIPROUND (SIPROUND (v0, v1, v2, v3 XOR m)) of (v0, v1, v2, v3) \<Rightarrow> (v0 XOR m, v1, v2, v3))"

definition siphash_1u64 :: "u64 \<Rightarrow> u64 \<Rightarrow> u64 \<Rightarrow> u64" where
  "siphash_1u64 key0 key1 data =
     (let v0 = key0 XOR 0x736f6d6570736575;
          v1 = key1 XOR 0x646f72616e646f6d;
          v2 = key0 XOR 0x6c7967656e657261;
          v3 = key1 XOR 0x7465646279746573;
          m = [data, push_bit 56 8]
      in case fold siphash_compress m (v0, v1, v2, v3) of (v0, v1, v2, v3) \<Rightarrow>
         case (SIPROUND ^^ 4) (v0, v1, v2 XOR 0xff, v3) of (v0, v1, v2, v3) \<Rightarrow>
           v0 XOR v1 XOR v2 XOR v3)"

section \<open>The cipher table\<close>

definition FILE_NONCE_SIZE :: nat where "FILE_NONCE_SIZE = 16"
definition UUID_SIZE :: nat where "UUID_SIZE = 16"
definition MAX_KEY_SIZE :: nat where "MAX_KEY_SIZE = 64"
definition MAX_IV_SIZE :: nat where "MAX_IV_SIZE = 32"

record fscrypt_cipher =
  cipher_name :: string
  cipher_encrypt :: "bytes \<Rightarrow> bytes \<Rightarrow> bytes \<Rightarrow> bytes result"
  cipher_decrypt :: "bytes \<Rightarrow> bytes \<Rightarrow> bytes \<Rightarrow> bytes result"
  keysize :: nat
  min_input_size :: nat

definition fscrypt_ciphers :: "fscrypt_cipher list" where
  "fscrypt_ciphers =
     [\<lparr>cipher_name = ''AES-256-XTS'',
       cipher_encrypt = aes_256_xts_encrypt, cipher_decrypt = aes_256_xts_decrypt,
       keysize = 2 * AES_256_KEY_SIZE, min_input_size = 0\<rparr>,
      \<lparr>cipher_name = ''AES-256-CTS-CBC'',
       cipher_encrypt = aes_256_cts_cbc_encrypt, cipher_decrypt = aes_256_cts_cbc_decrypt,
       keysize = AES_256_KEY_SIZE, min_input_size = AES_BLOCK_SIZE\<rparr>,
      \<lparr>cipher_name = ''AES-128-CBC-ESSIV'',
       cipher_encrypt = aes_128_cbc_essiv_encrypt, cipher_decrypt = aes_128_cbc_essiv_decrypt,
       keysize = AES_128_KEY_SIZE, min_input_size = 0\<rparr>,
      \<lparr>cipher_name = ''AES-128-CTS-CBC'',
       cipher_encrypt = aes_128_cts_cbc_encrypt, cipher_decrypt = aes_128_cts_cbc_decrypt,
       keysize = AES_128_KEY_SIZE, min_input_size = AES_BLOCK_SIZE\<rparr>,
      \<lparr>cipher_name = ''AES-256-HCTR2'',
       cipher_encrypt = aes_256_hctr2_encrypt, cipher_decrypt = aes_256_hctr2_decrypt,
       keysize = AES_256_KEY_SIZE, min_input_size = AES_BLOCK_SIZE\<rparr>,
      \<lparr>cipher_name = ''Adiantum'',
       cipher_encrypt = adiantum_encrypt, cipher_decrypt = adiantum_decrypt,
       keysize = 32, min_input_size = AES_BLOCK_SIZE\<rparr>]"

definition find_fscrypt_cipher :: "string \<Rightarrow> fscrypt_cipher option" where
  "find_fscrypt_cipher name = List.find (\<lambda>c. cipher_name c = name) fscrypt_ciphers"

section \<open>Reading, crypting and writing data units\<close>

text \<open>
  A \<open>read\<close> system call on state \<open>s\<close> for at most \<open>count\<close> bytes fails (\<open>None\<close>) or returns
  the bytes it transferred, no bytes at the end of the file.
\<close>

type_synonym 's read_call = "'s \<Rightarrow> nat \<Rightarrow> ('s \<times> bytes) option"
type_synonym 'w write_call = "'w \<Rightarrow> bytes \<Rightarrow> ('w \<times> nat) option"

function xread :: "'s read_call \<Rightarrow> 's \<Rightarrow> nat \<Rightarrow> ('s \<times> bytes) result" where
  "xread read s count =
     (if count = 0 then Inr (s, [])
      else case read s count of
        None \<Rightarrow> Inl (Die ''read error'')
      | Some (s', res) \<Rightarrow>
          if length res = 0 then Inr (s', [])
          else bindr (xread read s' (count - length res)) (\<lambda>(s'', rest). Inr (s'', res @ rest)))"
  by pat_completeness auto
termination
  by (relation "measure (\<lambda>(read, s, count). count)") auto

declare xread.simps [simp del]

text \<open>A \<open>write\<close> that keeps transferring nothing makes \<open>full_write\<close> loop: the result is \<open>None\<close>.\<close>

partial_function (option) full_write :: "'w write_call \<Rightarrow> 'w \<Rightarrow> bytes \<Rightarrow> 'w result option" where
  [code]: "full_write write w buf =
     (if buf = [] then Some (Inr w)
      else case write w buf of
        None \<Rightarrow> Some (Inl (Die ''write error''))
      | Some (w', res) \<Rightarrow> full_write write w' (drop res buf))"

text \<open>
  The union \<open>fscrypt_iv\<close> is its 32 bytes.  The 64-bit index, or the 32-bit one, is at offset 0, the
  inode number at offset 4 and the nonce at offset 8.
\<close>

definition get_data_unit_index :: "bytes \<Rightarrow> u64" where
  "get_data_unit_index iv = get_unaligned_le64 iv"

definition set_data_unit_index :: "bytes \<Rightarrow> u64 \<Rightarrow> bytes" where
  "set_data_unit_index iv i = put_at iv 0 (put_unaligned_le64 i)"

definition get_data_unit_index32 :: "bytes \<Rightarrow> u32" where
  "get_data_unit_index32 iv = get_unaligned_le32 iv"

definition set_data_unit_index32 :: "bytes \<Rightarrow> u32 \<Rightarrow> bytes" where
  "set_data_unit_index32 iv i = put_at iv 0 (put_unaligned_le32 i)"

definition next_iv :: "bool \<Rightarrow> bytes \<Rightarrow> bytes" where
  "next_iv is_data_unit_index_32bit iv =
     (if is_data_unit_index_32bit
      then set_data_unit_index32 iv (get_data_unit_index32 iv + 1)
      else set_data_unit_index iv (get_data_unit_index iv + 1))"

definition unit_crypt_len :: "fscrypt_cipher \<Rightarrow> nat \<Rightarrow> nat \<Rightarrow> nat \<Rightarrow> nat" where
  "unit_crypt_len cipher data_unit_size padding res =
     (if padding > 0 then
        let crypt_len = max res (min_input_size cipher);
            crypt_len = ROUND_UP crypt_len padding
        in min crypt_len data_unit_size
      else data_unit_size)"

definition crypt_unit :: "fscrypt_cipher \<Rightarrow> bytes \<Rightarrow> bytes \<Rightarrow> bool \<Rightarrow> nat \<Rightarrow> nat \<Rightarrow> bytes \<Rightarrow> bytes result" where
  "crypt_unit cipher key iv decrypting data_unit_size padding buf =
     (let res = length buf;
          crypt_len = unit_crypt_len cipher data_unit_size padding res
      in bindr (assertr (crypt_len \<ge> res) ''crypt_len >= res'') (\<lambda>_.
         let buf = buf @ replicate (crypt_len - res) 0
         in if decrypting then cipher_decrypt cipher key iv buf else cipher_encrypt cipher key iv buf))"

partial_function (option) crypt_loop ::
  "'s read_call \<Rightarrow> 'w write_call \<Rightarrow> fscrypt_cipher \<Rightarrow> bytes \<Rightarrow> bytes \<Rightarrow> bool \<Rightarrow> nat \<Rightarrow> nat \<Rightarrow> bool \<Rightarrow> 's \<Rightarrow> 'w \<Rightarrow>
    ('s \<times> 'w) result option" where
  [code]: "crypt_loop read write cipher key iv decrypting data_unit_size padding is32 s w =
     (case xread read s data_unit_size of
        Inl e \<Rightarrow> Some (Inl e)
      | Inr (s', buf) \<Rightarrow>
          if length buf = 0 then Some (Inr (s', w))
          else case crypt_unit cipher key iv decrypting data_unit_size padding buf of
            Inl e \<Rightarrow> Some (Inl e)
          | Inr dst \<Rightarrow>
              Option.bind (full_write write w dst) (\<lambda>r. case r of
                Inl e \<Rightarrow> Some (Inl e)
              | Inr w' \<Rightarrow> crypt_loop read write cipher key (next_iv is32 iv) decrypting
                            data_unit_size padding is32 s' w'))"

section \<open>Options\<close>

datatype kdf_algorithm = KDF_NONE | KDF_AES_128_ECB | KDF_HKDF_SHA512

definition parse_kdf_algorithm :: "string \<Rightarrow> kdf_algorithm result" where
  "parse_kdf_algorithm arg =
     (if arg = ''none'' then Inr KDF_NONE
      else if arg = ''AES-128-ECB'' then Inr KDF_AES_128_ECB
      else if arg = ''HKDF-SHA512'' then Inr KDF_HKDF_SHA512
      else Inl (Die ''Unknown KDF''))"

text \<open>
  The C library's decimal conversions: optional white space, an optional sign, digits.  Without
  digits the value is 0 and nothing is consumed.  The results are the number as written, the rest
  of the string, and whether the value is out of range.
\<close>

definition isspace :: "char \<Rightarrow> bool" where
  "isspace c \<longleftrightarrow> of_char c \<in> {32, 9, 10, 11, 12, 13 :: nat}"

definition isdigit :: "char \<Rightarrow> bool" where
  "isdigit c \<longleftrightarrow> CHR ''0'' \<le> c \<and> c \<le> CHR ''9''"

definition digits_value :: "string \<Rightarrow> nat" where
  "digits_value ds = foldl (\<lambda>acc c. 10 * acc + (of_char c - 48)) 0 ds"

definition strto_decimal :: "string \<Rightarrow> bool \<times> nat \<times> string" where
  "strto_decimal s =
     (let t = dropWhile isspace s;
          neg = (t \<noteq> [] \<and> hd t = CHR ''-'');
          u = (if t \<noteq> [] \<and> (hd t = CHR ''-'' \<or> hd t = CHR ''+'') then tl t else t);
          ds = takeWhile isdigit u
      in if ds = [] then (False, 0, s) else (neg, digits_value ds, dropWhile isdigit u))"

definition strtoull :: "string \<Rightarrow> u64 \<times> string \<times> bool" where
  "strtoull s =
     (case strto_decimal s of (neg, v, rest) \<Rightarrow>
        if v \<ge> 2 ^ 64 then (- 1, rest, True)
        else (if neg then - of_nat v else of_nat v, rest, False))"

definition strtol :: "string \<Rightarrow> int \<times> string" where
  "strtol s =
     (case strto_decimal s of (neg, v, rest) \<Rightarrow>
        (if neg then max (- int v) (- (2 ^ 63)) else min (int v) (2 ^ 63 - 1), rest))"

definition parse_mode_number :: "string \<Rightarrow> u8 result" where
  "parse_mode_number arg =
     (case strtol arg of (num, tmp) \<Rightarrow>
        if num \<le> 0 \<or> tmp \<noteq> [] \<or> uint (word_of_int num :: u8) \<noteq> num
        then Inl (Die ''Invalid mode number'')
        else Inr (word_of_int num))"

section \<open>Keys and IVs\<close>

record key_and_iv_params =
  master_key :: bytes
  sw_secret :: bytes
  kdf :: kdf_algorithm
  enable_hw_kdf :: bool
  use_inlinecrypt_key :: bool
  mode_num :: u8
  file_nonce :: bytes
  file_nonce_specified :: bool
  direct_key :: bool
  iv_ino_lblk_64 :: bool
  iv_ino_lblk_32 :: bool
  data_unit_index :: u64
  inode_number :: u64
  fs_uuid :: bytes
  fs_uuid_specified :: bool

definition bytes_of_string :: "string \<Rightarrow> bytes" where
  "bytes_of_string s = map (\<lambda>c. of_nat (of_char c)) s"

text \<open>The array \<open>info\<close> starts with the string \<open>fscrypt\<close> and its terminating zero byte.\<close>

definition info_prefix :: bytes where
  "info_prefix = bytes_of_string ''fscrypt'' @ [0]"

definition HKDF_CONTEXT_KEY_IDENTIFIER_FOR_RAW_KEY :: u8 where "HKDF_CONTEXT_KEY_IDENTIFIER_FOR_RAW_KEY = 1"
definition HKDF_CONTEXT_PER_FILE_ENC_KEY :: u8 where "HKDF_CONTEXT_PER_FILE_ENC_KEY = 2"
definition HKDF_CONTEXT_DIRECT_KEY :: u8 where "HKDF_CONTEXT_DIRECT_KEY = 3"
definition HKDF_CONTEXT_IV_INO_LBLK_64_KEY :: u8 where "HKDF_CONTEXT_IV_INO_LBLK_64_KEY = 4"
definition HKDF_CONTEXT_DIRHASH_KEY :: u8 where "HKDF_CONTEXT_DIRHASH_KEY = 5"
definition HKDF_CONTEXT_IV_INO_LBLK_32_KEY :: u8 where "HKDF_CONTEXT_IV_INO_LBLK_32_KEY = 6"
definition HKDF_CONTEXT_INODE_HASH_KEY :: u8 where "HKDF_CONTEXT_INODE_HASH_KEY = 7"
definition HKDF_CONTEXT_KEY_IDENTIFIER_FOR_HW_WRAPPED_KEY :: u8 where
  "HKDF_CONTEXT_KEY_IDENTIFIER_FOR_HW_WRAPPED_KEY = 8"

definition hash_inode_number :: "key_and_iv_params \<Rightarrow> u32 result" where
  "hash_inode_number params =
     (let info = info_prefix @ [HKDF_CONTEXT_INODE_HASH_KEY]
      in bindr (dieif (kdf params \<noteq> KDF_HKDF_SHA512) ''--iv-ino-lblk-32 requires --kdf=HKDF-SHA512'') (\<lambda>_.
         bindr (hkdf_sha512 (sw_secret params) [] info 16) (\<lambda>hash_key.
           Inr (ucast (siphash_1u64 (get_unaligned_le64 hash_key) (get_unaligned_le64 (drop 8 hash_key))
                  (inode_number params))))))"

definition hw_kdf_label :: bytes where
  "hw_kdf_label = [0, 0, 0x40, 0, 0, 0, 0, 0, 0, 0, 0x20]"

definition hw_kdf_info :: "bytes \<Rightarrow> nat \<Rightarrow> nat \<Rightarrow> bytes" where
  "hw_kdf_info ctx derived_key_size i =
     put_unaligned_be32 (of_nat (1 + i div AES_BLOCK_SIZE)) @ hw_kdf_label @ [0] @ ctx @
     put_unaligned_be32 (of_nat (derived_key_size * 8))"

function hw_kdf_loop :: "bytes \<Rightarrow> bytes \<Rightarrow> nat \<Rightarrow> nat \<Rightarrow> bytes result" where
  "hw_kdf_loop mkey ctx derived_key_size i =
     (if i < derived_key_size then
        bindr (assertr (4 + length hw_kdf_label + 1 + length ctx + 4 \<le> 128)
                 ''sizeof(__be32) + sizeof(label) + 1 + ctx_size + sizeof(__be32) <= sizeof(info)'') (\<lambda>_.
        bindr (aes_256_cmac mkey (hw_kdf_info ctx derived_key_size i)) (\<lambda>block.
        bindr (hw_kdf_loop mkey ctx derived_key_size (i + AES_BLOCK_SIZE)) (\<lambda>rest.
          Inr (block @ rest))))
      else Inr [])"
  by pat_completeness auto
termination
  by (relation "measure (\<lambda>(mkey, ctx, n, i). n - i)") (auto simp: AES_BLOCK_SIZE_def)

declare hw_kdf_loop.simps [simp del]

definition hw_kdf :: "bytes \<Rightarrow> bytes \<Rightarrow> nat \<Rightarrow> bytes result" where
  "hw_kdf mkey ctx derived_key_size =
     bindr (dieif (length mkey \<noteq> AES_256_KEY_SIZE) ''--hw-kdf requires a 32-byte master key'') (\<lambda>_.
     bindr (assertr (derived_key_size mod AES_BLOCK_SIZE = 0) ''derived_key_size % AES_BLOCK_SIZE == 0'') (\<lambda>_.
       hw_kdf_loop mkey ctx derived_key_size 0))"

definition INLINECRYPT_KEY_SIZE :: nat where "INLINECRYPT_KEY_SIZE = 64"
definition SW_SECRET_SIZE :: nat where "SW_SECRET_SIZE = 32"

definition derive_inline_encryption_key :: "bytes \<Rightarrow> bytes result" where
  "derive_inline_encryption_key mkey =
     (let ctx = bytes_of_string ''inline encryption key'' @
                [0, 0, 0, 0, 0, 0, 0x02, 0x43, 0, 0x82, 0x50, 0, 0, 0, 0]
      in hw_kdf mkey ctx INLINECRYPT_KEY_SIZE)"

definition derive_sw_secret :: "bytes \<Rightarrow> bytes result" where
  "derive_sw_secret mkey =
     (let ctx = bytes_of_string ''raw secret'' @
                [0, 0, 0, 0, 0, 0, 0, 0, 0, 0x02, 0x17, 0, 0x80, 0x50, 0, 0, 0, 0]
      in hw_kdf mkey ctx SW_SECRET_SIZE)"

text \<open>The blocks of the secret encrypted in ECB mode, \<open>n\<close> bytes of them.\<close>

definition ecb_key :: "aes_key \<Rightarrow> bytes \<Rightarrow> nat \<Rightarrow> bytes" where
  "ecb_key k secret n = concat (map (\<lambda>i. aes_encrypt k (slice secret (16 * i) 16)) [0..<n div 16])"

definition hkdf_key_info :: "key_and_iv_params \<Rightarrow> bytes result" where
  "hkdf_key_info params =
     (if direct_key params then
        bindr (dieif (mode_num params = 0) ''--direct-key with KDF requires --mode-num'') (\<lambda>_.
          Inr (info_prefix @ [HKDF_CONTEXT_DIRECT_KEY, mode_num params]))
      else if iv_ino_lblk_64 params then
        bindr (dieif (mode_num params = 0) ''--iv-ino-lblk-64 with KDF requires --mode-num'') (\<lambda>_.
        bindr (dieif (\<not> fs_uuid_specified params) ''--iv-ino-lblk-64 with KDF requires --fs-uuid'') (\<lambda>_.
          Inr (info_prefix @ [HKDF_CONTEXT_IV_INO_LBLK_64_KEY, mode_num params] @ fs_uuid params)))
      else if iv_ino_lblk_32 params then
        bindr (dieif (mode_num params = 0) ''--iv-ino-lblk-32 with KDF requires --mode-num'') (\<lambda>_.
        bindr (dieif (\<not> fs_uuid_specified params) ''--iv-ino-lblk-32 with KDF requires --fs-uuid'') (\<lambda>_.
          Inr (info_prefix @ [HKDF_CONTEXT_IV_INO_LBLK_32_KEY, mode_num params] @ fs_uuid params)))
      else
        bindr (dieif (\<not> file_nonce_specified params)
                 ''--kdf=HKDF-SHA512 requires --file-nonce or --iv-ino-lblk-{64,32}'') (\<lambda>_.
          Inr (info_prefix @ [HKDF_CONTEXT_PER_FILE_ENC_KEY] @ file_nonce params)))"

definition derive_real_key :: "key_and_iv_params \<Rightarrow> nat \<Rightarrow> bytes result" where
  "derive_real_key params real_key_size =
     (if use_inlinecrypt_key params then
        bindr (dieif (\<not> enable_hw_kdf params) ''--use-inlinecrypt-key requires --enable-hw-kdf'') (\<lambda>_.
        bindr (dieif (\<not> iv_ino_lblk_64 params \<and> \<not> iv_ino_lblk_32 params)
                 ''--use-inlinecrypt-key requires one of --iv-ino-lblk-{64,32}'') (\<lambda>_.
        bindr (dieif (real_key_size \<noteq> INLINECRYPT_KEY_SIZE)
                 ''cipher not compatible with --use-inlinecrypt-key'') (\<lambda>_.
          derive_inline_encryption_key (master_key params))))
      else
        bindr (dieif (length (sw_secret params) < real_key_size) ''Master key is too short for cipher'') (\<lambda>_.
          case kdf params of
            KDF_NONE \<Rightarrow> Inr (take real_key_size (sw_secret params))
          | KDF_AES_128_ECB \<Rightarrow>
              bindr (dieif (\<not> file_nonce_specified params) ''--kdf=AES-128-ECB requires --file-nonce'') (\<lambda>_.
              bindr (assertr (real_key_size mod AES_BLOCK_SIZE = 0) ''real_key_size % AES_BLOCK_SIZE == 0'') (\<lambda>_.
              bindr (aes_setkey (file_nonce params) AES_128_KEY_SIZE) (\<lambda>k.
                Inr (ecb_key k (sw_secret params) real_key_size))))
          | KDF_HKDF_SHA512 \<Rightarrow>
              bindr (hkdf_key_info params) (\<lambda>info.
                hkdf_sha512 (sw_secret params) [] info real_key_size)))"

definition generate_iv :: "key_and_iv_params \<Rightarrow> bytes result" where
  "generate_iv params =
     (let iv = replicate MAX_IV_SIZE 0
      in if direct_key params then
           bindr (dieif (\<not> file_nonce_specified params) ''--direct-key requires --file-nonce'') (\<lambda>_.
             Inr (put_at (set_data_unit_index iv (data_unit_index params)) 8 (file_nonce params)))
         else if iv_ino_lblk_64 params then
           bindr (dieif (data_unit_index params > 0xffffffff)
                    ''iv-ino-lblk-64 cant use --data-unit-index > UINT32_MAX'') (\<lambda>_.
           bindr (dieif (inode_number params = 0) ''iv-ino-lblk-64 requires --inode-number'') (\<lambda>_.
           bindr (dieif (inode_number params > 0xffffffff)
                    ''iv-ino-lblk-64 cant use --inode-number > UINT32_MAX'') (\<lambda>_.
             Inr (put_at (set_data_unit_index32 iv (ucast (data_unit_index params))) 4
                    (put_unaligned_le32 (ucast (inode_number params)))))))
         else if iv_ino_lblk_32 params then
           bindr (dieif (data_unit_index params > 0xffffffff)
                    ''iv-ino-lblk-32 cant use --data-unit-index > UINT32_MAX'') (\<lambda>_.
           bindr (dieif (inode_number params = 0) ''iv-ino-lblk-32 requires --inode-number'') (\<lambda>_.
           bindr (hash_inode_number params) (\<lambda>h.
             Inr (set_data_unit_index32 iv (ucast (ucast h + data_unit_index params))))))
         else Inr (set_data_unit_index iv (data_unit_index params)))"

definition get_key_and_iv :: "key_and_iv_params \<Rightarrow> nat \<Rightarrow> (bytes \<times> bytes) result" where
  "get_key_and_iv params real_key_size =
     (let iv_methods = of_bool (direct_key params) + of_bool (iv_ino_lblk_64 params) +
                       of_bool (iv_ino_lblk_32 params) :: nat
      in bindr (dieif (iv_methods > 1) ''Conflicting IV methods specified'') (\<lambda>_.
         bindr (dieif (iv_methods > 0 \<and> kdf params = KDF_AES_128_ECB)
                  ''--kdf=AES-128-ECB is incompatible with IV method options'') (\<lambda>_.
         bindr (derive_real_key params real_key_size) (\<lambda>real_key.
         bindr (generate_iv params) (\<lambda>iv.
           Inr (real_key, iv))))))"

definition hex_digit :: "nat \<Rightarrow> char" where
  "hex_digit n = (if n < 10 then char_of (48 + n) else char_of (87 + n))"

text \<open>The conversion \<open>%02x\<close> of every byte.\<close>

definition print_hex :: "bytes \<Rightarrow> string" where
  "print_hex bs = concat (map (\<lambda>b. [hex_digit (unat b div 16), hex_digit (unat b mod 16)]) bs)"

definition do_dump_key_identifier :: "key_and_iv_params \<Rightarrow> string result" where
  "do_dump_key_identifier params =
     (let info = info_prefix @
            [if enable_hw_kdf params then HKDF_CONTEXT_KEY_IDENTIFIER_FOR_HW_WRAPPED_KEY
             else HKDF_CONTEXT_KEY_IDENTIFIER_FOR_RAW_KEY]
      in bindr (dieif (kdf params \<noteq> KDF_HKDF_SHA512) ''--dump-key-identifier requires --kdf=HKDF-SHA512'') (\<lambda>_.
         bindr (hkdf_sha512 (sw_secret params) [] info 16) (\<lambda>key_identifier.
           Inr (print_hex key_identifier))))"

definition parse_master_key :: "string \<Rightarrow> key_and_iv_params \<Rightarrow> key_and_iv_params result" where
  "parse_master_key arg params =
     (case hex2bin arg MAX_KEY_SIZE of
        None \<Rightarrow> Inl (Die ''Invalid master_key'')
      | Some key \<Rightarrow>
          let params = params\<lparr>master_key := key\<rparr>
          in if enable_hw_kdf params then
               bindr (derive_sw_secret key) (\<lambda>secret. Inr (params\<lparr>sw_secret := secret\<rparr>))
             else Inr (params\<lparr>sw_secret := key\<rparr>))"

section \<open>The program\<close>

datatype option_code =
    OPT_DATA_UNIT_INDEX
  | OPT_DATA_UNIT_SIZE
  | OPT_DECRYPT
  | OPT_DIRECT_KEY
  | OPT_DUMP_KEY_IDENTIFIER
  | OPT_ENABLE_HW_KDF
  | OPT_FILE_NONCE
  | OPT_FS_UUID
  | OPT_HELP
  | OPT_INODE_NUMBER
  | OPT_IV_INO_LBLK_32
  | OPT_IV_INO_LBLK_64
  | OPT_KDF
  | OPT_MODE_NUM
  | OPT_PADDING
  | OPT_USE_INLINECRYPT_KEY
  | OPT_UNKNOWN

record main_options =
  opt_data_unit_size :: nat
  opt_decrypting :: bool
  opt_dump_key_identifier :: bool
  opt_padding :: nat
  opt_params :: key_and_iv_params

definition init_params :: key_and_iv_params where
  "init_params = \<lparr>master_key = [], sw_secret = [], kdf = KDF_NONE, enable_hw_kdf = False,
     use_inlinecrypt_key = False, mode_num = 0, file_nonce = replicate 16 0, file_nonce_specified = False,
     direct_key = False, iv_ino_lblk_64 = False, iv_ino_lblk_32 = False, data_unit_index = 0,
     inode_number = 0, fs_uuid = replicate 16 0, fs_uuid_specified = False\<rparr>"

definition init_options :: main_options where
  "init_options = \<lparr>opt_data_unit_size = 4096, opt_decrypting = False, opt_dump_key_identifier = False,
     opt_padding = 0, opt_params = init_params\<rparr>"

definition set_params :: "(key_and_iv_params \<Rightarrow> key_and_iv_params) \<Rightarrow> main_options \<Rightarrow> main_options" where
  "set_params f o' = o'\<lparr>opt_params := f (opt_params o')\<rparr>"

text \<open>
  One round of the option loop.  \<open>Inr (Inl status)\<close> is an exit with that status; \<open>optarg\<close> is the
  argument \<open>getopt_long\<close> returned with the option.
\<close>

definition parse_option :: "option_code \<Rightarrow> string \<Rightarrow> main_options \<Rightarrow> (nat + main_options) result" where
  "parse_option c optarg opts =
     (let upd = (\<lambda>f. Inr (Inr (set_params f opts)))
      in case c of
        OPT_DATA_UNIT_INDEX \<Rightarrow>
          (case strtoull optarg of (v, tmp, errno) \<Rightarrow>
             bindr (dieif (tmp \<noteq> [] \<or> errno) ''Invalid data unit index'') (\<lambda>_.
               upd (\<lambda>p. p\<lparr>data_unit_index := v\<rparr>)))
      | OPT_DATA_UNIT_SIZE \<Rightarrow>
          (case strtoull optarg of (v, tmp, errno) \<Rightarrow>
             bindr (dieif (v \<le> 0 \<or> tmp \<noteq> [] \<or> errno) ''Invalid data unit size'') (\<lambda>_.
               Inr (Inr (opts\<lparr>opt_data_unit_size := unat v\<rparr>))))
      | OPT_DECRYPT \<Rightarrow> Inr (Inr (opts\<lparr>opt_decrypting := True\<rparr>))
      | OPT_DIRECT_KEY \<Rightarrow> upd (\<lambda>p. p\<lparr>direct_key := True\<rparr>)
      | OPT_DUMP_KEY_IDENTIFIER \<Rightarrow> Inr (Inr (opts\<lparr>opt_dump_key_identifier := True\<rparr>))
      | OPT_ENABLE_HW_KDF \<Rightarrow> upd (\<lambda>p. p\<lparr>enable_hw_kdf := True\<rparr>)
      | OPT_FILE_NONCE \<Rightarrow>
          (case hex2bin optarg FILE_NONCE_SIZE of
             None \<Rightarrow> Inl (Die ''Invalid file nonce'')
           | Some n \<Rightarrow> bindr (dieif (length n \<noteq> FILE_NONCE_SIZE) ''Invalid file nonce'') (\<lambda>_.
               upd (\<lambda>p. p\<lparr>file_nonce := n, file_nonce_specified := True\<rparr>)))
      | OPT_FS_UUID \<Rightarrow>
          (case hex2bin optarg UUID_SIZE of
             None \<Rightarrow> Inl (Die ''Invalid filesystem UUID'')
           | Some u \<Rightarrow> bindr (dieif (length u \<noteq> UUID_SIZE) ''Invalid filesystem UUID'') (\<lambda>_.
               upd (\<lambda>p. p\<lparr>fs_uuid := u, fs_uuid_specified := True\<rparr>)))
      | OPT_HELP \<Rightarrow> Inr (Inl 0)
      | OPT_INODE_NUMBER \<Rightarrow>
          (case strtoull optarg of (v, tmp, errno) \<Rightarrow>
             bindr (dieif (v \<le> 0 \<or> tmp \<noteq> [] \<or> errno) ''Invalid inode number'') (\<lambda>_.
               upd (\<lambda>p. p\<lparr>inode_number := v\<rparr>)))
      | OPT_IV_INO_LBLK_32 \<Rightarrow> upd (\<lambda>p. p\<lparr>iv_ino_lblk_32 := True\<rparr>)
      | OPT_IV_INO_LBLK_64 \<Rightarrow> upd (\<lambda>p. p\<lparr>iv_ino_lblk_64 := True\<rparr>)
      | OPT_KDF \<Rightarrow> bindr (parse_kdf_algorithm optarg) (\<lambda>k. upd (\<lambda>p. p\<lparr>kdf := k\<rparr>))
      | OPT_MODE_NUM \<Rightarrow> bindr (parse_mode_number optarg) (\<lambda>n. upd (\<lambda>p. p\<lparr>mode_num := n\<rparr>))
      | OPT_PADDING \<Rightarrow>
          (case strtoull optarg of (v, tmp, errno) \<Rightarrow>
             bindr (dieif (v \<le> 0 \<or> tmp \<noteq> [] \<or> \<not> is_power_of_2 v \<or> v > 0x7fffffff) ''Invalid padding amount'') (\<lambda>_.
               Inr (Inr (opts\<lparr>opt_padding := unat v\<rparr>))))
      | OPT_USE_INLINECRYPT_KEY \<Rightarrow> upd (\<lambda>p. p\<lparr>use_inlinecrypt_key := True\<rparr>)
      | OPT_UNKNOWN \<Rightarrow> Inr (Inl 2))"

fun parse_options :: "(option_code \<times> string) list \<Rightarrow> main_options \<Rightarrow> (nat + main_options) result" where
  "parse_options [] opts = Inr (Inr opts)"
| "parse_options ((c, optarg) # rest) opts =
     bindr (parse_option c optarg opts) (\<lambda>r.
       case r of Inl status \<Rightarrow> Inr (Inl status) | Inr opts' \<Rightarrow> parse_options rest opts')"

text \<open>
  The setup that ends in the call of the crypt loop: an exit status with the text printed, or
  the cipher, the key, the starting IV and the options.
\<close>

definition main_setup ::
  "(option_code \<times> string) list \<Rightarrow> string list \<Rightarrow>
    (nat \<times> string + fscrypt_cipher \<times> bytes \<times> bytes \<times> main_options) result" where
  "main_setup options argv =
     bindr (parse_options options init_options) (\<lambda>r. case r of
       Inl status \<Rightarrow> Inr (Inl (status, []))
     | Inr opts \<Rightarrow>
         if opt_dump_key_identifier opts then
           (if length argv \<noteq> 1 then Inr (Inl (2, []))
            else bindr (parse_master_key (argv ! 0) (opt_params opts)) (\<lambda>params.
                 bindr (do_dump_key_identifier params) (\<lambda>out. Inr (Inl (0, out)))))
         else if length argv \<noteq> 2 then Inr (Inl (2, []))
         else case find_fscrypt_cipher (argv ! 0) of
           None \<Rightarrow> Inl (Die ''Unknown cipher'')
         | Some cipher \<Rightarrow>
             bindr (dieif (opt_data_unit_size opts < min_input_size cipher) ''Data unit size is too small for cipher'') (\<lambda>_.
             bindr (parse_master_key (argv ! 1) (opt_params opts)) (\<lambda>params.
             bindr (get_key_and_iv params (keysize cipher)) (\<lambda>(real_key, iv).
               Inr (Inr (cipher, real_key, iv, opts\<lparr>opt_params := params\<rparr>))))))"

definition main ::
  "'s read_call \<Rightarrow> 'w write_call \<Rightarrow> (option_code \<times> string) list \<Rightarrow> string list \<Rightarrow> 's \<Rightarrow> 'w \<Rightarrow>
    (nat \<times> string \<times> 's \<times> 'w) result option" where
  "main read write options argv s w =
     (case main_setup options argv of
        Inl e \<Rightarrow> Some (Inl e)
      | Inr (Inl (status, out)) \<Rightarrow> Some (Inr (status, out, s, w))
      | Inr (Inr (cipher, real_key, iv, opts)) \<Rightarrow>
          let p = opt_params opts
          in map_option (map_sum id (\<lambda>(s', w'). (0, [], s', w')))
               (crypt_loop read write cipher real_key iv (opt_decrypting opts) (opt_data_unit_size opts)
                  (opt_padding opts) (iv_ino_lblk_64 p \<or> iv_ino_lblk_32 p) s w))"

end
