(* ===== verification/Fscrypt_Proofs.thy ===== *)
theory Fscrypt_Proofs
  imports Fscrypt
begin

text \<open>
  The correctness of the main program of \<open>src/src/fscrypt-crypt-util.c\<close>: the data unit loop
  against its specification as a function of the input, the round trip of encryption and
  decryption for every cipher of the table and for the whole program, the distinctness of IVs,
  the separation of derived keys, the outcome of every key and IV request, and the option
  parser's invariant.
\<close>

section \<open>The data unit loop over streams\<close>

text \<open>
  What the program relies on of the two system calls on regular streams: a read for a positive
  count delivers a prefix of the remaining data, empty at the end of the data only; a write of a
  nonempty buffer appends a nonempty prefix of it.
\<close>

definition reads_stream :: "'s read_call \<Rightarrow> ('s \<Rightarrow> bytes) \<Rightarrow> bool" where
  "reads_stream read data \<longleftrightarrow>
     (\<forall>s n. n > 0 \<longrightarrow> (\<exists>s' res. read s n = Some (s', res) \<and> data s = res @ data s' \<and> length res \<le> n \<and>
        (res = [] \<longrightarrow> data s = [])))"

definition writes_stream :: "'w write_call \<Rightarrow> ('w \<Rightarrow> bytes) \<Rightarrow> bool" where
  "writes_stream write out \<longleftrightarrow>
     (\<forall>w b. b \<noteq> [] \<longrightarrow> (\<exists>w' k. write w b = Some (w', k) \<and> 0 < k \<and> k \<le> length b \<and> out w' = out w @ take k b))"

text \<open>The loop as a function of the whole input.\<close>

function crypt_units :: "fscrypt_cipher \<Rightarrow> bytes \<Rightarrow> bytes \<Rightarrow> bool \<Rightarrow> nat \<Rightarrow> nat \<Rightarrow> bool \<Rightarrow> bytes \<Rightarrow> bytes result" where
  "crypt_units cipher key iv decrypting dus padding is32 data =
     (if data = [] \<or> dus = 0 then Inr []
      else bindr (crypt_unit cipher key iv decrypting dus padding (take dus data)) (\<lambda>dst.
           bindr (crypt_units cipher key (next_iv is32 iv) decrypting dus padding is32 (drop dus data)) (\<lambda>rest.
             Inr (dst @ rest))))"
  by pat_completeness auto
termination
  by (relation "measure (\<lambda>(c, k, iv, d, dus, p, i, data). length data)") auto

declare crypt_units.simps [simp del]

lemma xread_stream:
  assumes "reads_stream read data"
  shows "\<exists>s'. xread read s n = Inr (s', take n (data s)) \<and> data s' = drop n (data s)"
proof (induction n arbitrary: s rule: less_induct)
  case (less n)
  show ?case
  proof (cases "n = 0")
    case True
    then show ?thesis by (subst xread.simps) simp
  next
    case False
    then obtain s' res where r: "read s n = Some (s', res)" "data s = res @ data s'" "length res \<le> n"
      "res = [] \<longrightarrow> data s = []"
      using assms unfolding reads_stream_def by blast
    show ?thesis
    proof (cases "res = []")
      case True
      then show ?thesis using False r by (subst xread.simps) auto
    next
      case res: False
      then have "n - length res < n" using False by simp
      from less.IH [OF this, of s'] obtain s'' where
        "xread read s' (n - length res) = Inr (s'', take (n - length res) (data s'))"
        "data s'' = drop (n - length res) (data s')" by blast
      then show ?thesis using False r res by (subst xread.simps) simp
    qed
  qed
qed

lemma full_write_stream:
  assumes "writes_stream write out"
  shows "\<exists>w'. full_write write w buf = Some (Inr w') \<and> out w' = out w @ buf"
proof (induction buf arbitrary: w rule: length_induct)
  case (1 buf)
  show ?case
  proof (cases "buf = []")
    case True
    then show ?thesis by (subst full_write.simps) simp
  next
    case False
    then obtain w' k where r: "write w buf = Some (w', k)" "0 < k" "k \<le> length buf" "out w' = out w @ take k buf"
      using assms unfolding writes_stream_def by blast
    then have "length (drop k buf) < length buf" using False by simp
    with 1 obtain w'' where "full_write write w' (drop k buf) = Some (Inr w'')" "out w'' = out w' @ drop k buf"
      by blast
    then show ?thesis using False r by (subst full_write.simps) simp
  qed
qed

lemma crypt_loop_units:
  assumes "reads_stream read data" and "writes_stream write out" and "0 < dus"
  shows "\<exists>r. crypt_loop read write cipher key iv decrypting dus padding is32 s w = Some r \<and>
    (case crypt_units cipher key iv decrypting dus padding is32 (data s) of
       Inl e \<Rightarrow> r = Inl e
     | Inr ctext \<Rightarrow> \<exists>s' w'. r = Inr (s', w') \<and> data s' = [] \<and> out w' = out w @ ctext)"
proof (induction "data s" arbitrary: s w iv rule: length_induct)
  case 1
  obtain s' where s': "xread read s dus = Inr (s', take dus (data s))" "data s' = drop dus (data s)"
    using xread_stream [OF assms(1)] by blast
  show ?case
  proof (cases "data s = []")
    case True
    then show ?thesis using s' by (subst crypt_loop.simps, subst crypt_units.simps) simp
  next
    case False
    note units = crypt_units.simps [of cipher key iv decrypting dus padding is32 "data s"]
    show ?thesis
    proof (cases "crypt_unit cipher key iv decrypting dus padding (take dus (data s))")
      case (Inl e)
      then show ?thesis using s' False assms(3) by (subst crypt_loop.simps) (simp add: units)
    next
      case (Inr dst)
      obtain w' where w': "full_write write w dst = Some (Inr w')" "out w' = out w @ dst"
        using full_write_stream [OF assms(2)] by blast
      have loop: "crypt_loop read write cipher key iv decrypting dus padding is32 s w =
          crypt_loop read write cipher key (next_iv is32 iv) decrypting dus padding is32 s' w'"
        using s' w' Inr False assms(3) by (subst crypt_loop.simps) simp
      have "length (data s') < length (data s)" using s'(2) False assms(3) by simp
      from "1.hyps" [rule_format, OF this refl, of "next_iv is32 iv" w'] show ?thesis
        unfolding loop using Inr False assms(3) s'(2) w'(2) units
        by (cases "crypt_units cipher key (next_iv is32 iv) decrypting dus padding is32 (drop dus (data s))") auto
    qed
  qed
qed

lemma ROUND_UP_multiple: "2 ^ k dvd x \<Longrightarrow> ROUND_UP x (2 ^ k) = x"
  using ROUND_UP_ge [of x k] ROUND_UP_less [of x k] ROUND_UP_dvd [of k x]
  by (metis dvd_diff_nat dvd_imp_le less_diff_conv2 linorder_not_less nat_less_le zero_less_diff add.commute)

lemma unit_crypt_len_bounds:
  assumes "padding = 0 \<or> padding = 2 ^ k" and "0 < r" and "r \<le> dus" and "min_input_size c \<le> dus"
  shows "r \<le> unit_crypt_len c dus padding r" and "unit_crypt_len c dus padding r \<le> dus"
    and "min_input_size c \<le> unit_crypt_len c dus padding r"
  using assms ROUND_UP_ge [of "max r (min_input_size c)" k] by (auto simp: unit_crypt_len_def Let_def min_def)

lemma unit_crypt_len_idem:
  assumes "padding = 0 \<or> padding = 2 ^ k" and "0 < r" and "r \<le> dus" and "min_input_size c \<le> dus"
  shows "unit_crypt_len c dus padding (unit_crypt_len c dus padding r) = unit_crypt_len c dus padding r"
proof (cases "padding = 0")
  case False
  then have p: "padding = 2 ^ k" using assms(1) by simp
  let ?R = "ROUND_UP (max r (min_input_size c)) padding"
  have ge: "max r (min_input_size c) \<le> ?R" using ROUND_UP_ge p by simp
  show ?thesis
  proof (cases "?R \<le> dus")
    case True
    then have e: "unit_crypt_len c dus padding r = ?R" using False by (simp add: unit_crypt_len_def Let_def)
    have "ROUND_UP ?R padding = ?R" using ROUND_UP_multiple ROUND_UP_dvd p by simp
    moreover have "max ?R (min_input_size c) = ?R" using ge by simp
    ultimately have "unit_crypt_len c dus padding ?R = ?R"
      using False True unfolding unit_crypt_len_def Let_def by (simp only: min_absorb1) simp
    then show ?thesis unfolding e .
  next
    case f: False
    then have "unit_crypt_len c dus padding r = dus" using False by (simp add: unit_crypt_len_def Let_def)
    moreover have "dus \<le> ROUND_UP dus padding" using ROUND_UP_ge p by simp
    ultimately show ?thesis using False assms(4) by (simp add: unit_crypt_len_def Let_def max_def)
  qed
qed (simp add: unit_crypt_len_def)

definition last_unit_len :: "nat \<Rightarrow> bytes \<Rightarrow> nat" where
  "last_unit_len dus data = (length data - 1) mod dus + 1"

text \<open>The input with the zero padding of its last data unit.\<close>

definition padded_input :: "fscrypt_cipher \<Rightarrow> nat \<Rightarrow> nat \<Rightarrow> bytes \<Rightarrow> bytes" where
  "padded_input c dus padding data =
     (if data = [] then []
      else let r = last_unit_len dus data in data @ replicate (unit_crypt_len c dus padding r - r) 0)"

lemma padded_input_last:
  "data \<noteq> [] \<Longrightarrow> length data \<le> dus \<Longrightarrow>
    padded_input c dus padding data = data @ replicate (unit_crypt_len c dus padding (length data) - length data) 0"
proof -
  assume a: "data \<noteq> []" "length data \<le> dus"
  then have "last_unit_len dus data = length data"
    by (cases data) (simp_all add: last_unit_len_def)
  then show ?thesis using a by (simp add: padded_input_def Let_def)
qed

lemma padded_input_unit:
  "dus < length data \<Longrightarrow> 0 < dus \<Longrightarrow>
    padded_input c dus padding data = take dus data @ padded_input c dus padding (drop dus data)"
proof -
  assume a: "dus < length data" "0 < dus"
  then have "length data - 1 = (length (drop dus data) - 1) + dus" by simp
  then have "last_unit_len dus data = last_unit_len dus (drop dus data)"
    unfolding last_unit_len_def by simp
  then show ?thesis using a by (auto simp: padded_input_def Let_def)
qed

lemma length_next_iv: "length iv = 32 \<Longrightarrow> length (next_iv is32 iv) = 32"
  by (simp add: next_iv_def set_data_unit_index_def set_data_unit_index32_def)

lemma crypt_units_step:
  "data \<noteq> [] \<Longrightarrow> 0 < dus \<Longrightarrow> crypt_units c key iv d dus padding is32 data =
    bindr (crypt_unit c key iv d dus padding (take dus data)) (\<lambda>dst.
    bindr (crypt_units c key (next_iv is32 iv) d dus padding is32 (drop dus data)) (\<lambda>rest. Inr (dst @ rest)))"
  by (subst crypt_units.simps) simp

lemma crypt_units_Nil [simp]: "crypt_units c key iv d dus padding is32 [] = Inr []"
  by (subst crypt_units.simps) simp

lemma crypt_units_last:
  assumes "data \<noteq> []" and "length data \<le> dus"
  shows "crypt_units c key iv d dus padding is32 data = crypt_unit c key iv d dus padding data"
proof -
  have "0 < dus" using assms by (cases data) auto
  then show ?thesis
    using assms by (cases "crypt_unit c key iv d dus padding data") (simp_all add: crypt_units_step)
qed

context sector_cipher
begin

lemma crypt_unit_roundtrip:
  assumes "cipher_encrypt c = encrypt" "cipher_decrypt c = decrypt"
    and "key_ok key" and "length iv = 32"
    and "padding = 0 \<or> padding = 2 ^ k" and "0 < length buf" and "length buf \<le> dus" and "min_input_size c \<le> dus"
    and "len_ok (unit_crypt_len c dus padding (length buf))"
  shows "\<exists>dst. crypt_unit c key iv False dus padding buf = Inr dst \<and>
    length dst = unit_crypt_len c dus padding (length buf) \<and>
    crypt_unit c key iv True dus padding dst = Inr (buf @ replicate (length dst - length buf) 0)"
proof -
  let ?n = "unit_crypt_len c dus padding (length buf)"
  let ?p = "buf @ replicate (?n - length buf) 0"
  have b: "length buf \<le> ?n" using unit_crypt_len_bounds [OF assms(5-8)] by simp
  then have lp: "length ?p = ?n" by simp
  obtain dst where d: "encrypt key iv ?p = Inr dst" "length dst = ?n"
    using encrypt_ok [OF assms(3,4), of ?p] assms(9) lp by auto
  then have "decrypt key iv dst = Inr ?p" using decrypt_encrypt [OF assms(3,4), of ?p] assms(9) lp by simp
  then show ?thesis
    using d b assms(1,2) unit_crypt_len_idem [OF assms(5-8)] by (simp add: crypt_unit_def Let_def)
qed

lemma crypt_units_roundtrip:
  assumes "cipher_encrypt c = encrypt" "cipher_decrypt c = decrypt"
    and "key_ok key" and "length iv = 32"
    and "padding = 0 \<or> padding = 2 ^ k" and "0 < dus" and "min_input_size c \<le> dus"
    and "\<And>r. 0 < r \<Longrightarrow> r \<le> dus \<Longrightarrow> len_ok (unit_crypt_len c dus padding r)"
  shows "\<exists>ctext. crypt_units c key iv False dus padding is32 data = Inr ctext \<and>
    crypt_units c key iv True dus padding is32 ctext = Inr (padded_input c dus padding data)"
  using assms(4)
proof (induction data arbitrary: iv rule: length_induct)
  case (1 data)
  note unit = crypt_unit_roundtrip [OF assms(1-3) "1.prems" assms(5) _ _ assms(7) assms(8)]
  consider "data = []" | "data \<noteq> []" "length data \<le> dus" | "dus < length data" by fastforce
  then show ?case
  proof cases
    case 1
    then show ?thesis by (simp add: padded_input_def crypt_units.simps)
  next
    case 2
    then obtain dst where d: "crypt_unit c key iv False dus padding data = Inr dst"
      "length dst = unit_crypt_len c dus padding (length data)"
      "crypt_unit c key iv True dus padding dst = Inr (data @ replicate (length dst - length data) 0)"
      using unit [of data] by auto
    moreover have "dst \<noteq> []" "length dst \<le> dus"
      using d(2) 2 unit_crypt_len_bounds [OF assms(5) _ 2(2) assms(7)] by auto
    ultimately show ?thesis using 2 by (simp add: crypt_units_last padded_input_last)
  next
    case 3
    have full: "unit_crypt_len c dus padding dus = dus"
      using unit_crypt_len_bounds [OF assms(5,6) _ assms(7)] by (simp add: le_antisym)
    obtain dst where d: "crypt_unit c key iv False dus padding (take dus data) = Inr dst" "length dst = dus"
      "crypt_unit c key iv True dus padding dst = Inr (take dus data)"
      using unit [of "take dus data"] 3 assms(6) full by auto
    have "length (drop dus data) < length data" using 3 assms(6) by simp
    from "1.IH" [rule_format, OF this length_next_iv [OF "1.prems"]] obtain rest where
      "crypt_units c key (next_iv is32 iv) False dus padding is32 (drop dus data) = Inr rest"
      "crypt_units c key (next_iv is32 iv) True dus padding is32 rest = Inr (padded_input c dus padding (drop dus data))"
      by blast
    moreover have ne: "data \<noteq> []" "dst @ rest \<noteq> []" using 3 d(2) assms(6) by auto
    ultimately have "crypt_units c key iv False dus padding is32 data = Inr (dst @ rest)"
      "crypt_units c key iv True dus padding is32 (dst @ rest) = Inr (padded_input c dus padding data)"
      using d padded_input_unit [OF 3 assms(6)] crypt_units_step [OF ne(1) assms(6), of c key iv False padding is32]
        crypt_units_step [OF ne(2) assms(6), of c key iv True padding is32] by simp_all
    then show ?thesis by blast
  qed
qed

end

lemma fscrypt_sizes [simp]: "FILE_NONCE_SIZE = 16" "UUID_SIZE = 16" "MAX_KEY_SIZE = 64" "MAX_IV_SIZE = 32"
  "INLINECRYPT_KEY_SIZE = 64" "SW_SECRET_SIZE = 32"
  by (simp_all add: FILE_NONCE_SIZE_def UUID_SIZE_def MAX_KEY_SIZE_def MAX_IV_SIZE_def INLINECRYPT_KEY_SIZE_def
      SW_SECRET_SIZE_def)

text \<open>The data unit sizes and paddings a cipher can be run with.\<close>

definition unit_sizes_ok :: "fscrypt_cipher \<Rightarrow> nat \<Rightarrow> nat \<Rightarrow> bool" where
  "unit_sizes_ok c dus padding \<longleftrightarrow> 0 < dus \<and> min_input_size c \<le> dus \<and>
     (min_input_size c = 0 \<longrightarrow> dus mod 16 = 0 \<and> padding mod 16 = 0)"

lemma unit_crypt_len_blocks:
  assumes "padding = 0 \<or> padding = 2 ^ k" and "dus mod 16 = 0" and "padding mod 16 = 0"
  shows "unit_crypt_len c dus padding r mod 16 = 0"
proof (cases "padding = 0")
  case True
  then show ?thesis using assms(2) by (simp add: unit_crypt_len_def)
next
  case False
  then have "padding dvd ROUND_UP (max r (min_input_size c)) padding" using assms(1) ROUND_UP_dvd by auto
  then have "16 dvd ROUND_UP (max r (min_input_size c)) padding" using assms(3) dvd_trans by blast
  then show ?thesis using False assms(2) by (auto simp: unit_crypt_len_def Let_def min_def mod_eq_0_iff_dvd)
qed

lemma find_fscrypt_cipher_mem: "find_fscrypt_cipher name = Some c \<Longrightarrow> c \<in> set fscrypt_ciphers"
  by (auto simp: find_fscrypt_cipher_def find_Some_iff)

lemma cipher_units_roundtrip:
  assumes "c \<in> set fscrypt_ciphers" and "length key = keysize c" and "length iv = 32"
    and "padding = 0 \<or> padding = 2 ^ k" and "unit_sizes_ok c dus padding"
  shows "\<exists>ctext. crypt_units c key iv False dus padding is32 data = Inr ctext \<and>
    crypt_units c key iv True dus padding is32 ctext = Inr (padded_input c dus padding data)"
proof -
  have dus: "0 < dus" "min_input_size c \<le> dus" using assms(5) by (simp_all add: unit_sizes_ok_def)
  have small: "min_input_size c \<le> unit_crypt_len c dus padding r" if "0 < r" "r \<le> dus" for r
    using unit_crypt_len_bounds(3) [OF assms(4) that dus(2)] .
  have blocks: "unit_crypt_len c dus padding r mod 16 = 0" if "min_input_size c = 0" for r
    using unit_crypt_len_blocks [OF assms(4)] assms(5) that by (simp add: unit_sizes_ok_def)
  consider
      "cipher_encrypt c = aes_256_xts_encrypt" "cipher_decrypt c = aes_256_xts_decrypt" "keysize c = 64" "min_input_size c = 0"
    | "cipher_encrypt c = aes_256_cts_cbc_encrypt" "cipher_decrypt c = aes_256_cts_cbc_decrypt" "keysize c = 32" "min_input_size c = 16"
    | "cipher_encrypt c = aes_128_cbc_essiv_encrypt" "cipher_decrypt c = aes_128_cbc_essiv_decrypt" "keysize c = 16" "min_input_size c = 0"
    | "cipher_encrypt c = aes_128_cts_cbc_encrypt" "cipher_decrypt c = aes_128_cts_cbc_decrypt" "keysize c = 16" "min_input_size c = 16"
    | "cipher_encrypt c = aes_256_hctr2_encrypt" "cipher_decrypt c = aes_256_hctr2_decrypt" "keysize c = 32" "min_input_size c = 16"
    | "cipher_encrypt c = adiantum_encrypt" "cipher_decrypt c = adiantum_decrypt" "keysize c = 32" "min_input_size c = 16"
    using assms(1) by (auto simp: fscrypt_ciphers_def)
  then show ?thesis
  proof cases
    case 1
    show ?thesis by (rule xts.crypt_units_roundtrip [OF 1(1,2) _ assms(3,4) dus]) (use 1 assms(2) blocks in simp_all)
  next
    case 2
    show ?thesis by (rule cts256.crypt_units_roundtrip [OF 2(1,2) _ assms(3,4) dus]) (use 2 assms(2) small in simp_all)
  next
    case 3
    show ?thesis by (rule essiv.crypt_units_roundtrip [OF 3(1,2) _ assms(3,4) dus]) (use 3 assms(2) blocks in simp_all)
  next
    case 4
    show ?thesis by (rule cts128.crypt_units_roundtrip [OF 4(1,2) _ assms(3,4) dus]) (use 4 assms(2) small in simp_all)
  next
    case 5
    show ?thesis by (rule hctr2.crypt_units_roundtrip [OF 5(1,2) _ assms(3,4) dus]) (use 5 assms(2) small in simp_all)
  next
    case 6
    show ?thesis by (rule adiantum.crypt_units_roundtrip [OF 6(1,2) _ assms(3,4) dus]) (use 6 assms(2) small in simp_all)
  qed
qed

lemma crypt_loop_roundtrip:
  assumes "reads_stream read data" and "writes_stream write out"
    and "c \<in> set fscrypt_ciphers" and "length key = keysize c" and "length iv = 32"
    and "padding = 0 \<or> padding = 2 ^ k" and "unit_sizes_ok c dus padding" and "out w = []"
  shows "\<exists>s1 w1. crypt_loop read write c key iv False dus padding is32 s w = Some (Inr (s1, w1)) \<and>
    (\<forall>s2 w2. data s2 = out w1 \<longrightarrow> out w2 = [] \<longrightarrow>
      (\<exists>s3 w3. crypt_loop read write c key iv True dus padding is32 s2 w2 = Some (Inr (s3, w3)) \<and>
        out w3 = padded_input c dus padding (data s)))"
proof -
  have dus: "0 < dus" using assms(7) by (simp add: unit_sizes_ok_def)
  obtain ctext where ct: "crypt_units c key iv False dus padding is32 (data s) = Inr ctext"
    "crypt_units c key iv True dus padding is32 ctext = Inr (padded_input c dus padding (data s))"
    using cipher_units_roundtrip [OF assms(3-7)] by blast
  obtain s1 w1 where e: "crypt_loop read write c key iv False dus padding is32 s w = Some (Inr (s1, w1))" "out w1 = ctext"
    using crypt_loop_units [OF assms(1,2) dus, of c key iv False padding is32 s w] ct(1) assms(8) by auto
  have "\<exists>s3 w3. crypt_loop read write c key iv True dus padding is32 s2 w2 = Some (Inr (s3, w3)) \<and>
      out w3 = padded_input c dus padding (data s)" if "data s2 = out w1" "out w2 = []" for s2 w2
    using crypt_loop_units [OF assms(1,2) dus, of c key iv True padding is32 s2 w2] ct(2) e(2) that by auto
  then show ?thesis using e by blast
qed

section \<open>IVs\<close>

lemma get_unaligned_le32_append: "length p = 4 \<Longrightarrow> get_unaligned_le32 (p @ q) = get_unaligned_le32 p"
  by (simp add: get_unaligned_le32_def)

lemma get_set_index32 [simp]: "get_data_unit_index32 (set_data_unit_index32 iv i) = i"
  by (simp add: get_data_unit_index32_def set_data_unit_index32_def put_at_def get_unaligned_le32_append)

lemma get_set_index [simp]: "get_data_unit_index (set_data_unit_index iv i) = i"
  by (simp add: get_data_unit_index_def set_data_unit_index_def put_at_def get_unaligned_le64_append)

lemma set_set_index32 [simp]: "set_data_unit_index32 (set_data_unit_index32 iv i) j = set_data_unit_index32 iv j"
  by (simp add: set_data_unit_index32_def put_at_def)

lemma set_set_index [simp]: "set_data_unit_index (set_data_unit_index iv i) j = set_data_unit_index iv j"
  by (simp add: set_data_unit_index_def put_at_def)

lemma set_get_index32: "4 \<le> length iv \<Longrightarrow> set_data_unit_index32 iv (get_data_unit_index32 iv) = iv"
  using put_get_le32 [of "take 4 iv"]
  by (simp add: set_data_unit_index32_def get_data_unit_index32_def put_at_def get_unaligned_le32_def)

lemma set_get_index: "8 \<le> length iv \<Longrightarrow> set_data_unit_index iv (get_data_unit_index iv) = iv"
  using put_get_le64 [of "take 8 iv"]
  by (simp add: set_data_unit_index_def get_data_unit_index_def put_at_def get_unaligned_le64_def)

text \<open>The IV of the \<open>n\<close>-th data unit of a run.\<close>

lemma next_iv_funpow:
  assumes "8 \<le> length iv"
  shows "(next_iv False ^^ n) iv = set_data_unit_index iv (get_data_unit_index iv + of_nat n)"
    and "(next_iv True ^^ n) iv = set_data_unit_index32 iv (get_data_unit_index32 iv + of_nat n)"
  using assms by (induction n) (simp_all add: next_iv_def set_get_index set_get_index32 ac_simps)

lemma of_nat_word_inj:
  "m < 2 ^ LENGTH('a) \<Longrightarrow> n < 2 ^ LENGTH('a) \<Longrightarrow> (of_nat m :: 'a::len word) = of_nat n \<Longrightarrow> m = n"
  by (simp add: word_of_nat_eq_iff take_bit_nat_eq_self)

lemma run_ivs_distinct:
  assumes "8 \<le> length iv" and "m < n" and "n < (if is32 then 2 ^ 32 else 2 ^ 64)"
  shows "(next_iv is32 ^^ m) iv \<noteq> (next_iv is32 ^^ n) iv"
proof
  assume eq: "(next_iv is32 ^^ m) iv = (next_iv is32 ^^ n) iv"
  show False
  proof (cases is32)
    case True
    then have "(of_nat m :: u32) = of_nat n"
      using arg_cong [OF eq, of get_data_unit_index32] assms(1) by (simp add: next_iv_funpow)
    then have "m = n" using assms(2,3) True by (intro of_nat_word_inj [where 'a = 32]) simp_all
    then show False using assms(2) by simp
  next
    case False
    then have "(of_nat m :: u64) = of_nat n"
      using arg_cong [OF eq, of get_data_unit_index] assms(1) by (simp add: next_iv_funpow)
    then have "m = n" using assms(2,3) False by (intro of_nat_word_inj [where 'a = 64]) simp_all
    then show False using assms(2) by simp
  qed
qed

definition params_ok :: "key_and_iv_params \<Rightarrow> bool" where
  "params_ok p \<longleftrightarrow> length (file_nonce p) = 16 \<and> length (fs_uuid p) = 16"

definition same_iv_method :: "key_and_iv_params \<Rightarrow> key_and_iv_params \<Rightarrow> bool" where
  "same_iv_method p q \<longleftrightarrow> direct_key p = direct_key q \<and> iv_ino_lblk_64 p = iv_ino_lblk_64 q \<and>
     iv_ino_lblk_32 p = iv_ino_lblk_32 q"

lemma ucast_32_inj: "(x :: u64) \<le> 0xffffffff \<Longrightarrow> y \<le> 0xffffffff \<Longrightarrow> (ucast x :: u32) = ucast y \<Longrightarrow> x = y"
proof -
  assume "x \<le> 0xffffffff" "y \<le> 0xffffffff" and e: "(ucast x :: u32) = ucast y"
  then have "unat x < 2 ^ 32" "unat y < 2 ^ 32" by (simp_all add: word_le_nat_alt)
  moreover have "unat x mod 2 ^ 32 = unat y mod 2 ^ 32" using arg_cong [OF e, of unat] by (simp add: unat_narrow)
  ultimately show "x = y" by (simp add: word_unat_eq_iff)
qed

lemma ucast_add_32: "(ucast (ucast (h :: u32) + (i :: u64)) :: u32) = h + ucast i"
proof transfer
  fix h i :: int
  have "(i mod 2 ^ 64) mod 2 ^ 32 = i mod 2 ^ 32" by (rule mod_mod_cancel) simp
  then have "(h + i mod 2 ^ 64) mod 2 ^ 32 = (h + i) mod 2 ^ 32" by (metis mod_add_right_eq)
  then show "take_bit LENGTH(32) (take_bit LENGTH(64) (take_bit LENGTH(32) h + i)) = take_bit LENGTH(32) (h + take_bit LENGTH(64) i)"
    by (simp add: take_bit_eq_mod mod_simps mod_mod_cancel)
qed

lemma generate_iv_direct:
  assumes "generate_iv p = Inr iv" and "direct_key p" and "length (file_nonce p) = 16"
  shows "length iv = 32" and "get_data_unit_index iv = data_unit_index p" and "slice iv 8 16 = file_nonce p"
    and "drop 24 iv = replicate 8 0"
proof -
  have "iv = put_unaligned_le64 (data_unit_index p) @ file_nonce p @ replicate 8 0"
    using assms by (simp add: generate_iv_def bindr_Inr_iff set_data_unit_index_def put_at_def)
  then show "length iv = 32" and "get_data_unit_index iv = data_unit_index p" and "slice iv 8 16 = file_nonce p"
    and "drop 24 iv = replicate 8 0"
    using assms(3) by (simp_all add: get_data_unit_index_def get_unaligned_le64_append slice_def)
qed

lemma generate_iv_lblk_64:
  assumes "generate_iv p = Inr iv" and "\<not> direct_key p" and "iv_ino_lblk_64 p"
  shows "length iv = 32" and "get_data_unit_index32 iv = ucast (data_unit_index p)"
    and "get_unaligned_le32 (drop 4 iv) = ucast (inode_number p)"
    and "data_unit_index p \<le> 0xffffffff" and "inode_number p \<le> 0xffffffff" and "inode_number p \<noteq> 0"
    and "drop 8 iv = replicate 24 0"
proof -
  have c: "data_unit_index p \<le> 0xffffffff" "inode_number p \<le> 0xffffffff" "inode_number p \<noteq> 0"
    and "iv = put_unaligned_le32 (ucast (data_unit_index p)) @ put_unaligned_le32 (ucast (inode_number p)) @ replicate 24 0"
    using assms by (auto simp: generate_iv_def bindr_Inr_iff set_data_unit_index32_def put_at_def)
  then show "length iv = 32" and "get_data_unit_index32 iv = ucast (data_unit_index p)"
    and "get_unaligned_le32 (drop 4 iv) = ucast (inode_number p)" and "data_unit_index p \<le> 0xffffffff"
    and "inode_number p \<le> 0xffffffff" and "inode_number p \<noteq> 0" and "drop 8 iv = replicate 24 0"
    by (simp_all add: get_data_unit_index32_def get_unaligned_le32_append)
qed

lemma generate_iv_lblk_32:
  assumes "generate_iv p = Inr iv" and "\<not> direct_key p" and "\<not> iv_ino_lblk_64 p" and "iv_ino_lblk_32 p"
  obtains h where "hash_inode_number p = Inr h" and "get_data_unit_index32 iv = h + ucast (data_unit_index p)"
    and "data_unit_index p \<le> 0xffffffff" and "kdf p = KDF_HKDF_SHA512"
proof -
  obtain h where h: "hash_inode_number p = Inr h" "data_unit_index p \<le> 0xffffffff"
    and iv: "iv = put_unaligned_le32 (ucast (ucast h + data_unit_index p)) @ replicate 28 0"
    using assms by (auto simp: generate_iv_def bindr_Inr_iff set_data_unit_index32_def put_at_def)
  have "get_data_unit_index32 iv = h + ucast (data_unit_index p)"
    by (simp add: iv ucast_add_32 get_data_unit_index32_def get_unaligned_le32_append)
  moreover have "kdf p = KDF_HKDF_SHA512" using h(1) by (auto simp: hash_inode_number_def bindr_Inr_iff)
  ultimately show ?thesis using that h by blast
qed

lemma hash_inode_number_cong:
  "kdf p = kdf q \<Longrightarrow> sw_secret p = sw_secret q \<Longrightarrow> inode_number p = inode_number q \<Longrightarrow>
    hash_inode_number p = hash_inode_number q"
  by (simp add: hash_inode_number_def)

lemma generate_iv_plain:
  assumes "generate_iv p = Inr iv" and "\<not> direct_key p" and "\<not> iv_ino_lblk_64 p" and "\<not> iv_ino_lblk_32 p"
  shows "get_data_unit_index iv = data_unit_index p"
  using assms by (auto simp: generate_iv_def)

lemma length_generate_iv:
  assumes "generate_iv p = Inr iv" and "length (file_nonce p) = 16"
  shows "length iv = 32"
  using assms
  by (auto simp: generate_iv_def Let_def bindr_Inr_iff set_data_unit_index_def set_data_unit_index32_def split: if_splits)

lemma generate_iv_injective:
  assumes "generate_iv p = Inr iv" and "generate_iv q = Inr iv" and "params_ok p" and "params_ok q"
    and "same_iv_method p q" and "iv_ino_lblk_32 p \<longrightarrow> sw_secret p = sw_secret q \<and> inode_number p = inode_number q"
  shows "data_unit_index p = data_unit_index q"
    and "direct_key p \<Longrightarrow> file_nonce p = file_nonce q"
    and "\<not> direct_key p \<Longrightarrow> iv_ino_lblk_64 p \<Longrightarrow> inode_number p = inode_number q"
proof -
  have m: "direct_key q = direct_key p" "iv_ino_lblk_64 q = iv_ino_lblk_64 p" "iv_ino_lblk_32 q = iv_ino_lblk_32 p"
    and n: "length (file_nonce p) = 16" "length (file_nonce q) = 16"
    using assms(3-5) by (simp_all add: same_iv_method_def params_ok_def)
  show "direct_key p \<Longrightarrow> file_nonce p = file_nonce q"
    using generate_iv_direct(3) [OF assms(1) _ n(1)] generate_iv_direct(3) [OF assms(2) _ n(2)] m by simp
  show "\<not> direct_key p \<Longrightarrow> iv_ino_lblk_64 p \<Longrightarrow> inode_number p = inode_number q"
    using generate_iv_lblk_64 [OF assms(1)] generate_iv_lblk_64 [OF assms(2)] m by (auto intro: ucast_32_inj)
  show "data_unit_index p = data_unit_index q"
  proof (cases "direct_key p")
    case True
    then show ?thesis
      using generate_iv_direct(2) [OF assms(1) _ n(1)] generate_iv_direct(2) [OF assms(2) _ n(2)] m by simp
  next
    case d: False
    show ?thesis
    proof (cases "iv_ino_lblk_64 p")
      case True
      then show ?thesis
        using d m generate_iv_lblk_64 [OF assms(1)] generate_iv_lblk_64 [OF assms(2)] by (auto intro: ucast_32_inj)
    next
      case no64: False
      show ?thesis
      proof (cases "iv_ino_lblk_32 p")
        case False
        then have "get_data_unit_index iv = data_unit_index p" "get_data_unit_index iv = data_unit_index q"
          using d no64 m generate_iv_plain [OF assms(1)] generate_iv_plain [OF assms(2)] by simp_all
        then show ?thesis by simp
      next
        case True
        obtain h where h: "hash_inode_number p = Inr h" "get_data_unit_index32 iv = h + ucast (data_unit_index p)"
          "data_unit_index p \<le> 0xffffffff" "kdf p = KDF_HKDF_SHA512" using generate_iv_lblk_32 [OF assms(1) d no64 True] .
        obtain k where k: "hash_inode_number q = Inr k" "get_data_unit_index32 iv = k + ucast (data_unit_index q)"
          "data_unit_index q \<le> 0xffffffff" "kdf q = KDF_HKDF_SHA512"
          using generate_iv_lblk_32 [OF assms(2)] d no64 True m by metis
        have "h = k" using hash_inode_number_cong [of p q] h(1,4) k(1,4) assms(6) True by simp
        then show ?thesis using h(2,3) k(2,3) ucast_32_inj by simp
      qed
    qed
  qed
qed

section \<open>Keys\<close>

lemma length_info_prefix [simp]: "length info_prefix = 8"
  by (simp add: info_prefix_def bytes_of_string_def)

lemmas hkdf_contexts = HKDF_CONTEXT_KEY_IDENTIFIER_FOR_RAW_KEY_def HKDF_CONTEXT_PER_FILE_ENC_KEY_def
  HKDF_CONTEXT_DIRECT_KEY_def HKDF_CONTEXT_IV_INO_LBLK_64_KEY_def HKDF_CONTEXT_IV_INO_LBLK_32_KEY_def
  HKDF_CONTEXT_INODE_HASH_KEY_def HKDF_CONTEXT_KEY_IDENTIFIER_FOR_HW_WRAPPED_KEY_def

datatype key_use =
    Per_file bytes
  | Direct u8
  | Lblk_64 u8 bytes
  | Lblk_32 u8 bytes

text \<open>What a derived key is bound to.\<close>

definition key_use_of :: "key_and_iv_params \<Rightarrow> key_use" where
  "key_use_of p =
     (if direct_key p then Direct (mode_num p)
      else if iv_ino_lblk_64 p then Lblk_64 (mode_num p) (fs_uuid p)
      else if iv_ino_lblk_32 p then Lblk_32 (mode_num p) (fs_uuid p)
      else Per_file (file_nonce p))"

lemma hkdf_key_info_injective:
  assumes "hkdf_key_info p = Inr info" and "hkdf_key_info q = Inr info"
  shows "key_use_of p = key_use_of q"
  using assms by (auto simp: hkdf_key_info_def key_use_of_def bindr_Inr_iff hkdf_contexts split: if_splits)

lemma hkdf_key_info_separate:
  assumes "hkdf_key_info p = Inr info" and "params_ok p"
  shows "info \<noteq> info_prefix @ [c]"
  using assms by (auto simp: hkdf_key_info_def bindr_Inr_iff params_ok_def split: if_splits)

lemma aes_256_cmac_ok: "\<exists>mac. aes_256_cmac key msg = Inr mac \<and> length mac = 16"
proof -
  obtain k where "aes_setkey key 32 = Inr k" using aes_setkey_Inr_iff by fastforce
  then show ?thesis by (simp add: aes_256_cmac_def Let_def split: prod.split)
qed

lemma hw_kdf_loop_ok:
  assumes "length ctx \<le> 108" and "n mod 16 = 0" and "i mod 16 = 0"
  shows "\<exists>out. hw_kdf_loop mkey ctx n i = Inr out \<and> length out = n - i"
  using assms(3)
proof (induction "n - i" arbitrary: i rule: less_induct)
  case less
  show ?case
  proof (cases "i < n")
    case False
    then show ?thesis by (subst hw_kdf_loop.simps) simp
  next
    case True
    then have le: "i + 16 \<le> n" using assms(2) less.prems by (auto simp: mod_eq_0_iff_dvd elim!: dvdE)
    have "n - (i + 16) < n - i" using True by simp
    then obtain out where "hw_kdf_loop mkey ctx n (i + 16) = Inr out" "length out = n - (i + 16)"
      using less.hyps [of "i + 16"] less.prems by auto
    moreover obtain mac where "aes_256_cmac mkey (hw_kdf_info ctx n i) = Inr mac" "length mac = 16"
      using aes_256_cmac_ok by blast
    ultimately show ?thesis
      using True le assms(1) by (subst hw_kdf_loop.simps) (simp add: hw_kdf_label_def)
  qed
qed

lemma hw_kdf_ok:
  assumes "length mkey = 32" and "length ctx \<le> 108" and "n mod 16 = 0"
  shows "\<exists>key. hw_kdf mkey ctx n = Inr key \<and> length key = n"
  using hw_kdf_loop_ok [OF assms(2,3), of 0 mkey] assms by (simp add: hw_kdf_def dieif_def)

lemma hw_kdf_Inr: "hw_kdf mkey ctx n = Inr key \<Longrightarrow> length mkey = 32"
  by (auto simp: hw_kdf_def bindr_Inr_iff)

lemma derive_inline_encryption_key_ok:
  "length mkey = 32 \<Longrightarrow> \<exists>key. derive_inline_encryption_key mkey = Inr key \<and> length key = 64"
  unfolding derive_inline_encryption_key_def Let_def fscrypt_sizes
  by (intro hw_kdf_ok) (simp_all add: bytes_of_string_def)

lemma derive_sw_secret_ok:
  "length mkey = 32 \<Longrightarrow> \<exists>key. derive_sw_secret mkey = Inr key \<and> length key = 32"
  unfolding derive_sw_secret_def Let_def fscrypt_sizes
  by (intro hw_kdf_ok) (simp_all add: bytes_of_string_def)

lemma length_derived:
  "derive_inline_encryption_key mkey = Inr key \<Longrightarrow> length key = 64"
  "derive_sw_secret mkey = Inr key \<Longrightarrow> length key = 32"
  using derive_inline_encryption_key_ok [of mkey] derive_sw_secret_ok [of mkey]
  by (auto dest!: hw_kdf_Inr simp: derive_inline_encryption_key_def derive_sw_secret_def Let_def)

lemma length_ecb_key: "n mod 16 = 0 \<Longrightarrow> length (ecb_key k secret n) = n"
  unfolding ecb_key_def by (subst length_concat_fixed [of _ 16]) auto

lemma hkdf_ok:
  assumes "ikm \<noteq> []" and "n \<le> 64"
  shows "\<exists>key. hkdf_sha512 ikm [] info n = Inr key \<and> length key = n"
  using hkdf_sha512_length [of ikm "[]" n info] assms by simp

lemma length_derive_real_key:
  assumes "derive_real_key p n = Inr key" and "n \<in> {16, 32, 64}"
  shows "length key = n"
proof (cases "use_inlinecrypt_key p")
  case True
  then show ?thesis using assms by (auto simp: derive_real_key_def bindr_Inr_iff dest: length_derived)
next
  case False
  have n: "n \<le> 64" "n mod 16 = 0" "0 < n" using assms(2) by auto
  have long: "n \<le> length (sw_secret p)" using assms False by (auto simp: derive_real_key_def bindr_Inr_iff)
  then have ne: "sw_secret p \<noteq> []" using n by auto
  show ?thesis
  proof (cases "kdf p")
    case KDF_HKDF_SHA512
    then obtain info where "hkdf_sha512 (sw_secret p) [] info n = Inr key"
      using assms False by (auto simp: derive_real_key_def bindr_Inr_iff)
    then show ?thesis using hkdf_ok [OF ne n(1), of info] by simp
  qed (use assms False long n in \<open>auto simp: derive_real_key_def bindr_Inr_iff length_ecb_key\<close>)
qed

lemma get_key_and_iv_lengths:
  assumes "get_key_and_iv p n = Inr (key, iv)" and "n \<in> {16, 32, 64}" and "params_ok p"
  shows "length key = n" and "length iv = 32"
  using assms length_derive_real_key length_generate_iv
  by (auto simp: get_key_and_iv_def Let_def bindr_Inr_iff params_ok_def)

lemma fscrypt_keysizes: "c \<in> set fscrypt_ciphers \<Longrightarrow> keysize c \<in> {16, 32, 64}"
  by (auto simp: fscrypt_ciphers_def)

definition secret_ok :: "key_and_iv_params \<Rightarrow> bool" where
  "secret_ok p \<longleftrightarrow>
     (if enable_hw_kdf p then length (master_key p) = 32 \<and> length (sw_secret p) = 32 else sw_secret p = master_key p)"





text \<open>A result that is a value if the condition holds, and a message to the user otherwise.\<close>

definition ok_or_die :: "bool \<Rightarrow> 'a result \<Rightarrow> bool" where
  "ok_or_die b r \<longleftrightarrow> (case r of Inr _ \<Rightarrow> b | Inl e \<Rightarrow> \<not> b \<and> (\<exists>msg. e = Die msg))"

lemma ok_or_die_Inr [simp]: "ok_or_die b (Inr x) = b"
  by (simp add: ok_or_die_def)

lemma ok_or_die_Die [simp]: "ok_or_die b (Inl (Die msg)) = (\<not> b)"
  by (simp add: ok_or_die_def)

lemma ok_or_die_dieif [simp]: "ok_or_die b (bindr (dieif c msg) f) \<longleftrightarrow> (if c then \<not> b else ok_or_die b (f ()))"
  by (simp add: ok_or_die_def dieif_def)






section \<open>Options\<close>

definition options_ok :: "main_options \<Rightarrow> bool" where
  "options_ok opts \<longleftrightarrow> params_ok (opt_params opts) \<and> 0 < opt_data_unit_size opts \<and>
     (opt_padding opts = 0 \<or> (\<exists>k < 31. opt_padding opts = 2 ^ k))"

lemma init_options_ok: "options_ok init_options"
  by (simp add: options_ok_def init_options_def init_params_def params_ok_def)

lemma padding_value:
  assumes "is_power_of_2 v" and "v \<le> 0x7fffffff"
  shows "\<exists>k < 31. unat v = 2 ^ k"
proof -
  obtain k where k: "k < 64" "v = 2 ^ k" using assms(1) is_power_of_2_iff by blast
  have "(2 :: nat) ^ k < 2 ^ 64" using k(1) by (simp only: power_strict_increasing_iff)
  then have u: "unat v = 2 ^ k" using unat_push_bit [of k "1 :: u64"] k(2) by (simp add: push_bit_of_1)
  have "unat v \<le> 0x7fffffff" using assms(2) by (simp add: word_le_nat_alt)
  then have "(2 :: nat) ^ k < 2 ^ 31" using u by simp
  then have "k < 31" by (simp only: power_strict_increasing_iff)
  then show ?thesis using u by blast
qed

lemma parse_option_frame:
  assumes "parse_option c optarg opts = Inr (Inr opts')" and "params_ok (opt_params opts)"
  shows "params_ok (opt_params opts') \<and>
    (c \<noteq> OPT_PADDING \<longrightarrow> opt_padding opts' = opt_padding opts) \<and>
    (c \<noteq> OPT_DATA_UNIT_SIZE \<longrightarrow> opt_data_unit_size opts' = opt_data_unit_size opts)"
  using assms
  by (cases c; clarsimp simp: parse_option_def Let_def bindr_Inr_iff params_ok_def set_params_def
      split: prod.splits option.splits)

lemma parse_option_ok:
  assumes "parse_option c optarg opts = Inr (Inr opts')" and "options_ok opts"
  shows "options_ok opts'"
proof (cases c)
  case OPT_PADDING
  obtain v tmp errno where v: "strtoull optarg = (v, tmp, errno)" by (cases "strtoull optarg")
  then have "is_power_of_2 v" "v \<le> 0x7fffffff" "opts' = opts\<lparr>opt_padding := unat v\<rparr>"
    using assms(1) OPT_PADDING by (auto simp: parse_option_def Let_def bindr_Inr_iff not_less)
  then show ?thesis using padding_value assms(2) by (simp add: options_ok_def)
next
  case OPT_DATA_UNIT_SIZE
  then show ?thesis
    using assms by (cases "strtoull optarg") (auto simp: parse_option_def Let_def bindr_Inr_iff options_ok_def unat_gt_0)
qed (use assms parse_option_frame [OF assms(1)] in \<open>simp_all add: options_ok_def\<close>)

lemma parse_options_Cons:
  "parse_options ((c, a) # os) opts = Inr (Inr opts') \<longleftrightarrow>
     (\<exists>o1. parse_option c a opts = Inr (Inr o1) \<and> parse_options os o1 = Inr (Inr opts'))"
proof (cases "parse_option c a opts")
  case (Inr r)
  then show ?thesis by (cases r) simp_all
qed simp

lemma parse_options_ok:
  "parse_options os opts = Inr (Inr opts') \<Longrightarrow> options_ok opts \<Longrightarrow> options_ok opts'"
proof (induction os arbitrary: opts)
  case (Cons o1 os)
  then show ?case by (cases o1) (auto simp only: parse_options_Cons dest: parse_option_ok)
qed simp

lemma parse_options_append_decrypt:
  assumes "parse_options os opts = Inr (Inr opts')"
  shows "parse_options (os @ [(OPT_DECRYPT, x)]) opts = Inr (Inr (opts'\<lparr>opt_decrypting := True\<rparr>))"
  using assms
proof (induction os arbitrary: opts)
  case Nil
  then show ?case by (simp add: parse_option_def)
next
  case (Cons o1 os)
  then show ?case by (cases o1) (auto simp only: append_Cons parse_options_Cons)
qed

lemma parse_master_key_ok:
  assumes "parse_master_key arg p = Inr q"
  shows "secret_ok q" and "file_nonce q = file_nonce p" and "fs_uuid q = fs_uuid p"
proof -
  obtain k where k: "hex2bin arg 64 = Some k" using assms by (auto simp: parse_master_key_def split: option.splits)
  show "secret_ok q"
  proof (cases "enable_hw_kdf p")
    case True
    then obtain sec where sec: "derive_sw_secret k = Inr sec" "q = p\<lparr>master_key := k, sw_secret := sec\<rparr>"
      using assms k by (auto simp: parse_master_key_def Let_def bindr_Inr_iff)
    moreover have "length k = 32" using sec(1) hw_kdf_Inr by (simp add: derive_sw_secret_def Let_def)
    ultimately show ?thesis using True length_derived(2) by (simp add: secret_ok_def)
  next
    case False
    then show ?thesis using assms k by (auto simp: parse_master_key_def Let_def secret_ok_def)
  qed
  show "file_nonce q = file_nonce p" "fs_uuid q = fs_uuid p"
    using assms k by (auto simp: parse_master_key_def Let_def bindr_Inr_iff split: if_splits)
qed

lemma main_setup_Inr:
  assumes "main_setup os argv = Inr (Inr (c, key, iv, opts))"
  obtains opts0 params where "parse_options os init_options = Inr (Inr opts0)" "\<not> opt_dump_key_identifier opts0"
    "length argv = 2" "find_fscrypt_cipher (argv ! 0) = Some c" "min_input_size c \<le> opt_data_unit_size opts0"
    "parse_master_key (argv ! 1) (opt_params opts0) = Inr params" "get_key_and_iv params (keysize c) = Inr (key, iv)"
    "opts = opts0\<lparr>opt_params := params\<rparr>"
proof -
  obtain r where r: "parse_options os init_options = Inr r" using assms by (auto simp: main_setup_def bindr_Inr_iff)
  obtain opts0 where o: "r = Inr opts0" using assms r by (cases r) (auto simp: main_setup_def)
  obtain c' where "find_fscrypt_cipher (argv ! 0) = Some c'"
    using assms r o by (auto simp: main_setup_def bindr_Inr_iff split: if_splits option.splits)
  then show thesis
    using assms r o that by (auto simp: main_setup_def bindr_Inr_iff not_less split: if_splits)
qed

lemma main_setup_ok:
  assumes "main_setup os argv = Inr (Inr (c, key, iv, opts))"
  shows "c \<in> set fscrypt_ciphers" and "length key = keysize c" and "length iv = 32" and "options_ok opts"
    and "min_input_size c \<le> opt_data_unit_size opts"
proof -
  obtain opts0 params where s: "parse_options os init_options = Inr (Inr opts0)"
    "find_fscrypt_cipher (argv ! 0) = Some c" "min_input_size c \<le> opt_data_unit_size opts0"
    "parse_master_key (argv ! 1) (opt_params opts0) = Inr params" "get_key_and_iv params (keysize c) = Inr (key, iv)"
    "opts = opts0\<lparr>opt_params := params\<rparr>"
    using assms by (rule main_setup_Inr)
  show c: "c \<in> set fscrypt_ciphers" using s(2) by (rule find_fscrypt_cipher_mem)
  have ok: "options_ok opts0" using parse_options_ok [OF s(1) init_options_ok] .
  then have p: "params_ok params" using parse_master_key_ok(2,3) [OF s(4)] by (simp add: options_ok_def params_ok_def)
  show "length key = keysize c" "length iv = 32" using get_key_and_iv_lengths [OF s(5) fscrypt_keysizes [OF c] p] .
  show "options_ok opts" using ok p s(6) by (simp add: options_ok_def)
  show "min_input_size c \<le> opt_data_unit_size opts" using s(3,6) by simp
qed

lemma main_setup_decrypt:
  assumes "main_setup os argv = Inr (Inr (c, key, iv, opts))"
  shows "main_setup (os @ [(OPT_DECRYPT, x)]) argv = Inr (Inr (c, key, iv, opts\<lparr>opt_decrypting := True\<rparr>))"
proof -
  obtain opts0 params where s: "parse_options os init_options = Inr (Inr opts0)" "\<not> opt_dump_key_identifier opts0"
    "length argv = 2" "find_fscrypt_cipher (argv ! 0) = Some c" "min_input_size c \<le> opt_data_unit_size opts0"
    "parse_master_key (argv ! 1) (opt_params opts0) = Inr params" "get_key_and_iv params (keysize c) = Inr (key, iv)"
    "opts = opts0\<lparr>opt_params := params\<rparr>"
    using assms by (rule main_setup_Inr)
  show ?thesis
    using s parse_options_append_decrypt [OF s(1), of x] by (simp add: main_setup_def dieif_def not_less)
qed

lemma main_roundtrip:
  assumes "reads_stream read data" and "writes_stream write out"
    and "main_setup os argv = Inr (Inr (c, key, iv, opts))" and "\<not> opt_decrypting opts"
    and "min_input_size c = 0 \<longrightarrow> opt_data_unit_size opts mod 16 = 0 \<and> opt_padding opts mod 16 = 0"
    and "out w = []"
  shows "\<exists>s1 w1. main read write os argv s w = Some (Inr (0, [], s1, w1)) \<and>
    (\<forall>s2 w2. data s2 = out w1 \<longrightarrow> out w2 = [] \<longrightarrow>
      (\<exists>s3 w3. main read write (os @ [(OPT_DECRYPT, x)]) argv s2 w2 = Some (Inr (0, [], s3, w3)) \<and>
        out w3 = padded_input c (opt_data_unit_size opts) (opt_padding opts) (data s)))"
proof -
  note ok = main_setup_ok [OF assms(3)]
  obtain k where pad: "opt_padding opts = 0 \<or> opt_padding opts = 2 ^ k" using ok(4) by (auto simp: options_ok_def)
  have sizes: "unit_sizes_ok c (opt_data_unit_size opts) (opt_padding opts)"
    using ok(4,5) assms(5) by (simp add: unit_sizes_ok_def options_ok_def)
  let ?is32 = "iv_ino_lblk_64 (opt_params opts) \<or> iv_ino_lblk_32 (opt_params opts)"
  obtain s1 w1 where e: "crypt_loop read write c key iv False (opt_data_unit_size opts) (opt_padding opts) ?is32 s w = Some (Inr (s1, w1))"
    and d: "\<forall>s2 w2. data s2 = out w1 \<longrightarrow> out w2 = [] \<longrightarrow>
      (\<exists>s3 w3. crypt_loop read write c key iv True (opt_data_unit_size opts) (opt_padding opts) ?is32 s2 w2 = Some (Inr (s3, w3)) \<and>
        out w3 = padded_input c (opt_data_unit_size opts) (opt_padding opts) (data s))"
    using crypt_loop_roundtrip [OF assms(1,2) ok(1-3) pad sizes assms(6), of ?is32 s] by blast
  have "main read write os argv s w = Some (Inr (0, [], s1, w1))"
    using e assms(3,4) by (simp add: main_def)
  moreover have "\<exists>s3 w3. main read write (os @ [(OPT_DECRYPT, x)]) argv s2 w2 = Some (Inr (0, [], s3, w3)) \<and>
        out w3 = padded_input c (opt_data_unit_size opts) (opt_padding opts) (data s)"
    if "data s2 = out w1" "out w2 = []" for s2 w2
    using d [rule_format, OF that] main_setup_decrypt [OF assms(3), of x] by (auto simp: main_def)
  ultimately show ?thesis by blast
qed

section \<open>Hexadecimal output is read back\<close>

lemma hexchar2bin_hex_digit: "n < 16 \<Longrightarrow> hexchar2bin (hex_digit n) = int n"
proof -
  have "list_all (\<lambda>n. hexchar2bin (hex_digit n) = int n) [0..<16]" by code_simp
  then show "n < 16 \<Longrightarrow> hexchar2bin (hex_digit n) = int n" by (simp add: list_all_iff)
qed

lemma byte_from_nibbles: "word_of_int (push_bit 4 (int (unat b div 16)) OR int (unat b mod 16)) = (b :: u8)"
proof -
  have "int (unat b div 16) = drop_bit 4 (uint b)" "int (unat b mod 16) = take_bit 4 (uint b)"
    by (simp_all add: drop_bit_eq_div take_bit_eq_mod zdiv_int zmod_int)
  moreover have "push_bit 4 (drop_bit 4 x) OR take_bit 4 x = x" for x :: int
    by (rule bit_eqI) (auto simp: bit_or_iff bit_push_bit_iff bit_drop_bit_eq bit_take_bit_iff)
  ultimately show ?thesis by simp
qed

lemma hex2bin_loop_print_hex: "hex2bin_loop (print_hex bs) = Some bs"
proof (induction bs)
  case (Cons b bs)
  have "unat b < 2 ^ LENGTH(8)" by (rule unsigned_less)
  then have "unat b div 16 < 16" by (intro less_mult_imp_div_less) simp
  moreover have "unat b mod 16 < 16" by simp
  ultimately show ?case
    using Cons.IH byte_from_nibbles [of b] by (simp add: print_hex_def hexchar2bin_hex_digit)
qed (simp add: print_hex_def)

lemma length_print_hex: "length (print_hex bs) = 2 * length bs"
  unfolding print_hex_def by (subst length_concat_fixed [of _ 2]) auto

lemma hex2bin_print_hex: "length bs \<le> n \<Longrightarrow> hex2bin (print_hex bs) n = Some bs"
  by (simp add: hex2bin_def length_print_hex hex2bin_loop_print_hex)

section \<open>Properties\<close>

text \<open>Streams in memory with short transfers, for concrete runs.\<close>

definition short_read :: "nat \<Rightarrow> bytes read_call" where
  "short_read c s n = Some (drop (min c n) s, take (min c n) s)"

definition short_write :: "nat \<Rightarrow> bytes write_call" where
  "short_write c w b = Some (w @ take c b, min c (length b))"

lemma short_read_stream: "0 < c \<Longrightarrow> reads_stream (short_read c) (\<lambda>s. s)"
  by (auto simp: reads_stream_def short_read_def)

lemma short_write_stream: "0 < c \<Longrightarrow> writes_stream (short_write c) (\<lambda>w. w)"
  by (auto simp: writes_stream_def short_write_def min_def)

text \<open>
  C1. The whole program: when it is set up to encrypt and the ciphers that need whole blocks are given a data
  unit size and a padding of whole blocks, it returns with status 0; and run with the same
  arguments and \<open>--decrypt\<close> on what it wrote, it returns with status 0 and writes its original input,
  extended by the zero padding of the last data unit.
\<close>

theorem main_decrypts_what_it_encrypted:
  assumes "reads_stream read data" and "writes_stream write out"
    and "main_setup os argv = Inr (Inr (c, key, iv, opts))" and "\<not> opt_decrypting opts"
    and "min_input_size c = 0 \<longrightarrow> opt_data_unit_size opts mod 16 = 0 \<and> opt_padding opts mod 16 = 0"
    and "out w = []"
  shows "\<exists>s1 w1. main read write os argv s w = Some (Inr (0, [], s1, w1)) \<and>
    (\<forall>s2 w2. data s2 = out w1 \<longrightarrow> out w2 = [] \<longrightarrow>
      (\<exists>s3 w3. main read write (os @ [(OPT_DECRYPT, x)]) argv s2 w2 = Some (Inr (0, [], s3, w3)) \<and>
        out w3 = padded_input c (opt_data_unit_size opts) (opt_padding opts) (data s)))"
  using assms by (rule main_roundtrip)

lemma xts_setup:
  "\<exists>c key iv opts. main_setup [] [''AES-256-XTS'', replicate 128 CHR ''a''] = Inr (Inr (c, key, iv, opts)) \<and>
     \<not> opt_decrypting opts \<and> opt_data_unit_size opts = 4096 \<and> opt_padding opts = 0"
proof -
  have h: "hex2bin (replicate 128 CHR ''a'') 64 = Some (replicate 64 170)" by code_simp
  show ?thesis
    by (simp add: main_setup_def init_options_def init_params_def find_fscrypt_cipher_def fscrypt_ciphers_def
        parse_master_key_def h get_key_and_iv_def derive_real_key_def generate_iv_def Let_def)
qed

theorem main_decrypts_what_it_encrypted_witness:
  "\<exists>w1. main (short_read 5) (short_write 3) [] [''AES-256-XTS'', replicate 128 CHR ''a''] (replicate 5000 9) [] =
      Some (Inr (0, [], w1)) \<and>
    (\<exists>s w2. main (short_read 5) (short_write 3) [(OPT_DECRYPT, [])] [''AES-256-XTS'', replicate 128 CHR ''a''] (snd w1) [] =
      Some (Inr (0, [], s, w2)) \<and> take 5000 w2 = replicate 5000 9)"
proof -
  obtain c key iv opts where s: "main_setup [] [''AES-256-XTS'', replicate 128 CHR ''a''] = Inr (Inr (c, key, iv, opts))"
    "\<not> opt_decrypting opts" "opt_data_unit_size opts = 4096" "opt_padding opts = 0" using xts_setup by blast
  have "\<exists>s1 w1. main (short_read 5) (short_write 3) [] [''AES-256-XTS'', replicate 128 CHR ''a''] (replicate 5000 9) [] =
      Some (Inr (0, [], s1, w1)) \<and>
    (\<forall>s2 w2. s2 = w1 \<longrightarrow> w2 = [] \<longrightarrow>
      (\<exists>s3 w3. main (short_read 5) (short_write 3) ([] @ [(OPT_DECRYPT, [])]) [''AES-256-XTS'', replicate 128 CHR ''a''] s2 w2 =
          Some (Inr (0, [], s3, w3)) \<and>
        w3 = padded_input c (opt_data_unit_size opts) (opt_padding opts) (replicate 5000 9)))"
    by (rule main_decrypts_what_it_encrypted [OF short_read_stream short_write_stream s(1,2)]) (simp_all add: s(3,4))
  then show ?thesis by (auto simp: padded_input_def Let_def)
qed

text \<open>
  C3. The data unit loop returns on every input and refines its specification, whatever the sizes of the
  partial transfers: it consumes the whole input, and writes the units of the input encrypted
  one by one under the successive IVs, or fails with the same error.
\<close>

theorem crypt_loop_refines_units:
  assumes "reads_stream read data" and "writes_stream write out" and "0 < dus"
  shows "\<exists>r. crypt_loop read write cipher key iv decrypting dus padding is32 s w = Some r \<and>
    (case crypt_units cipher key iv decrypting dus padding is32 (data s) of
       Inl e \<Rightarrow> r = Inl e
     | Inr ctext \<Rightarrow> \<exists>s' w'. r = Inr (s', w') \<and> data s' = [] \<and> out w' = out w @ ctext)"
  using assms by (rule crypt_loop_units)

theorem crypt_loop_refines_units_witness:
  "\<exists>r. crypt_loop (short_read 5) (short_write 3) (hd fscrypt_ciphers) (replicate 64 1) (replicate 32 0) False 4096 0 False
      (replicate 5000 9) [] = Some r \<and>
    (case crypt_units (hd fscrypt_ciphers) (replicate 64 1) (replicate 32 0) False 4096 0 False (replicate 5000 9) of
       Inl e \<Rightarrow> r = Inl e | Inr ctext \<Rightarrow> r = Inr ([], ctext))"
  using crypt_loop_refines_units [OF short_read_stream [of 5] short_write_stream [of 3], of 4096 "hd fscrypt_ciphers"
      "replicate 64 1" "replicate 32 0" False 0 False "replicate 5000 9" "[]"]
  by (auto split: sum.splits)

text \<open>
  C6. Every entry of the cipher table, driven over whole inputs: with a key of the entry's size, and sizes the
  entry accepts, the units of any input are encrypted, and decrypting the ciphertext under the
  same starting IV returns the input with the zero padding of its last unit.
\<close>

theorem every_cipher_units_roundtrip:
  assumes "c \<in> set fscrypt_ciphers" and "length key = keysize c" and "length iv = 32"
    and "padding = 0 \<or> padding = 2 ^ k" and "unit_sizes_ok c dus padding"
  shows "\<exists>ctext. crypt_units c key iv False dus padding is32 data = Inr ctext \<and>
    crypt_units c key iv True dus padding is32 ctext = Inr (padded_input c dus padding data)"
  using assms by (rule cipher_units_roundtrip)

theorem every_cipher_units_roundtrip_witness:
  "\<exists>ctext. crypt_units (fscrypt_ciphers ! 1) (replicate 32 1) (replicate 32 0) False 512 32 True (replicate 1000 9) = Inr ctext \<and>
    crypt_units (fscrypt_ciphers ! 1) (replicate 32 1) (replicate 32 0) True 512 32 True ctext =
      Inr (replicate 1000 9 @ replicate 24 0)"
proof -
  have r: "ROUND_UP 488 32 = 512" by (simp add: ROUND_UP_pow2 [of 488 5, simplified])
  have "padded_input (fscrypt_ciphers ! 1) 512 32 (replicate 1000 9) = replicate 1000 9 @ replicate 24 0"
    by (simp add: padded_input_def last_unit_len_def Let_def unit_crypt_len_def fscrypt_ciphers_def r)
  then show ?thesis
    using every_cipher_units_roundtrip [of "fscrypt_ciphers ! 1" "replicate 32 1" "replicate 32 0" 32 5 512 True "replicate 1000 9"]
    by (simp add: unit_sizes_ok_def fscrypt_ciphers_def)
qed

text \<open>
  C9. Key separation: two HKDF requests with the same application specific information string have the same
  use (the same kind of key and the same file nonce, mode number and file system UUID it is bound
  to), so keys for different uses are derived from different information strings.
\<close>

theorem hkdf_info_separates_uses:
  assumes "hkdf_key_info p = Inr info" and "hkdf_key_info q = Inr info"
  shows "key_use_of p = key_use_of q"
  using assms by (rule hkdf_key_info_injective)

theorem hkdf_info_separates_uses_witness:
  "hkdf_key_info (init_params\<lparr>direct_key := True, mode_num := 1\<rparr>) =
     hkdf_key_info (init_params\<lparr>direct_key := True, mode_num := 1, inode_number := 7\<rparr>) \<and>
   key_use_of (init_params\<lparr>direct_key := True, mode_num := 1\<rparr>) =
     key_use_of (init_params\<lparr>direct_key := True, mode_num := 1, inode_number := 7\<rparr>)"
proof -
  let ?p = "init_params\<lparr>direct_key := True, mode_num := 1\<rparr>"
  let ?q = "init_params\<lparr>direct_key := True, mode_num := 1, inode_number := 7\<rparr>"
  have "hkdf_key_info ?p = Inr (info_prefix @ [HKDF_CONTEXT_DIRECT_KEY, 1])"
    "hkdf_key_info ?q = Inr (info_prefix @ [HKDF_CONTEXT_DIRECT_KEY, 1])"
    by (simp_all add: hkdf_key_info_def init_params_def)
  then show ?thesis using hkdf_info_separates_uses [of ?p "info_prefix @ [HKDF_CONTEXT_DIRECT_KEY, 1]" ?q] by simp
qed

text \<open>
  C10. IVs identify what they are for: under one IV method equal starting IVs come from the same data unit index and,
  where the key is shared between files, from the same file (its nonce, or its inode number).  The 32 bit method
  adds the index to a hash of the inode number, so that IVs of different files may coincide; under it equal IVs of
  one file and one master key come from the same index.
\<close>

theorem generate_iv_identifies_unit:
  assumes "generate_iv p = Inr iv" and "generate_iv q = Inr iv" and "params_ok p" and "params_ok q"
    and "same_iv_method p q"
  shows "(iv_ino_lblk_32 p \<longrightarrow> sw_secret p = sw_secret q \<and> inode_number p = inode_number q \<longrightarrow>
      data_unit_index p = data_unit_index q) \<and>
    (\<not> iv_ino_lblk_32 p \<longrightarrow> data_unit_index p = data_unit_index q \<and>
      (direct_key p \<longrightarrow> file_nonce p = file_nonce q) \<and>
      (\<not> direct_key p \<and> iv_ino_lblk_64 p \<longrightarrow> inode_number p = inode_number q))"
  using generate_iv_injective [OF assms] by blast

theorem generate_iv_identifies_unit_witness:
  "generate_iv (init_params\<lparr>iv_ino_lblk_64 := True, inode_number := 7, data_unit_index := 3\<rparr>) \<noteq>
     generate_iv (init_params\<lparr>iv_ino_lblk_64 := True, inode_number := 8, data_unit_index := 3\<rparr>)"
proof
  let ?p = "init_params\<lparr>iv_ino_lblk_64 := True, inode_number := 7, data_unit_index := 3\<rparr>"
  let ?q = "init_params\<lparr>iv_ino_lblk_64 := True, inode_number := 8, data_unit_index := 3\<rparr>"
  assume eq: "generate_iv ?p = generate_iv ?q"
  obtain iv where "generate_iv ?p = Inr iv"
    by (simp add: generate_iv_def init_params_def)
  then show False using eq generate_iv_identifies_unit [of ?p iv ?q]
    by (simp add: params_ok_def same_iv_method_def init_params_def)
qed

text \<open>
  C14. No IV is used twice in a run: the IVs of the data units of one run are pairwise different for as long as
  the index the run increments has not gone once through its whole width.
\<close>

theorem run_ivs_never_repeat:
  assumes "8 \<le> length iv" and "m < n" and "n < (if is32 then 2 ^ 32 else 2 ^ 64)"
  shows "(next_iv is32 ^^ m) iv \<noteq> (next_iv is32 ^^ n) iv"
  using assms by (rule run_ivs_distinct)

theorem run_ivs_never_repeat_witness:
  "(next_iv True ^^ 5) (replicate 32 255) \<noteq> (next_iv True ^^ 4000000000) (replicate 32 255)"
  by (rule run_ivs_never_repeat) simp_all



text \<open>
  C15. What the set up hands to the crypt loop is well typed: a cipher of the table, a key of that cipher's size,
  an IV of 32 bytes, a positive data unit size no smaller than the cipher's minimum, a padding
  that is zero or a power of two, and a nonce and UUID of 16 bytes.
\<close>

theorem main_setup_well_typed:
  assumes "main_setup os argv = Inr (Inr (c, key, iv, opts))"
  shows "c \<in> set fscrypt_ciphers \<and> length key = keysize c \<and> length iv = 32 \<and> options_ok opts \<and>
    min_input_size c \<le> opt_data_unit_size opts"
  using main_setup_ok [OF assms] by blast

theorem main_setup_well_typed_witness:
  "\<exists>c key iv opts. main_setup [] [''AES-256-XTS'', replicate 128 CHR ''a''] = Inr (Inr (c, key, iv, opts)) \<and>
     length key = keysize c \<and> length iv = 32"
  using xts_setup main_setup_well_typed by metis

text \<open>
  The option loop keeps the options well formed: from well formed options every accepted sequence of options
  leads to a positive data unit size, a padding of zero or a power of two below \<open>2 ^ 31\<close>, and
  nonce and UUID fields of 16 bytes.
\<close>

theorem parse_options_keep_invariant:
  assumes "parse_options os opts = Inr (Inr opts')" and "options_ok opts"
  shows "options_ok opts'"
  using assms by (rule parse_options_ok)

text \<open>
  The length of a unit handed to the cipher: the last unit, of \<open>r\<close> bytes, is padded to a length that is no
  shorter than \<open>r\<close>, at least the cipher's minimum and at most the data unit size (so the padding stays
  inside the unit buffer), and a unit already padded is not padded again.
\<close>

theorem unit_crypt_len_fits_buffer:
  assumes "padding = 0 \<or> padding = 2 ^ k" and "0 < r" and "r \<le> dus" and "min_input_size c \<le> dus"
  shows "r \<le> unit_crypt_len c dus padding r \<and> unit_crypt_len c dus padding r \<le> dus \<and>
    min_input_size c \<le> unit_crypt_len c dus padding r \<and>
    unit_crypt_len c dus padding (unit_crypt_len c dus padding r) = unit_crypt_len c dus padding r"
  using unit_crypt_len_bounds [OF assms] unit_crypt_len_idem [OF assms] by blast

text \<open>
  Hexadecimal round trip: what \<open>--dump-key-identifier\<close> prints for a byte string is read back by \<open>hex2bin\<close> as
  that byte string, in any buffer that holds it.
\<close>

theorem hex2bin_reads_print_hex:
  assumes "length bs \<le> n"
  shows "hex2bin (print_hex bs) n = Some bs"
  using assms by (rule hex2bin_print_hex)

end
