(* ===== verification/Fsx_State.thy ===== *)
theory Fsx_State
  imports Bytes
begin

text \<open>
  The file system exerciser \<open>src/ltp/fsx.c\<close>: its operation codes, log entries, options and
  global variables, the system calls it makes, the operation log, and the ways a run ends.

  The globals of the program that change while it runs are the fields of \<open>fsx\<close>; those that
  are fixed once \<open>main\<close> has read its options and probed the file system are the fields of
  \<open>fsx_cfg\<close>.  Sizes and offsets are natural numbers; where the source computes in
  \<open>unsigned\<close> the reduction modulo \<open>2 ^ 32\<close> is written out as \<open>wrap32\<close>, and the conversion
  to \<open>int\<close> as \<open>c_int\<close>.  Text printed on the way (progress, diagnostics) is not part of the
  state and is left out; the dump of the log is modelled in its own theory.
\<close>

section \<open>Operations and log entries\<close>

datatype fsx_op =
    OP_READ
  | OP_READ_DONTCACHE
  | OP_WRITE
  | OP_WRITE_DONTCACHE
  | OP_WRITE_ATOMIC
  | OP_MAPREAD
  | OP_MAPWRITE
  | OP_TRUNCATE
  | OP_FALLOCATE
  | OP_PUNCH_HOLE
  | OP_ZERO_RANGE
  | OP_COLLAPSE_RANGE
  | OP_INSERT_RANGE
  | OP_CLONE_RANGE
  | OP_DEDUPE_RANGE
  | OP_COPY_RANGE
  | OP_EXCHANGE_RANGE
  | OP_FSYNC

text \<open>The codes in the order of the enumeration; the limits are the codes of the first excluded operation.\<close>

definition fsx_ops :: "fsx_op list" where
  "fsx_ops = [OP_READ, OP_READ_DONTCACHE, OP_WRITE, OP_WRITE_DONTCACHE, OP_WRITE_ATOMIC, OP_MAPREAD, OP_MAPWRITE,
     OP_TRUNCATE, OP_FALLOCATE, OP_PUNCH_HOLE, OP_ZERO_RANGE, OP_COLLAPSE_RANGE, OP_INSERT_RANGE, OP_CLONE_RANGE,
     OP_DEDUPE_RANGE, OP_COPY_RANGE, OP_EXCHANGE_RANGE, OP_FSYNC]"

definition OP_MAX_LITE :: nat where "OP_MAX_LITE = 7"
definition OP_MAX_FULL :: nat where "OP_MAX_FULL = 17"
definition OP_MAX_INTEGRITY :: nat where "OP_MAX_INTEGRITY = 18"

datatype opflag = FL_SKIPPED | FL_CLOSE_OPEN | FL_KEEP_SIZE | FL_UNSHARE

text \<open>A set of operation flags is the bit mask of the source, \<open>FL_NONE\<close> the empty one.\<close>

type_synonym opflags = "opflag set"

abbreviation FL_NONE :: opflags where "FL_NONE \<equiv> {}"

record log_entry =
  operation :: fsx_op
  nr_args :: nat
  args :: "int list"
  flags :: opflags

definition LOGSIZE :: nat where "LOGSIZE = 10000"

definition wrap32 :: "nat \<Rightarrow> nat" where
  "wrap32 n = n mod 2 ^ 32"

definition c_int :: "nat \<Rightarrow> int" where
  "c_int n = (int n + 2 ^ 31) mod 2 ^ 32 - 2 ^ 31"

section \<open>Options\<close>

record fsx_cfg =
  block_size :: nat
  page_size :: nat
  simulatedopcount :: nat
  closeprob :: nat
  filldata :: u8
  flush :: bool
  do_fsync :: bool
  maxfilelen :: nat
  sizechecks :: bool
  maxoplen :: nat
  readbdy :: nat
  style :: bool
  truncbdy :: nat
  writebdy :: nat
  lite :: bool
  randomoplen :: bool
  mapped_writes :: bool
  fallocate_calls :: bool
  keep_size_calls :: bool
  unshare_range_calls :: bool
  punch_hole_calls :: bool
  zero_range_calls :: bool
  collapse_range_calls :: bool
  insert_range_calls :: bool
  mapped_reads :: bool
  check_file :: bool
  clone_range_calls :: bool
  dedupe_range_calls :: bool
  copy_range_calls :: bool
  exchange_range_calls :: bool
  integrity :: bool
  pollute_eof :: bool
  o_direct :: bool
  aio :: bool
  uring :: bool
  dontcache_io :: bool
  do_atomic_writes :: bool
  awu_min :: nat
  awu_max :: nat

definition page_mask :: "fsx_cfg \<Rightarrow> nat" where
  "page_mask cfg = page_size cfg - 1"

section \<open>System calls\<close>

datatype rwf = RWF_NONE | RWF_DONTCACHE | RWF_ATOMIC

datatype falloc_mode =
    FALLOC_DEFAULT (falloc_keep_size: bool) (falloc_unshare: bool)
  | FALLOC_FL_PUNCH_HOLE
  | FALLOC_FL_ZERO_RANGE (zero_keep_size: bool)
  | FALLOC_FL_COLLAPSE_RANGE
  | FALLOC_FL_INSERT_RANGE

text \<open>
  An asynchronous request: it cannot be submitted, no completion is delivered, or its completion
  carries an error or a value.
\<close>

datatype 'a async_io = Submit_failed | Wait_failed | Io_error | Completed 'a

datatype copy_result = Copied nat | Copy_again | Copy_failed

datatype dedupe_result = Dedupe_ioctl_failed | Dedupe_status_error | Deduped

text \<open>
  The test file and the rest of the outside world is an abstract value of type \<open>'f\<close>.  A call takes
  it and returns the new one with the result of the call: \<open>None\<close> or \<open>False\<close> is the failure
  value.  Memory mappings are of the test file and shared, so loads and stores through them are
  addressed by file offset.  \<open>sys_random\<close> is the sequence \<open>random()\<close> delivers.
\<close>

record 'f sys =
  sys_preadv2 :: "'f \<Rightarrow> nat \<Rightarrow> nat \<Rightarrow> rwf \<Rightarrow> 'f \<times> bytes option"
  sys_pwritev2 :: "'f \<Rightarrow> bytes \<Rightarrow> nat \<Rightarrow> rwf \<Rightarrow> 'f \<times> nat option"
  sys_aio_pread :: "'f \<Rightarrow> nat \<Rightarrow> nat \<Rightarrow> 'f \<times> bytes async_io"
  sys_aio_pwrite :: "'f \<Rightarrow> bytes \<Rightarrow> nat \<Rightarrow> 'f \<times> nat async_io"
  sys_uring_readv :: "'f \<Rightarrow> nat \<Rightarrow> nat \<Rightarrow> rwf \<Rightarrow> 'f \<times> bytes async_io"
  sys_uring_writev :: "'f \<Rightarrow> bytes \<Rightarrow> nat \<Rightarrow> rwf \<Rightarrow> 'f \<times> nat async_io"
  sys_lseek_set :: "'f \<Rightarrow> 'f \<times> bool"
  sys_write :: "'f \<Rightarrow> bytes \<Rightarrow> 'f \<times> nat option"
  sys_ftruncate :: "'f \<Rightarrow> nat \<Rightarrow> 'f \<times> bool"
  sys_fallocate :: "'f \<Rightarrow> falloc_mode \<Rightarrow> nat \<Rightarrow> nat \<Rightarrow> 'f \<times> bool"
  sys_exchange_range :: "'f \<Rightarrow> nat \<Rightarrow> nat \<Rightarrow> nat \<Rightarrow> 'f \<times> bool"
  sys_clone_range :: "'f \<Rightarrow> nat \<Rightarrow> nat \<Rightarrow> nat \<Rightarrow> 'f \<times> bool"
  sys_dedupe_range :: "'f \<Rightarrow> nat \<Rightarrow> nat \<Rightarrow> nat \<Rightarrow> 'f \<times> dedupe_result"
  sys_copy_file_range :: "'f \<Rightarrow> nat \<Rightarrow> nat \<Rightarrow> nat \<Rightarrow> 'f \<times> copy_result"
  sys_fsync :: "'f \<Rightarrow> 'f \<times> bool"
  sys_mmap :: "'f \<Rightarrow> nat \<Rightarrow> nat \<Rightarrow> 'f \<times> bool"
  sys_load :: "'f \<Rightarrow> nat \<Rightarrow> nat \<Rightarrow> bytes"
  sys_store :: "'f \<Rightarrow> nat \<Rightarrow> bytes \<Rightarrow> 'f"
  sys_msync :: "'f \<Rightarrow> nat \<Rightarrow> nat \<Rightarrow> 'f \<times> bool"
  sys_munmap :: "'f \<Rightarrow> nat \<Rightarrow> nat \<Rightarrow> 'f \<times> bool"
  sys_fstat_size :: "'f \<Rightarrow> nat option"
  sys_lseek_end :: "'f \<Rightarrow> nat option"
  sys_close :: "'f \<Rightarrow> 'f \<times> bool"
  sys_drop_caches :: "'f \<Rightarrow> 'f \<times> bool"
  sys_open :: "'f \<Rightarrow> 'f \<times> bool"
  sys_mark_log :: "'f \<Rightarrow> nat \<Rightarrow> 'f \<times> bool"
  sys_dump_buffer :: "'f \<Rightarrow> nat \<Rightarrow> bytes \<Rightarrow> 'f \<times> bool"
  sys_random :: "nat \<Rightarrow> nat"

section \<open>Program state and the ways out\<close>

record 'f fsx =
  fsys :: 'f
  original_buf :: bytes
  good_buf :: bytes
  file_size :: nat
  biggest :: nat
  testcalls :: nat
  oplog :: "nat \<Rightarrow> log_entry"
  logptr :: nat
  logcount :: nat
  badoff :: int
  closeopen :: bool
  mark_nr :: nat
  random_ix :: nat
  replayopsf :: "string option"

text \<open>
  The program ends early through \<open>report_failure\<close>, which dumps the log and saves the good buffer
  before it exits, or by a plain \<open>exit\<close>.  A routine that ends the program returns \<open>Inl\<close> of the way
  and the final state; a routine that never returns is \<open>None\<close>.
\<close>

datatype fsx_exit = Report_failure nat | Exit nat

type_synonym ('f, 'a) fsx_result = "(fsx_exit \<times> 'f fsx + 'a) option"

definition andthen :: "('f, 'a) fsx_result \<Rightarrow> ('a \<Rightarrow> ('f, 'b) fsx_result) \<Rightarrow> ('f, 'b) fsx_result" where
  "andthen r k = (case r of None \<Rightarrow> None | Some (Inl e) \<Rightarrow> Some (Inl e) | Some (Inr x) \<Rightarrow> k x)"

definition ret :: "'a \<Rightarrow> ('f, 'a) fsx_result" where
  "ret x = Some (Inr x)"

definition report_failure :: "nat \<Rightarrow> 'f fsx \<Rightarrow> ('f, 'a) fsx_result" where
  "report_failure status s = Some (Inl (Report_failure status, s))"

definition exit_with :: "nat \<Rightarrow> 'f fsx \<Rightarrow> ('f, 'a) fsx_result" where
  "exit_with status s = Some (Inl (Exit status, s))"

text \<open>Go on in the new outside world if the call succeeded, and report a failure otherwise.\<close>

definition check_call :: "'f fsx \<Rightarrow> 'f \<times> bool \<Rightarrow> nat \<Rightarrow> ('f fsx \<Rightarrow> ('f, 'a) fsx_result) \<Rightarrow> ('f, 'a) fsx_result" where
  "check_call s r status k =
     (let s' = s\<lparr>fsys := fst r\<rparr> in if snd r then k s' else report_failure status s')"

definition next_random :: "'f sys \<Rightarrow> 'f fsx \<Rightarrow> nat \<times> 'f fsx" where
  "next_random sys s = (sys_random sys (random_ix s), s\<lparr>random_ix := random_ix s + 1\<rparr>)"

section \<open>The operation log\<close>

definition log_advance :: "'f fsx \<Rightarrow> 'f fsx" where
  "log_advance s =
     (let p = logptr s + 1
      in s\<lparr>logptr := (if p \<ge> LOGSIZE then 0 else p), logcount := logcount s + 1\<rparr>)"

definition log5 :: "fsx_op \<Rightarrow> int \<Rightarrow> int \<Rightarrow> int \<Rightarrow> opflags \<Rightarrow> 'f fsx \<Rightarrow> 'f fsx" where
  "log5 op arg0 arg1 arg2 fl s =
     (let le = oplog s (logptr s);
          fl = (if closeopen s then fl \<union> {FL_CLOSE_OPEN} else fl);
          le = \<lparr>operation = op, nr_args = 4,
                args = (args le)[0 := arg0, 1 := arg1, 2 := arg2, 3 := c_int (file_size s)], flags = fl\<rparr>
      in log_advance (s\<lparr>oplog := (oplog s)(logptr s := le)\<rparr>))"

definition log4 :: "fsx_op \<Rightarrow> int \<Rightarrow> int \<Rightarrow> opflags \<Rightarrow> 'f fsx \<Rightarrow> 'f fsx" where
  "log4 op arg0 arg1 fl s =
     (let le = oplog s (logptr s);
          fl = (if closeopen s then fl \<union> {FL_CLOSE_OPEN} else fl);
          le = \<lparr>operation = op, nr_args = 3,
                args = (args le)[0 := arg0, 1 := arg1, 2 := c_int (file_size s)], flags = fl\<rparr>
      in log_advance (s\<lparr>oplog := (oplog s)(logptr s := le)\<rparr>))"

end
