(* ===== verification/Fsx_Ops.thy ===== *)
theory Fsx_Ops
  imports Fsx_State
begin

text \<open>
  The operations of \<open>src/ltp/fsx.c\<close> on the test file: reading and writing by the three I/O
  interfaces, the comparison of what was read with the good buffer, the checks of the file size and
  of the page past the end of file, and every operation \<open>test\<close> can choose.
\<close>

unbundle bit_operations_syntax

section \<open>Reading and writing\<close>

definition aio_read :: "'f sys \<Rightarrow> 'f \<Rightarrow> nat \<Rightarrow> nat \<Rightarrow> 'f \<times> bytes option" where
  "aio_read sys f len offset =
     (case sys_aio_pread sys f len offset of
        (f', Completed buf) \<Rightarrow> (f', Some buf)
      | (f', _) \<Rightarrow> (f', None))"

definition aio_write :: "'f sys \<Rightarrow> 'f \<Rightarrow> bytes \<Rightarrow> nat \<Rightarrow> 'f \<times> nat option" where
  "aio_write sys f buf offset =
     (case sys_aio_pwrite sys f buf offset of
        (f', Completed n) \<Rightarrow> (f', Some n)
      | (f', _) \<Rightarrow> (f', None))"

text \<open>
  The loop of \<open>uring_rw\<close> with its locals \<open>l\<close>, \<open>o\<close> and what was transferred so far: it goes on after
  a short transfer and stops after an empty one.
\<close>

partial_function (option) uring_read_loop ::
  "'f sys \<Rightarrow> 'f \<Rightarrow> rwf \<Rightarrow> nat \<Rightarrow> nat \<Rightarrow> bytes \<Rightarrow> ('f \<times> bytes option) option" where
  [code]: "uring_read_loop sys f fl l o' p =
     (if l = 0 then Some (f, Some p)
      else case sys_uring_readv sys f l o' fl of
        (f', Completed buf) \<Rightarrow>
          if buf \<noteq> []
          then uring_read_loop sys f' fl (wrap32 (l + 2 ^ 32 - length buf)) (wrap32 (o' + length buf)) (p @ buf)
          else Some (f', Some p)
      | (f', _) \<Rightarrow> Some (f', None))"

partial_function (option) uring_write_loop ::
  "'f sys \<Rightarrow> 'f \<Rightarrow> rwf \<Rightarrow> bytes \<Rightarrow> nat \<Rightarrow> nat \<Rightarrow> nat \<Rightarrow> ('f \<times> nat option) option" where
  [code]: "uring_write_loop sys f fl buf l o' res =
     (if l = 0 then Some (f, Some res)
      else case sys_uring_writev sys f (slice buf res l) o' fl of
        (f', Completed n) \<Rightarrow>
          if n > 0
          then uring_write_loop sys f' fl buf (wrap32 (l + 2 ^ 32 - n)) (wrap32 (o' + n)) (res + n)
          else Some (f', Some res)
      | (f', _) \<Rightarrow> Some (f', None))"

definition fsxread :: "'f sys \<Rightarrow> fsx_cfg \<Rightarrow> 'f \<Rightarrow> nat \<Rightarrow> nat \<Rightarrow> rwf \<Rightarrow> ('f \<times> bytes option) option" where
  "fsxread sys cfg f len offset fl =
     (if aio cfg then Some (aio_read sys f len offset)
      else if uring cfg then uring_read_loop sys f fl len offset []
      else Some (sys_preadv2 sys f len offset fl))"

definition fsxwrite :: "'f sys \<Rightarrow> fsx_cfg \<Rightarrow> 'f \<Rightarrow> bytes \<Rightarrow> nat \<Rightarrow> rwf \<Rightarrow> ('f \<times> nat option) option" where
  "fsxwrite sys cfg f buf offset fl =
     (if aio cfg then Some (aio_write sys f buf offset)
      else if uring cfg then uring_write_loop sys f fl buf (length buf) offset 0
      else Some (sys_pwritev2 sys f buf offset fl))"

section \<open>Checks\<close>

text \<open>The scan over the differing buffers leaves the last differing offset in \<open>badoff\<close>.\<close>

fun scan_bad :: "bytes \<Rightarrow> bytes \<Rightarrow> nat \<Rightarrow> nat \<Rightarrow> nat \<Rightarrow> int \<Rightarrow> int" where
  "scan_bad good buf offset i 0 bad = bad"
| "scan_bad good buf offset i (Suc sz) bad =
     scan_bad good buf (offset + 1) (i + 1) sz (if good ! offset \<noteq> buf ! i then c_int offset else bad)"

definition check_buffers :: "bytes \<Rightarrow> nat \<Rightarrow> nat \<Rightarrow> 'f fsx \<Rightarrow> ('f, 'f fsx) fsx_result" where
  "check_buffers buf offset sz s =
     (if slice (good_buf s) offset sz \<noteq> take sz buf
      then report_failure 110 (s\<lparr>badoff := scan_bad (good_buf s) buf offset 0 sz (badoff s)\<rparr>)
      else ret s)"

text \<open>A failing \<open>fstat\<close> or \<open>lseek\<close> leaves the value \<open>-1\<close>, which is no file size.\<close>

definition check_size :: "'f sys \<Rightarrow> 'f fsx \<Rightarrow> ('f, 'f fsx) fsx_result" where
  "check_size sys s =
     (if sys_fstat_size sys (fsys s) \<noteq> Some (file_size s) \<or> sys_lseek_end sys (fsys s) \<noteq> Some (file_size s)
      then report_failure 120 s else ret s)"

definition check_trunc_hack :: "'f sys \<Rightarrow> 'f fsx \<Rightarrow> ('f, 'f fsx) fsx_result" where
  "check_trunc_hack sys s =
     (let offset = file_size s + 100000;
          (f1, ok1) = sys_ftruncate sys (fsys s) (file_size s)
      in if \<not> ok1 then exit_with 131 (s\<lparr>fsys := f1\<rparr>)
         else let (f2, ok2) = sys_ftruncate sys f1 offset
         in if \<not> ok2 then exit_with 131 (s\<lparr>fsys := f2\<rparr>)
            else if sys_fstat_size sys f2 \<noteq> Some offset then exit_with 130 (s\<lparr>fsys := f2\<rparr>)
            else let (f3, ok3) = sys_ftruncate sys f2 (file_size s)
            in if \<not> ok3 then exit_with 131 (s\<lparr>fsys := f3\<rparr>) else ret (s\<lparr>fsys := f3\<rparr>))"

definition doflush :: "'f sys \<Rightarrow> fsx_cfg \<Rightarrow> nat \<Rightarrow> nat \<Rightarrow> 'f fsx \<Rightarrow> ('f, 'f fsx) fsx_result" where
  "doflush sys cfg offset sz s =
     (if o_direct cfg then ret s
      else let pg_offset = offset AND page_mask cfg;
               map_size = wrap32 (pg_offset + sz)
           in check_call s (sys_mmap sys (fsys s) (offset - pg_offset) map_size) 202 (\<lambda>s.
              check_call s (sys_msync sys (fsys s) (offset - pg_offset) map_size) 203 (\<lambda>s.
              check_call s (sys_munmap sys (fsys s) (offset - pg_offset) map_size) 204 ret)))"

definition doread :: "'f sys \<Rightarrow> fsx_cfg \<Rightarrow> nat \<Rightarrow> nat \<Rightarrow> rwf \<Rightarrow> 'f fsx \<Rightarrow> ('f, 'f fsx) fsx_result" where
  "doread sys cfg offset sz fl s =
     (let offset = offset - offset mod readbdy cfg;
          sz = (if o_direct cfg then sz - sz mod readbdy cfg else sz)
      in if sz = 0 then ret (log4 OP_READ (c_int offset) (c_int sz) {FL_SKIPPED} s)
         else if wrap32 (sz + offset) > file_size s then ret (log4 OP_READ (c_int offset) (c_int sz) {FL_SKIPPED} s)
         else let s = log4 OP_READ (c_int offset) (c_int sz) FL_NONE s
              in if testcalls s \<le> simulatedopcount cfg then ret s
                 else Option.bind (fsxread sys cfg (fsys s) sz offset fl) (\<lambda>(f, iret).
                   let s = s\<lparr>fsys := f\<rparr>
                   in case iret of
                        None \<Rightarrow> report_failure 141 s
                      | Some buf \<Rightarrow>
                          if length buf \<noteq> sz then report_failure 141 s else check_buffers buf offset sz s))"

text \<open>
  \<open>map_offset\<close> is the file offset the page aligned pointer \<open>p\<close> of the source stands for; the bytes from the end
  of the file to the end of its page are loaded through the mapping.
\<close>

definition check_eofpage :: "'f sys \<Rightarrow> fsx_cfg \<Rightarrow> nat \<Rightarrow> nat \<Rightarrow> nat \<Rightarrow> 'f fsx \<Rightarrow> ('f, 'f fsx) fsx_result" where
  "check_eofpage sys cfg offset map_offset sz s =
     (if wrap32 (offset + sz) \<le> ROUND_DOWN (file_size s) (page_size cfg) then ret s
      else let last_page = ROUND_DOWN (map_offset + (offset AND page_mask cfg) + sz) (page_size cfg);
               should_be_zero = file_size s AND page_mask cfg
           in if list_ex (\<lambda>b. b \<noteq> 0) (sys_load sys (fsys s) (last_page + should_be_zero) (page_size cfg - should_be_zero))
              then report_failure 205 s else ret s)"

definition check_contents :: "'f sys \<Rightarrow> fsx_cfg \<Rightarrow> 'f fsx \<Rightarrow> ('f, 'f fsx) fsx_result" where
  "check_contents sys cfg s =
     (let sz = wrap32 (file_size s);
          sz = (if o_direct cfg then sz - sz mod readbdy cfg else sz)
      in if sz = 0 then ret s
         else Option.bind (fsxread sys cfg (fsys s) sz 0 RWF_NONE) (\<lambda>(f, iret).
           let s = s\<lparr>fsys := f\<rparr>
           in case iret of
                None \<Rightarrow> report_failure 141 s
              | Some buf \<Rightarrow>
                  if length buf \<noteq> sz then report_failure 141 s
                  else andthen (check_buffers buf 0 sz s) (\<lambda>s.
                    let map_offset = sz - (sz AND page_mask cfg);
                        map_offset = (if map_offset = sz then map_offset - page_size cfg else map_offset);
                        map_size = sz - map_offset
                    in check_call s (sys_mmap sys (fsys s) map_offset map_size) 190 (\<lambda>s.
                       andthen (check_eofpage sys cfg map_offset map_offset map_size s) (\<lambda>s.
                       check_call s (sys_munmap sys (fsys s) map_offset map_size) 191 ret)))))"

definition domapread :: "'f sys \<Rightarrow> fsx_cfg \<Rightarrow> nat \<Rightarrow> nat \<Rightarrow> 'f fsx \<Rightarrow> ('f, 'f fsx) fsx_result" where
  "domapread sys cfg offset sz s =
     (let offset = offset - offset mod readbdy cfg
      in if sz = 0 then ret (log4 OP_MAPREAD (c_int offset) (c_int sz) {FL_SKIPPED} s)
         else if wrap32 (sz + offset) > file_size s
         then ret (log4 OP_MAPREAD (c_int offset) (c_int sz) {FL_SKIPPED} s)
         else let s = log4 OP_MAPREAD (c_int offset) (c_int sz) FL_NONE s
              in if testcalls s \<le> simulatedopcount cfg then ret s
                 else let pg_offset = offset AND page_mask cfg;
                          map_size = wrap32 (pg_offset + sz)
                      in check_call s (sys_mmap sys (fsys s) (offset - pg_offset) map_size) 190 (\<lambda>s.
                         let temp_buf = sys_load sys (fsys s) offset sz
                         in andthen (check_eofpage sys cfg offset (offset - pg_offset) sz s) (\<lambda>s.
                            check_call s (sys_munmap sys (fsys s) (offset - pg_offset) map_size) 191 (\<lambda>s.
                            check_buffers temp_buf offset sz s))))"

section \<open>Data and size\<close>

definition gen_byte :: "fsx_cfg \<Rightarrow> nat \<Rightarrow> bytes \<Rightarrow> nat \<Rightarrow> u8" where
  "gen_byte cfg tc original offset =
     (if filldata cfg \<noteq> 0 then filldata cfg
      else if offset mod 2 \<noteq> 0 then of_nat (tc mod 256) + original ! offset
      else of_nat (tc mod 256))"

fun gendata :: "fsx_cfg \<Rightarrow> nat \<Rightarrow> bytes \<Rightarrow> bytes \<Rightarrow> nat \<Rightarrow> nat \<Rightarrow> bytes" where
  "gendata cfg tc original good offset 0 = good"
| "gendata cfg tc original good offset (Suc sz) =
     gendata cfg tc original (put_at good offset [gen_byte cfg tc original offset]) (offset + 1) sz"

definition memset0 :: "bytes \<Rightarrow> nat \<Rightarrow> nat \<Rightarrow> bytes" where
  "memset0 buf off n = put_at buf off (replicate n 0)"

text \<open>The stores of \<open>gendata\<close> into the mapped page are addressed by their page offset.\<close>

definition pollute_eofpage :: "'f sys \<Rightarrow> fsx_cfg \<Rightarrow> nat \<Rightarrow> 'f fsx \<Rightarrow> 'f fsx" where
  "pollute_eofpage sys cfg maxoff s =
     (let offset = wrap32 (file_size s)
      in if \<not> pollute_eof cfg \<or> testcalls s \<le> simulatedopcount cfg then s
         else let pg_offset = offset AND page_mask cfg;
                  write_size = min (page_size cfg - pg_offset) (wrap32 (maxoff + 2 ^ 32 - offset))
              in if pg_offset = 0 then s
                 else let (f, ok) = sys_mmap sys (fsys s) (offset - pg_offset) (page_size cfg)
                      in if \<not> ok then s\<lparr>fsys := f\<rparr>
                         else let f = sys_store sys f offset
                                   (map (gen_byte cfg (testcalls s) (original_buf s)) [pg_offset..<pg_offset + write_size]);
                                  (f, ok) = sys_munmap sys f (offset - pg_offset) (page_size cfg)
                              in s\<lparr>fsys := f\<rparr>)"

definition update_file_size :: "'f sys \<Rightarrow> fsx_cfg \<Rightarrow> nat \<Rightarrow> nat \<Rightarrow> 'f fsx \<Rightarrow> 'f fsx" where
  "update_file_size sys cfg offset sz s =
     (let s = (if offset > file_size s
               then let s = pollute_eofpage sys cfg (wrap32 (offset + sz)) s
                    in s\<lparr>good_buf := memset0 (good_buf s) (file_size s) (offset - file_size s)\<rparr>
               else s)
      in s\<lparr>file_size := wrap32 (offset + sz)\<rparr>)"

definition fsx_is_power_of_2 :: "nat \<Rightarrow> bool" where
  "fsx_is_power_of_2 n \<longleftrightarrow> n AND wrap32 (n + 2 ^ 32 - 1) = 0"

function scan_pow2 :: "nat \<Rightarrow> nat \<Rightarrow> nat" where
  "scan_pow2 n i = (if 2 ^ i < n then scan_pow2 n (i + 1) else i)"
  by pat_completeness auto
termination
proof (relation "measure (\<lambda>(n, i). n - i)")
  fix n i :: nat
  assume "2 ^ i < n"
  then have "i < n" using less_exp [of i] by (meson less_trans)
  then show "((n, i + 1), (n, i)) \<in> measure (\<lambda>(n, i). n - i)" by simp
qed simp

declare scan_pow2.simps [simp del]

definition rounddown_pow_of_2 :: "nat \<Rightarrow> nat" where
  "rounddown_pow_of_2 n = (if fsx_is_power_of_2 n then n else 2 ^ (scan_pow2 n 0 - 1))"

section \<open>Writing operations\<close>

definition atomic_size :: "fsx_cfg \<Rightarrow> nat \<Rightarrow> nat" where
  "atomic_size cfg sz =
     (let sz = (if sz < awu_min cfg then awu_min cfg else sz);
          sz = (if sz > awu_max cfg then awu_max cfg else sz)
      in rounddown_pow_of_2 sz)"

definition write_out :: "'f sys \<Rightarrow> fsx_cfg \<Rightarrow> nat \<Rightarrow> nat \<Rightarrow> rwf \<Rightarrow> 'f fsx \<Rightarrow> ('f, 'f fsx) fsx_result" where
  "write_out sys cfg offset sz fl s =
     Option.bind (fsxwrite sys cfg (fsys s) (slice (good_buf s) offset sz) offset fl) (\<lambda>(f, iret).
       let s = s\<lparr>fsys := f\<rparr>
       in if iret \<noteq> Some sz then report_failure 151 s
          else let flushed = (\<lambda>s. if flush cfg then doflush sys cfg offset sz s else ret s)
               in if do_fsync cfg then check_call s (sys_fsync sys (fsys s)) 152 flushed else flushed s)"

definition dowrite :: "'f sys \<Rightarrow> fsx_cfg \<Rightarrow> nat \<Rightarrow> nat \<Rightarrow> rwf \<Rightarrow> 'f fsx \<Rightarrow> ('f, 'f fsx) fsx_result" where
  "dowrite sys cfg offset sz fl s =
     (let atomic = (fl = RWF_ATOMIC);
          offset = offset - offset mod writebdy cfg;
          sz = (if o_direct cfg then sz - sz mod writebdy cfg else sz);
          sz = (if atomic then atomic_size cfg sz else sz);
          offset = (if atomic then offset - offset mod sz else offset)
      in if atomic \<and> wrap32 (offset + sz) > maxfilelen cfg
         then ret (log4 OP_WRITE_ATOMIC (c_int offset) (c_int sz) {FL_SKIPPED} s)
         else if sz = 0 then ret (log4 OP_WRITE (c_int offset) (c_int sz) {FL_SKIPPED} s)
         else let s = log4 (if atomic then OP_WRITE_ATOMIC else OP_WRITE) (c_int offset) (c_int sz) FL_NONE s;
                  s = s\<lparr>good_buf := gendata cfg (testcalls s) (original_buf s) (good_buf s) offset sz\<rparr>;
                  extends = (wrap32 (offset + sz) > file_size s);
                  s = (if extends then update_file_size sys cfg offset sz s else s)
              in if extends \<and> lite cfg then report_failure 149 s
                 else if testcalls s \<le> simulatedopcount cfg then ret s
                 else write_out sys cfg offset sz fl s)"

definition map_out :: "'f sys \<Rightarrow> fsx_cfg \<Rightarrow> nat \<Rightarrow> nat \<Rightarrow> 'f fsx \<Rightarrow> ('f, 'f fsx) fsx_result" where
  "map_out sys cfg offset sz s =
     (let pg_offset = offset AND page_mask cfg;
          map_size = wrap32 (pg_offset + sz)
      in check_call s (sys_mmap sys (fsys s) (offset - pg_offset) map_size) 202 (\<lambda>s.
         let s = s\<lparr>fsys := sys_store sys (fsys s) offset (slice (good_buf s) offset sz)\<rparr>
         in check_call s (sys_msync sys (fsys s) (offset - pg_offset) map_size) 203 (\<lambda>s.
            andthen (check_eofpage sys cfg offset (offset - pg_offset) sz s) (\<lambda>s.
            check_call s (sys_munmap sys (fsys s) (offset - pg_offset) map_size) 204 ret))))"

definition domapwrite :: "'f sys \<Rightarrow> fsx_cfg \<Rightarrow> nat \<Rightarrow> nat \<Rightarrow> 'f fsx \<Rightarrow> ('f, 'f fsx) fsx_result" where
  "domapwrite sys cfg offset sz s =
     (let offset = offset - offset mod writebdy cfg
      in if sz = 0 then ret (log4 OP_MAPWRITE (c_int offset) (c_int sz) {FL_SKIPPED} s)
         else let cur_filesize = file_size s;
                  s = log4 OP_MAPWRITE (c_int offset) (c_int sz) FL_NONE s;
                  s = s\<lparr>good_buf := gendata cfg (testcalls s) (original_buf s) (good_buf s) offset sz\<rparr>;
                  extends = (wrap32 (offset + sz) > file_size s);
                  s = (if extends then update_file_size sys cfg offset sz s else s)
              in if extends \<and> lite cfg then report_failure 200 s
                 else if testcalls s \<le> simulatedopcount cfg then ret s
                 else if file_size s > cur_filesize
                 then let (f, ok) = sys_ftruncate sys (fsys s) (file_size s);
                          s = s\<lparr>fsys := f\<rparr>
                      in if \<not> ok then exit_with 201 s else map_out sys cfg offset sz s
                 else map_out sys cfg offset sz s)"

definition dotruncate :: "'f sys \<Rightarrow> fsx_cfg \<Rightarrow> nat \<Rightarrow> 'f fsx \<Rightarrow> ('f, 'f fsx) fsx_result" where
  "dotruncate sys cfg sz s =
     (let sz = sz - sz mod truncbdy cfg;
          s = (if sz > biggest s then s\<lparr>biggest := sz\<rparr> else s);
          s = log4 OP_TRUNCATE 0 (c_int sz) FL_NONE s;
          s = (if sz < file_size s then pollute_eofpage sys cfg (wrap32 (maxfilelen cfg)) s else s);
          s = update_file_size sys cfg sz 0 s
      in if testcalls s \<le> simulatedopcount cfg then ret s
         else check_call s (sys_ftruncate sys (fsys s) sz) 160 ret)"

section \<open>Operations on ranges\<close>

definition do_punch_hole :: "'f sys \<Rightarrow> fsx_cfg \<Rightarrow> nat \<Rightarrow> nat \<Rightarrow> 'f fsx \<Rightarrow> ('f, 'f fsx) fsx_result" where
  "do_punch_hole sys cfg offset len s =
     (if len = 0 then ret (log4 OP_PUNCH_HOLE (c_int offset) (c_int len) {FL_SKIPPED} s)
      else if file_size s \<le> offset then ret (log4 OP_PUNCH_HOLE (c_int offset) (c_int len) {FL_SKIPPED} s)
      else let s = log4 OP_PUNCH_HOLE (c_int offset) (c_int len) FL_NONE s
           in if testcalls s \<le> simulatedopcount cfg then ret s
              else check_call s (sys_fallocate sys (fsys s) FALLOC_FL_PUNCH_HOLE offset len) 161 (\<lambda>s.
                let max_offset = (if offset < file_size s then offset else file_size s);
                    max_len = (if wrap32 (max_offset + len) \<le> file_size s then len else file_size s - max_offset)
                in ret (s\<lparr>good_buf := memset0 (good_buf s) max_offset max_len\<rparr>)))"

definition do_zero_range :: "'f sys \<Rightarrow> fsx_cfg \<Rightarrow> nat \<Rightarrow> nat \<Rightarrow> bool \<Rightarrow> 'f fsx \<Rightarrow> ('f, 'f fsx) fsx_result" where
  "do_zero_range sys cfg offset len keep_size s =
     (let fl = (if keep_size then {FL_KEEP_SIZE} else FL_NONE)
      in if len = 0 then ret (log4 OP_ZERO_RANGE (c_int offset) (c_int len) ({FL_SKIPPED} \<union> fl) s)
         else let end_offset = (if keep_size then 0 else wrap32 (offset + len));
                  s = (if end_offset > biggest s then s\<lparr>biggest := end_offset\<rparr> else s);
                  s = log4 OP_ZERO_RANGE (c_int offset) (c_int len) fl s;
                  s = (if \<not> keep_size \<and> end_offset > file_size s then update_file_size sys cfg offset len s else s)
              in if testcalls s \<le> simulatedopcount cfg then ret s
                 else check_call s (sys_fallocate sys (fsys s) (FALLOC_FL_ZERO_RANGE keep_size) offset len) 161 (\<lambda>s.
                   ret (s\<lparr>good_buf := memset0 (good_buf s) offset len\<rparr>)))"

definition do_collapse_range :: "'f sys \<Rightarrow> fsx_cfg \<Rightarrow> nat \<Rightarrow> nat \<Rightarrow> 'f fsx \<Rightarrow> ('f, 'f fsx) fsx_result" where
  "do_collapse_range sys cfg offset len s =
     (let end_offset = wrap32 (offset + len)
      in if len = 0 then ret (log4 OP_COLLAPSE_RANGE (c_int offset) (c_int len) {FL_SKIPPED} s)
         else if end_offset \<ge> file_size s then ret (log4 OP_COLLAPSE_RANGE (c_int offset) (c_int len) {FL_SKIPPED} s)
         else let s = log4 OP_COLLAPSE_RANGE (c_int offset) (c_int len) FL_NONE s;
                  s = pollute_eofpage sys cfg (wrap32 (maxfilelen cfg)) s
              in if testcalls s \<le> simulatedopcount cfg then ret s
                 else check_call s (sys_fallocate sys (fsys s) FALLOC_FL_COLLAPSE_RANGE offset len) 161 (\<lambda>s.
                   ret (s\<lparr>good_buf := put_at (good_buf s) offset (slice (good_buf s) end_offset (file_size s - end_offset)),
                          file_size := file_size s - len\<rparr>)))"

definition do_insert_range :: "'f sys \<Rightarrow> fsx_cfg \<Rightarrow> nat \<Rightarrow> nat \<Rightarrow> 'f fsx \<Rightarrow> ('f, 'f fsx) fsx_result" where
  "do_insert_range sys cfg offset len s =
     (if len = 0 then ret (log4 OP_INSERT_RANGE (c_int offset) (c_int len) {FL_SKIPPED} s)
      else if offset \<ge> file_size s then ret (log4 OP_INSERT_RANGE (c_int offset) (c_int len) {FL_SKIPPED} s)
      else let s = log4 OP_INSERT_RANGE (c_int offset) (c_int len) FL_NONE s;
               s = pollute_eofpage sys cfg (wrap32 (maxfilelen cfg)) s
           in if testcalls s \<le> simulatedopcount cfg then ret s
              else let end_offset = wrap32 (offset + len)
                   in check_call s (sys_fallocate sys (fsys s) FALLOC_FL_INSERT_RANGE offset len) 161 (\<lambda>s.
                     let moved = put_at (good_buf s) end_offset (slice (good_buf s) offset (file_size s - offset))
                     in ret (s\<lparr>good_buf := memset0 moved offset len, file_size := file_size s + len\<rparr>)))"

text \<open>The branch for a failing \<open>malloc\<close> of the temporary buffer is not reachable in the model.\<close>

definition do_exchange_range :: "'f sys \<Rightarrow> fsx_cfg \<Rightarrow> nat \<Rightarrow> nat \<Rightarrow> nat \<Rightarrow> 'f fsx \<Rightarrow> ('f, 'f fsx) fsx_result" where
  "do_exchange_range sys cfg offset len dest s =
     (if len = 0 then ret (log5 OP_EXCHANGE_RANGE (c_int offset) (c_int len) (c_int dest) {FL_SKIPPED} s)
      else if offset \<ge> file_size s \<or> dest \<ge> file_size s
      then ret (log5 OP_EXCHANGE_RANGE (c_int offset) (c_int len) (c_int dest) {FL_SKIPPED} s)
      else let s = log5 OP_EXCHANGE_RANGE (c_int offset) (c_int len) (c_int dest) FL_NONE s
           in if testcalls s \<le> simulatedopcount cfg then ret s
              else check_call s (sys_exchange_range sys (fsys s) offset len dest) 161 (\<lambda>s.
                let p = slice (good_buf s) offset len;
                    good = put_at (good_buf s) offset (slice (good_buf s) dest len)
                in ret (s\<lparr>good_buf := put_at good dest p\<rparr>)))"

definition do_clone_range :: "'f sys \<Rightarrow> fsx_cfg \<Rightarrow> nat \<Rightarrow> nat \<Rightarrow> nat \<Rightarrow> 'f fsx \<Rightarrow> ('f, 'f fsx) fsx_result" where
  "do_clone_range sys cfg offset len dest s =
     (if len = 0 then ret (log5 OP_CLONE_RANGE (c_int offset) (c_int len) (c_int dest) {FL_SKIPPED} s)
      else if offset \<ge> file_size s then ret (log5 OP_CLONE_RANGE (c_int offset) (c_int len) (c_int dest) {FL_SKIPPED} s)
      else let s = (if wrap32 (dest + len) > biggest s then s\<lparr>biggest := wrap32 (dest + len)\<rparr> else s);
               s = log5 OP_CLONE_RANGE (c_int offset) (c_int len) (c_int dest) FL_NONE s;
               s = (if wrap32 (dest + len) > file_size s then update_file_size sys cfg dest len s else s)
           in if testcalls s \<le> simulatedopcount cfg then ret s
              else check_call s (sys_clone_range sys (fsys s) offset len dest) 161 (\<lambda>s.
                ret (s\<lparr>good_buf := put_at (good_buf s) dest (slice (good_buf s) offset len)\<rparr>)))"

definition do_dedupe_range :: "'f sys \<Rightarrow> fsx_cfg \<Rightarrow> nat \<Rightarrow> nat \<Rightarrow> nat \<Rightarrow> 'f fsx \<Rightarrow> ('f, 'f fsx) fsx_result" where
  "do_dedupe_range sys cfg offset len dest s =
     (if len = 0 then ret (log5 OP_DEDUPE_RANGE (c_int offset) (c_int len) (c_int dest) {FL_SKIPPED} s)
      else if offset \<ge> file_size s then ret (log5 OP_DEDUPE_RANGE (c_int offset) (c_int len) (c_int dest) {FL_SKIPPED} s)
      else let s = log5 OP_DEDUPE_RANGE (c_int offset) (c_int len) (c_int dest) FL_NONE s
           in if testcalls s \<le> simulatedopcount cfg then ret s
              else let (f, r) = sys_dedupe_range sys (fsys s) offset len dest;
                       s = s\<lparr>fsys := f\<rparr>
                   in case r of
                        Dedupe_ioctl_failed \<Rightarrow> report_failure 161 s
                      | Dedupe_status_error \<Rightarrow> report_failure 161 s
                      | Deduped \<Rightarrow> ret s)"

text \<open>
  The loop of \<open>do_copy_range\<close>: it retries an interrupted call up to 300 times, goes on after a short
  copy, and also goes on after a copy of nothing, so it need not end.
\<close>

partial_function (option) copy_loop ::
  "'f sys \<Rightarrow> nat \<Rightarrow> nat \<Rightarrow> nat \<Rightarrow> nat \<Rightarrow> 'f fsx \<Rightarrow> ('f, 'f fsx) fsx_result" where
  [code]: "copy_loop sys o1 o2 olen tries s =
     (if olen = 0 then ret s
      else case sys_copy_file_range sys (fsys s) o1 o2 olen of
        (f, Copy_failed) \<Rightarrow> report_failure 161 (s\<lparr>fsys := f\<rparr>)
      | (f, Copy_again) \<Rightarrow>
          if tries \<ge> 300 then report_failure 161 (s\<lparr>fsys := f\<rparr>)
          else copy_loop sys o1 o2 olen (tries + 1) (s\<lparr>fsys := f\<rparr>)
      | (f, Copied nr) \<Rightarrow>
          if nr > olen then report_failure 161 (s\<lparr>fsys := f\<rparr>)
          else copy_loop sys (o1 + nr) (o2 + nr) (olen - nr) tries (s\<lparr>fsys := f\<rparr>))"

definition do_copy_range :: "'f sys \<Rightarrow> fsx_cfg \<Rightarrow> nat \<Rightarrow> nat \<Rightarrow> nat \<Rightarrow> 'f fsx \<Rightarrow> ('f, 'f fsx) fsx_result" where
  "do_copy_range sys cfg offset len dest s =
     (if len = 0 then ret (log5 OP_COPY_RANGE (c_int offset) (c_int len) (c_int dest) {FL_SKIPPED} s)
      else if offset \<ge> file_size s then ret (log5 OP_COPY_RANGE (c_int offset) (c_int len) (c_int dest) {FL_SKIPPED} s)
      else let s = (if wrap32 (dest + len) > biggest s then s\<lparr>biggest := wrap32 (dest + len)\<rparr> else s);
               s = log5 OP_COPY_RANGE (c_int offset) (c_int len) (c_int dest) FL_NONE s;
               s = (if wrap32 (dest + len) > file_size s then update_file_size sys cfg dest len s else s)
           in if testcalls s \<le> simulatedopcount cfg then ret s
              else andthen (copy_loop sys offset dest len 0 s) (\<lambda>s.
                ret (s\<lparr>good_buf := put_at (good_buf s) dest (slice (good_buf s) offset len)\<rparr>)))"

definition do_preallocate :: "'f sys \<Rightarrow> fsx_cfg \<Rightarrow> nat \<Rightarrow> nat \<Rightarrow> bool \<Rightarrow> bool \<Rightarrow> 'f fsx \<Rightarrow> ('f, 'f fsx) fsx_result" where
  "do_preallocate sys cfg offset len keep_size unshare s =
     (let fl = (if keep_size then {FL_KEEP_SIZE} else FL_NONE) \<union> (if unshare then {FL_UNSHARE} else FL_NONE)
      in if len = 0 then ret (log4 OP_FALLOCATE (c_int offset) (c_int len) ({FL_SKIPPED} \<union> fl) s)
         else let end_offset = (if keep_size then 0 else wrap32 (offset + len));
                  s = (if end_offset > biggest s then s\<lparr>biggest := end_offset\<rparr> else s);
                  s = log4 OP_FALLOCATE (c_int offset) (c_int len) fl s;
                  s = (if end_offset > file_size s
                       then update_file_size sys cfg offset len
                              (s\<lparr>good_buf := memset0 (good_buf s) (file_size s) (end_offset - file_size s)\<rparr>)
                       else s)
              in if testcalls s \<le> simulatedopcount cfg then ret s
                 else check_call s (sys_fallocate sys (fsys s) (FALLOC_DEFAULT keep_size unshare) offset len) 161 ret)"

section \<open>The image, reopening and syncing\<close>

definition writefileimage :: "'f sys \<Rightarrow> fsx_cfg \<Rightarrow> 'f fsx \<Rightarrow> ('f, 'f fsx) fsx_result" where
  "writefileimage sys cfg s =
     check_call s (sys_lseek_set sys (fsys s)) 171 (\<lambda>s.
       let (f, iret) = sys_write sys (fsys s) (take (file_size s) (good_buf s));
           s = s\<lparr>fsys := f\<rparr>
       in if iret \<noteq> Some (file_size s) then report_failure 172 s
          else if lite cfg then ret s
          else check_call s (sys_ftruncate sys (fsys s) (file_size s)) 173 ret)"

definition docloseopen :: "'f sys \<Rightarrow> fsx_cfg \<Rightarrow> 'f fsx \<Rightarrow> ('f, 'f fsx) fsx_result" where
  "docloseopen sys cfg s =
     (if testcalls s \<le> simulatedopcount cfg then ret s
      else check_call s (sys_close sys (fsys s)) 180 (\<lambda>s.
           check_call s (sys_drop_caches sys (fsys s)) 181 (\<lambda>s.
           check_call s (sys_open sys (fsys s)) 182 ret)))"

definition mark_log :: "'f sys \<Rightarrow> 'f fsx \<Rightarrow> ('f, 'f fsx) fsx_result" where
  "mark_log sys s =
     (let (f, ok) = sys_mark_log sys (fsys s) (mark_nr s)
      in if ok then ret (s\<lparr>fsys := f\<rparr>) else exit_with 211 (s\<lparr>fsys := f\<rparr>))"

definition dump_fsync_buffer :: "'f sys \<Rightarrow> 'f fsx \<Rightarrow> ('f, 'f fsx) fsx_result" where
  "dump_fsync_buffer sys s =
     (let (f, ok) = sys_dump_buffer sys (fsys s) (mark_nr s) (take (file_size s) (good_buf s))
      in if ok then ret (s\<lparr>fsys := f\<rparr>) else exit_with 212 (s\<lparr>fsys := f\<rparr>))"

definition dofsync :: "'f sys \<Rightarrow> fsx_cfg \<Rightarrow> 'f fsx \<Rightarrow> ('f, 'f fsx) fsx_result" where
  "dofsync sys cfg s =
     (if testcalls s \<le> simulatedopcount cfg then ret s
      else let s = log4 OP_FSYNC 0 0 FL_NONE s
           in check_call s (sys_fsync sys (fsys s)) 210 (\<lambda>s.
              andthen (mark_log sys s) (\<lambda>s.
              andthen (dump_fsync_buffer sys s) (\<lambda>s.
              ret (s\<lparr>mark_nr := mark_nr s + 1\<rparr>)))))"

end
