(* ===== verification/C_Strings.thy ===== *)
theory C_Strings
  imports Main
begin

text \<open>
  The routines of the C library on strings that several programs of the repository use: tokens as
  \<open>strtok\<close> finds them, and numbers as \<open>strtoul\<close> reads them.
\<close>

section \<open>Tokens\<close>

text \<open>The tokens that repeated calls of \<open>strtok\<close> deliver, for a set of separators given as a predicate.\<close>

function strtok_all :: "(char \<Rightarrow> bool) \<Rightarrow> string \<Rightarrow> string list" where
  "strtok_all sep line =
     (let str = dropWhile sep line
      in if str = [] then []
         else takeWhile (\<lambda>c. \<not> sep c) str # strtok_all sep (dropWhile (\<lambda>c. \<not> sep c) str))"
  by pat_completeness auto
termination
proof (relation "measure (\<lambda>(sep, line). length line)", goal_cases)
  case (2 sep line x)
  then have "x \<noteq> []" "\<not> sep (hd x)" by (auto simp: hd_dropWhile)
  then have "length (dropWhile (\<lambda>c. \<not> sep c) x) < length x"
    by (cases x) (auto simp: less_Suc_eq_le length_dropWhile_le)
  also have "length x \<le> length line" using 2(1) by (simp add: length_dropWhile_le)
  finally show ?case by simp
qed simp

declare strtok_all.simps [simp del]

section \<open>Numbers\<close>

definition isspace_c :: "char \<Rightarrow> bool" where
  "isspace_c c \<longleftrightarrow> of_char c \<in> {32, 9, 10, 11, 12, 13 :: nat}"

definition digit_value :: "char \<Rightarrow> nat" where
  "digit_value c =
     (let n = of_char c :: nat
      in if 48 \<le> n \<and> n \<le> 57 then n - 48
         else if 97 \<le> n \<and> n \<le> 122 then n - 87
         else if 65 \<le> n \<and> n \<le> 90 then n - 55 else 99)"

definition read_digits :: "nat \<Rightarrow> string \<Rightarrow> nat \<times> string" where
  "read_digits base s =
     (foldl (\<lambda>acc c. base * acc + digit_value c) 0 (takeWhile (\<lambda>c. digit_value c < base) s),
      dropWhile (\<lambda>c. digit_value c < base) s)"

text \<open>
  The number at the start of a string as the conversions with base 0 read it: whether it has a minus sign,
  its magnitude, and the rest of the string; \<open>None\<close> if there is no number.
\<close>

definition scan_number :: "string \<Rightarrow> (bool \<times> nat \<times> string) option" where
  "scan_number s =
     (let t = dropWhile isspace_c s;
          neg = (t \<noteq> [] \<and> hd t = CHR ''-'');
          u = (if t \<noteq> [] \<and> (hd t = CHR ''-'' \<or> hd t = CHR ''+'') then tl t else t);
          hex = (length u > 2 \<and> hd u = CHR ''0'' \<and> (u ! 1 = CHR ''x'' \<or> u ! 1 = CHR ''X'') \<and> digit_value (u ! 2) < 16);
          base = (if hex then 16 else if u \<noteq> [] \<and> hd u = CHR ''0'' then 8 else 10);
          body = (if hex then drop 2 u else u)
      in if body = [] \<or> \<not> digit_value (hd body) < base then None
         else case read_digits base body of (v, rest) \<Rightarrow> Some (neg, v, rest))"

text \<open>\<open>strtoul\<close> with base 0: the value, and the rest of the string, which is the whole string if there is no number.\<close>

definition strtoul0 :: "string \<Rightarrow> nat \<times> string" where
  "strtoul0 s =
     (case scan_number s of
        None \<Rightarrow> (0, s)
      | Some (neg, v, rest) \<Rightarrow>
          (if v \<ge> 2 ^ 64 then 2 ^ 64 - 1 else if neg then (2 ^ 64 - v) mod 2 ^ 64 else v, rest))"

section \<open>Formatted output\<close>

definition show_digit :: "nat \<Rightarrow> char" where
  "show_digit n = (if n < 10 then char_of (48 + n) else char_of (87 + n))"

fun show_base :: "nat \<Rightarrow> nat \<Rightarrow> string" where
  "show_base b n = (if n < b \<or> b \<le> 1 then [show_digit n] else show_base b (n div b) @ [show_digit (n mod b)])"

declare show_base.simps [simp del]

text \<open>The conversions \<open>%x\<close> and \<open>%d\<close> of an \<open>int\<close>.\<close>

definition fmt_x :: "int \<Rightarrow> string" where
  "fmt_x i = show_base 16 (nat (i mod 2 ^ 32))"

definition fmt_d :: "int \<Rightarrow> string" where
  "fmt_d i = (if i < 0 then ''-'' @ show_base 10 (nat (- i)) else show_base 10 (nat i))"

section \<open>Facts on tokens\<close>

lemma strtok_all_Nil [simp]: "strtok_all sep [] = []"
  by (subst strtok_all.simps) simp

lemma strtok_all_word:
  assumes "w \<noteq> []" "\<forall>c \<in> set w. \<not> sep c" "r \<noteq> [] \<Longrightarrow> sep (hd r)"
  shows "strtok_all sep (w @ r) = w # strtok_all sep r"
proof -
  have "dropWhile sep (w @ r) = w @ r" using assms(1,2) by (cases w) auto
  moreover have "takeWhile (\<lambda>c. \<not> sep c) (w @ r) = w" "dropWhile (\<lambda>c. \<not> sep c) (w @ r) = r"
    using assms(2,3) by (cases r; simp add: takeWhile_append dropWhile_append)+
  ultimately show ?thesis using assms(1) by (subst strtok_all.simps) simp
qed

lemma strtok_all_sep: "sep c \<Longrightarrow> strtok_all sep (c # r) = strtok_all sep r"
  by (subst (1 2) strtok_all.simps) simp

lemma filter_dropWhile_all: "filter sep (dropWhile (\<lambda>c. \<not> sep c) s) = filter sep s"
  by (induction s) auto

text \<open>There are at most as many tokens as separators, and one more only if the string starts with a token.\<close>

lemma length_strtok_all:
  "length (strtok_all sep s) \<le> length (filter sep s) + (if s \<noteq> [] \<and> sep (hd s) then 0 else 1)"
proof (induction sep s rule: strtok_all.induct)
  case (1 sep s)
  let ?t = "dropWhile sep s" and ?r = "dropWhile (\<lambda>c. \<not> sep c) (dropWhile sep s)"
  show ?case
  proof (cases "?t = []")
    case True
    then show ?thesis by (subst strtok_all.simps) simp
  next
    case False
    have "length (strtok_all sep ?r) \<le> length (filter sep ?t)"
    proof (cases "?r = []")
      case empty: True
      then show ?thesis by (simp only: strtok_all_Nil list.size)
    next
      case False
      then have "sep (hd ?r)" using hd_dropWhile [of "\<lambda>c. \<not> sep c" ?t] by simp
      then show ?thesis using 1 [OF refl] False \<open>?t \<noteq> []\<close> by (simp add: filter_dropWhile_all)
    qed
    moreover have "length (filter sep ?t) + (if s \<noteq> [] \<and> sep (hd s) then 1 else 0) \<le> length (filter sep s)"
    proof -
      have "length (filter sep (takeWhile sep s)) = length (takeWhile sep s)"
        by (metis filter_True set_takeWhileD)
      moreover have "filter sep s = filter sep (takeWhile sep s) @ filter sep ?t"
        by (metis filter_append takeWhile_dropWhile_id)
      ultimately show ?thesis by (cases s) auto
    qed
    ultimately show ?thesis using False by (subst strtok_all.simps) (auto simp: Let_def split: if_splits)
  qed
qed

text \<open>Words joined by a separator are the tokens of the line.\<close>

fun join :: "char \<Rightarrow> string list \<Rightarrow> string" where
  "join c [] = []"
| "join c [w] = w"
| "join c (w # v # ws) = w @ c # join c (v # ws)"

lemma strtok_all_join:
  "\<forall>w \<in> set ws. w \<noteq> [] \<and> (\<forall>d \<in> set w. \<not> sep d) \<Longrightarrow> sep c \<Longrightarrow> strtok_all sep (join c ws) = ws"
proof (induction c ws rule: join.induct)
  case (2 c w)
  then show ?case using strtok_all_word [of w sep "[]"] by simp
next
  case (3 c w v ws)
  then show ?case using strtok_all_word [of w sep "c # join c (v # ws)"] by (simp add: strtok_all_sep)
qed simp

section \<open>Facts on printed numbers\<close>

lemma digit_value_show_digit: "n < 16 \<Longrightarrow> digit_value (show_digit n) = n"
  by (auto simp: digit_value_def show_digit_def Let_def)

lemma show_base_digits: "set (show_base 16 n) \<subseteq> show_digit ` {..<16}"
proof (induction n rule: less_induct)
  case (less n)
  have d: "show_digit (n mod 16) \<in> show_digit ` {..<16}" by simp
  show ?case
  proof (cases "n < 16")
    case True
    then show ?thesis by (subst show_base.simps) simp
  next
    case False
    then have "set (show_base 16 (n div 16)) \<subseteq> show_digit ` {..<16}" by (intro less) simp
    then show ?thesis using False d by (subst show_base.simps) simp
  qed
qed

lemma show_base_value: "foldl (\<lambda>acc c. 16 * acc + digit_value c) 0 (show_base 16 n) = n"
proof (induction n rule: less_induct)
  case (less n)
  show ?case
  proof (cases "n < 16")
    case True
    then show ?thesis by (subst show_base.simps) (simp add: digit_value_show_digit)
  next
    case False
    then show ?thesis using less [of "n div 16"] by (subst show_base.simps) (simp add: digit_value_show_digit)
  qed
qed

lemma show_base_nonempty [simp]: "show_base b n \<noteq> []"
  by (subst show_base.simps) simp

lemma length_show_base: "n < 16 ^ Suc k \<Longrightarrow> length (show_base 16 n) \<le> Suc k"
proof (induction k arbitrary: n)
  case 0
  then show ?case by (subst show_base.simps) simp
next
  case (Suc k)
  show ?case
  proof (cases "n < 16")
    case True
    then show ?thesis by (subst show_base.simps) simp
  next
    case False
    have "n div 16 < 16 ^ Suc k" using Suc.prems by (simp add: less_mult_imp_div_less)
    then show ?thesis using Suc.IH [of "n div 16"] False by (subst show_base.simps) simp
  qed
qed

lemma show_base_hex: "c \<in> set (show_base 16 n) \<Longrightarrow> digit_value c < 16"
  using show_base_digits [of n] digit_value_show_digit by fastforce

lemma read_show_base: "read_digits 16 (show_base 16 n) = (n, [])"
proof -
  have t: "takeWhile (\<lambda>c. digit_value c < 16) (show_base 16 n) = show_base 16 n"
    "dropWhile (\<lambda>c. digit_value c < 16) (show_base 16 n) = []"
    using show_base_hex by (simp_all add: takeWhile_eq_all_conv)
  show ?thesis unfolding read_digits_def t show_base_value ..
qed

lemma length_fmt_x: "length (fmt_x a) \<le> 8"
proof -
  have "nat (a mod 2 ^ 32) < 16 ^ Suc 7" by (simp add: nat_less_iff)
  from length_show_base [OF this] show ?thesis by (simp add: fmt_x_def)
qed

lemma fmt_x_inject:
  assumes "fmt_x a = fmt_x b" "0 \<le> a" "a < 2 ^ 32" "0 \<le> b" "b < 2 ^ 32"
  shows "a = b"
proof -
  have "nat (a mod 2 ^ 32) = nat (b mod 2 ^ 32)"
    using arg_cong [OF assms(1), of "foldl (\<lambda>acc c. 16 * acc + digit_value c) 0"] by (simp add: fmt_x_def show_base_value)
  then show ?thesis using assms(2-) by (simp add: eq_nat_nat_iff)
qed

end
