(* ===== verification/Fsx_Log.thy ===== *)
theory Fsx_Log
  imports Fsx_State C_Strings
begin

text \<open>
  The operation log of \<open>src/ltp/fsx.c\<close> outside the program: its dump in readable form and as a file
  of operations, and the reader of such a file for a replay.
\<close>

section \<open>Formatted output\<close>

text \<open>The conversion \<open>%3d\<close> of an \<open>int\<close>.\<close>

definition fmt_3d :: "int \<Rightarrow> string" where
  "fmt_3d i = (let t = fmt_d i in replicate (3 - length t) CHR '' '' @ t)"

definition op_names :: "fsx_op \<Rightarrow> string" where
  "op_names op = (case op of
       OP_READ \<Rightarrow> ''read''
     | OP_READ_DONTCACHE \<Rightarrow> ''read_dontcache''
     | OP_WRITE \<Rightarrow> ''write''
     | OP_WRITE_DONTCACHE \<Rightarrow> ''write_dontcache''
     | OP_WRITE_ATOMIC \<Rightarrow> ''write_atomic''
     | OP_MAPREAD \<Rightarrow> ''mapread''
     | OP_MAPWRITE \<Rightarrow> ''mapwrite''
     | OP_TRUNCATE \<Rightarrow> ''truncate''
     | OP_FALLOCATE \<Rightarrow> ''fallocate''
     | OP_PUNCH_HOLE \<Rightarrow> ''punch_hole''
     | OP_ZERO_RANGE \<Rightarrow> ''zero_range''
     | OP_COLLAPSE_RANGE \<Rightarrow> ''collapse_range''
     | OP_INSERT_RANGE \<Rightarrow> ''insert_range''
     | OP_CLONE_RANGE \<Rightarrow> ''clone_range''
     | OP_DEDUPE_RANGE \<Rightarrow> ''dedupe_range''
     | OP_COPY_RANGE \<Rightarrow> ''copy_range''
     | OP_FSYNC \<Rightarrow> ''fsync''
     | OP_EXCHANGE_RANGE \<Rightarrow> ''exchange_range'')"

definition op_code :: "string \<Rightarrow> fsx_op option" where
  "op_code name = find (\<lambda>op. name = op_names op) fsx_ops"

section \<open>Dump of the log\<close>

definition in_range :: "int \<Rightarrow> int \<Rightarrow> int \<Rightarrow> bool" where
  "in_range bad lo len \<longleftrightarrow> bad \<ge> lo \<and> bad < lo + len"

text \<open>The final value of \<open>overlap\<close> for an entry: the operation touched the first bad offset.\<close>

definition entry_overlap :: "int \<Rightarrow> log_entry \<Rightarrow> bool" where
  "entry_overlap bad lp =
     (let a0 = args lp ! 0; a1 = args lp ! 1; a2 = args lp ! 2
      in if FL_SKIPPED \<in> flags lp then in_range bad a0 a1
         else case operation lp of
           OP_WRITE \<Rightarrow> (bad \<ge> a0 \<or> bad \<ge> a2) \<and> bad < a0 + a1
         | OP_WRITE_DONTCACHE \<Rightarrow> (bad \<ge> a0 \<or> bad \<ge> a2) \<and> bad < a0 + a1
         | OP_WRITE_ATOMIC \<Rightarrow> (bad \<ge> a0 \<or> bad \<ge> a2) \<and> bad < a0 + a1
         | OP_TRUNCATE \<Rightarrow>
             if a1 < a2 then bad \<ge> a1 \<and> bad < a2 else bad \<ge> a2 \<and> bad < a1
         | _ \<Rightarrow> in_range bad a0 a1)"

definition TAB :: char where "TAB = CHR 0x09"
definition NL :: char where "NL = CHR 0x0A"

text \<open>\<open>0x%x thru 0x%x\<close>, a tab, and \<open>(0x%x bytes)\<close>.\<close>

definition fmt_range :: "int \<Rightarrow> int \<Rightarrow> int \<Rightarrow> string" where
  "fmt_range lo hi len = ''0x'' @ fmt_x lo @ '' thru 0x'' @ fmt_x hi @ [TAB] @ ''(0x'' @ fmt_x len @ '' bytes)''"

definition fmt_pair :: "string \<Rightarrow> char \<Rightarrow> int \<Rightarrow> log_entry \<Rightarrow> string" where
  "fmt_pair name c bad lp =
     (let a0 = args lp ! 0; a1 = args lp ! 1; a2 = args lp ! 2;
          overlap = in_range bad a0 a1; overlap2 = in_range bad a2 a1; m = replicate 4 c
      in name @ '' '' @ fmt_range a0 (a0 + a1 - 1) a1 @ '' to 0x'' @ fmt_x a2 @ '' thru 0x'' @ fmt_x (a2 + a1 - 1) @
         (if overlap \<and> overlap2 then [TAB] @ m @ ''**'' @ m
          else if overlap then [TAB] @ m @ ''******''
          else if overlap2 then [TAB] @ ''******'' @ m else []))"

definition entry_text :: "int \<Rightarrow> log_entry \<Rightarrow> string" where
  "entry_text bad lp =
     (let a0 = args lp ! 0; a1 = args lp ! 1; a2 = args lp ! 2;
          mark = (\<lambda>m. if entry_overlap bad lp then [TAB] @ m else []);
          simple = (\<lambda>name m. name @ fmt_range a0 (a0 + a1 - 1) a1 @ mark m)
      in if FL_SKIPPED \<in> flags lp then ''SKIPPED (no operation)''
         else case operation lp of
           OP_MAPREAD \<Rightarrow> simple ''MAPREAD  '' ''***RRRR***''
         | OP_MAPWRITE \<Rightarrow> simple ''MAPWRITE '' ''******WWWW''
         | OP_READ \<Rightarrow> simple ''READ     '' ''***RRRR***''
         | OP_READ_DONTCACHE \<Rightarrow> simple ''READ     '' ''***RRRR***''
         | OP_TRUNCATE \<Rightarrow>
             ''TRUNCATE '' @ (if a1 < a2 then ''DOWN'' else ''UP'') @ [TAB] @ ''from 0x'' @ fmt_x a2 @ '' to 0x'' @
             fmt_x a1 @ mark ''******WWWW''
         | OP_FALLOCATE \<Rightarrow>
             ''FALLOC   '' @ fmt_range a0 (a0 + a1) a1 @ '' '' @
             (if a0 + a1 \<le> a2 then ''INTERIOR'' else if FL_KEEP_SIZE \<in> flags lp then ''PAST_EOF'' else ''EXTENDING'') @
             mark ''******FFFF''
         | OP_PUNCH_HOLE \<Rightarrow> simple ''PUNCH    '' ''******PPPP''
         | OP_ZERO_RANGE \<Rightarrow> simple ''ZERO     '' ''******ZZZZ''
         | OP_COLLAPSE_RANGE \<Rightarrow> simple ''COLLAPSE '' ''******CCCC''
         | OP_INSERT_RANGE \<Rightarrow> simple ''INSERT '' ''******IIII''
         | OP_EXCHANGE_RANGE \<Rightarrow> fmt_pair ''XCHG'' CHR ''X'' bad lp
         | OP_CLONE_RANGE \<Rightarrow> fmt_pair ''CLONE'' CHR ''J'' bad lp
         | OP_DEDUPE_RANGE \<Rightarrow> fmt_pair ''DEDUPE'' CHR ''B'' bad lp
         | OP_COPY_RANGE \<Rightarrow> fmt_pair ''COPY'' CHR ''E'' bad lp
         | OP_FSYNC \<Rightarrow> ''FSYNC''
         | _ \<Rightarrow>
             ''WRITE    '' @ fmt_range a0 (a0 + a1 - 1) a1 @
             (if a0 > a2 then '' HOLE'' else if a0 + a1 > a2 then '' EXTEND'' else []) @ mark ''***WWWW'')"

definition op_line :: "int \<Rightarrow> log_entry \<Rightarrow> string" where
  "op_line bad lp =
     (if FL_SKIPPED \<in> flags lp then ''skip '' else []) @ op_names (operation lp) @
     concat (map (\<lambda>a. '' 0x'' @ fmt_x a) (take (nr_args lp) (args lp))) @
     (if FL_KEEP_SIZE \<in> flags lp then '' keep_size'' else []) @
     (if FL_CLOSE_OPEN \<in> flags lp then '' close_open'' else []) @
     (if FL_UNSHARE \<in> flags lp then '' unshare'' else []) @
     (if entry_overlap bad lp then '' *'' else []) @ [NL]"

definition dump_opnum :: "'f fsx \<Rightarrow> nat \<Rightarrow> nat" where
  "dump_opnum s i = i + 1 + (logcount s div LOGSIZE) * LOGSIZE"

definition dump_start :: "'f fsx \<Rightarrow> nat \<times> nat" where
  "dump_start s = (if logcount s < LOGSIZE then (0, logcount s) else (logptr s, LOGSIZE))"

text \<open>The loop over the log: the text printed, and the lines of the file of operations.\<close>

fun dump_loop :: "'f fsx \<Rightarrow> nat \<Rightarrow> nat \<Rightarrow> (string \<times> string) list" where
  "dump_loop s i 0 = []"
| "dump_loop s i (Suc count) =
     (let lp = oplog s i; opnum = dump_opnum s i
      in (fmt_d (int opnum) @ ''('' @ fmt_3d (int (opnum mod 256)) @ '' mod 256): '' @ entry_text (badoff s) lp @
            (if FL_CLOSE_OPEN \<in> flags lp then [NL, TAB, TAB] @ ''CLOSE/OPEN'' else []) @ [NL],
          op_line (badoff s) lp) # dump_loop s (if i + 1 = LOGSIZE then 0 else i + 1) count)"

text \<open>The file of operations can be opened; if it cannot, the code prints a message and only the text.\<close>

definition logdump :: "'f fsx \<Rightarrow> string \<times> string" where
  "logdump s =
     (let entries = (case dump_start s of (i, count) \<Rightarrow> dump_loop s i count)
      in (''LOG DUMP ('' @ fmt_d (int (logcount s)) @ '' total operations):'' @ [NL] @ concat (map fst entries),
          concat (map snd entries)))"

section \<open>Reading operations\<close>

text \<open>\<open>fgets\<close> with room for \<open>n\<close> characters, and the tokens of a line.\<close>

fun fgets :: "nat \<Rightarrow> string \<Rightarrow> string \<times> string" where
  "fgets n [] = ([], [])"
| "fgets n (c # inp) =
     (if n = 0 then ([], c # inp)
      else if c = NL then ([c], inp)
      else case fgets (n - 1) inp of (line, rest) \<Rightarrow> (c # line, rest))"

definition token_sep :: "char \<Rightarrow> bool" where
  "token_sep c \<longleftrightarrow> c = CHR '' '' \<or> c = TAB \<or> c = NL"

definition tokens :: "string \<Rightarrow> string list" where
  "tokens line = strtok_all token_sep line"

definition op_args_count :: "fsx_op \<Rightarrow> nat" where
  "op_args_count op =
     (if op \<in> {OP_EXCHANGE_RANGE, OP_CLONE_RANGE, OP_DEDUPE_RANGE, OP_COPY_RANGE} then 4 else 3)"

fun read_args :: "nat \<Rightarrow> string list \<Rightarrow> (int list \<times> string list) option" where
  "read_args n [] = (if n = 0 then Some ([], []) else None)"
| "read_args n (str # toks) =
     (if n = 0 then Some ([], str # toks)
      else case strtoul0 str of (v, rest) \<Rightarrow>
        if rest \<noteq> [] then None
        else Option.bind (read_args (n - 1) toks) (\<lambda>(as, toks). Some (c_int v # as, toks)))"

fun read_flags :: "string list \<Rightarrow> opflags \<Rightarrow> opflags option" where
  "read_flags [] fl = Some fl"
| "read_flags (str # toks) fl =
     (if str = ''keep_size'' then read_flags toks (fl \<union> {FL_KEEP_SIZE})
      else if str = ''close_open'' then read_flags toks (fl \<union> {FL_CLOSE_OPEN})
      else if str = ''unshare'' then read_flags toks (fl \<union> {FL_UNSHARE})
      else if str = ''*'' then read_flags toks fl
      else None)"

definition parse_op :: "string list \<Rightarrow> log_entry option" where
  "parse_op toks =
     (let skip = (hd toks = ''skip''); toks = (if skip then tl toks else toks)
      in if toks = [] then None
         else Option.bind (op_code (hd toks)) (\<lambda>op.
              Option.bind (read_args (op_args_count op) (tl toks)) (\<lambda>(as, toks).
              Option.bind (read_flags toks (if skip then {FL_SKIPPED} else FL_NONE)) (\<lambda>fl.
                Some \<lparr>operation = op, nr_args = op_args_count op,
                      args = as @ replicate (4 - op_args_count op) 0, flags = fl\<rparr>))))"

lemma length_fgets: "length (snd (fgets n inp)) \<le> length inp"
  by (induction n inp rule: fgets.induct) (auto split: prod.splits)

lemma fgets_shorter: "0 < n \<Longrightarrow> inp \<noteq> [] \<Longrightarrow> length (snd (fgets n inp)) < length inp"
  using length_fgets [of "n - 1" "tl inp"] by (cases inp) (auto split: prod.splits simp: less_Suc_eq_le)

text \<open>The next line that is neither empty nor a comment, and the rest of the file.\<close>

function next_op_line :: "string \<Rightarrow> (string list \<times> string) option" where
  "next_op_line inp =
     (if inp = [] then None
      else let toks = tokens (fst (fgets 255 inp)); rest = snd (fgets 255 inp)
           in if toks = [] \<or> hd (hd toks) = CHR ''#'' then next_op_line rest else Some (toks, rest))"
  by pat_completeness auto
termination
  by (relation "measure length") (auto simp: fgets_shorter)

declare next_op_line.simps [simp del]

datatype read_result = Read_eof | Read_fail | Read_entry log_entry string

definition read_op :: "string \<Rightarrow> read_result" where
  "read_op inp =
     (case next_op_line inp of
        None \<Rightarrow> Read_eof
      | Some (toks, rest) \<Rightarrow> (case parse_op toks of None \<Rightarrow> Read_fail | Some le \<Rightarrow> Read_entry le rest))"

end
