(* ===== verification/Fsx_Test.thy ===== *)
theory Fsx_Test
  imports Fsx_Ops Fsx_Log
begin

text \<open>
  One call of \<open>test\<close> of \<open>src/ltp/fsx.c\<close> and the loop of calls: the choice of a random operation or
  the next one of a replay file, the trimming of its range to the file, the dispatch, and the
  checks after it.
\<close>

section \<open>Ranges\<close>

definition wrap64 :: "nat \<Rightarrow> nat" where
  "wrap64 n = n mod 2 ^ 64"

definition sub64 :: "nat \<Rightarrow> nat \<Rightarrow> nat" where
  "sub64 a b = wrap64 (a + 2 ^ 64 - b)"

definition TRIM_OFF :: "nat \<Rightarrow> nat \<Rightarrow> nat" where
  "TRIM_OFF off sz = (if sz \<noteq> 0 then off mod sz else 0)"

definition TRIM_LEN :: "nat \<Rightarrow> nat \<Rightarrow> nat \<Rightarrow> nat" where
  "TRIM_LEN off len sz = (if wrap64 (off + len) > sz then sub64 sz off else len)"

definition rounddown_64 :: "nat \<Rightarrow> nat \<Rightarrow> nat" where
  "rounddown_64 x y = x div y * y"

text \<open>\<open>llabs\<close> of the wrapped difference.\<close>

definition range_overlaps :: "nat \<Rightarrow> nat \<Rightarrow> nat \<Rightarrow> bool" where
  "range_overlaps off0 off1 sz \<longleftrightarrow>
     (let d = sub64 off1 off0 in (if d < 2 ^ 63 then d else 2 ^ 64 - d) < sz)"

text \<open>The search for a destination gives up after 30 tries with the size zero.\<close>

function dest_loop :: "'f sys \<Rightarrow> nat \<Rightarrow> nat \<Rightarrow> nat \<Rightarrow> nat \<Rightarrow> nat \<Rightarrow> nat \<Rightarrow> 'f fsx \<Rightarrow> nat \<times> nat \<times> 'f fsx" where
  "dest_loop sys align max_range_end src sz dst tries s =
     (if tries \<ge> 30 then (0, dst, s)
      else let dst = rounddown_64 (TRIM_OFF (fst (next_random sys s)) max_range_end) align;
               s = snd (next_random sys s)
           in if range_overlaps src dst sz \<or> wrap64 (dst + sz) > max_range_end
              then dest_loop sys align max_range_end src sz dst (tries + 1) s
              else (sz, dst, s))"
  by pat_completeness auto
termination
  by (relation "measure (\<lambda>(sys, al, m, src, sz, dst, tries, s). 30 - tries)") auto

declare dest_loop.simps [simp del]

definition generate_dest_range ::
  "'f sys \<Rightarrow> fsx_cfg \<Rightarrow> bool \<Rightarrow> nat \<Rightarrow> nat \<Rightarrow> nat \<Rightarrow> nat \<Rightarrow> 'f fsx \<Rightarrow> nat \<times> nat \<times> nat \<times> 'f fsx" where
  "generate_dest_range sys cfg bdy_align max_range_end src sz dst s =
     (let src = TRIM_OFF src (file_size s);
          sz = TRIM_LEN src sz (file_size s);
          src = rounddown_64 src (if bdy_align then readbdy cfg else block_size cfg);
          sz = (if bdy_align then if o_direct cfg then rounddown_64 sz (readbdy cfg) else sz
                else rounddown_64 sz (block_size cfg));
          (sz, dst, s) = dest_loop sys (if bdy_align then writebdy cfg else block_size cfg) max_range_end src sz dst 0 s
      in (src, sz, dst, s))"

section \<open>The next operation\<close>

record test_op =
  t_op :: fsx_op
  t_offset :: nat
  t_size :: nat
  t_offset2 :: nat
  t_keep_size :: bool
  t_unshare :: bool

definition choose_op :: "fsx_cfg \<Rightarrow> nat \<Rightarrow> fsx_op" where
  "choose_op cfg rv =
     fsx_ops ! (rv mod (if lite cfg then OP_MAX_LITE else if \<not> integrity cfg then OP_MAX_FULL else OP_MAX_INTEGRITY))"

definition dest_range_op :: "'f sys \<Rightarrow> fsx_cfg \<Rightarrow> bool \<Rightarrow> nat \<Rightarrow> test_op \<Rightarrow> 'f fsx \<Rightarrow> test_op \<times> 'f fsx" where
  "dest_range_op sys cfg bdy_align max_range_end t s =
     (case generate_dest_range sys cfg bdy_align max_range_end (t_offset t) (t_size t) (t_offset2 t) s of
        (src, sz, dst, s) \<Rightarrow> (t\<lparr>t_offset := src, t_size := sz, t_offset2 := dst\<rparr>, s))"

text \<open>The draws that depend on the operation.\<close>

definition random_args :: "'f sys \<Rightarrow> fsx_cfg \<Rightarrow> test_op \<Rightarrow> 'f fsx \<Rightarrow> test_op \<times> 'f fsx" where
  "random_args sys cfg t s =
     (case t_op t of
        OP_TRUNCATE \<Rightarrow>
          if \<not> style cfg
          then let (r, s) = next_random sys s in (t\<lparr>t_size := r mod maxfilelen cfg\<rparr>, s)
          else (t, s)
      | OP_FALLOCATE \<Rightarrow>
          if fallocate_calls cfg \<and> t_size t \<noteq> 0
          then let (t, s) = (if keep_size_calls cfg
                             then let (r, s) = next_random sys s in (t\<lparr>t_keep_size := r mod 2 \<noteq> 0\<rparr>, s)
                             else (t, s))
               in if unshare_range_calls cfg
                  then let (r, s) = next_random sys s in (t\<lparr>t_unshare := r mod 2 \<noteq> 0\<rparr>, s)
                  else (t, s)
          else (t, s)
      | OP_ZERO_RANGE \<Rightarrow>
          if zero_range_calls cfg \<and> t_size t \<noteq> 0 \<and> keep_size_calls cfg
          then let (r, s) = next_random sys s in (t\<lparr>t_keep_size := r mod 2 \<noteq> 0\<rparr>, s)
          else (t, s)
      | OP_CLONE_RANGE \<Rightarrow> dest_range_op sys cfg False (maxfilelen cfg) t s
      | OP_DEDUPE_RANGE \<Rightarrow> dest_range_op sys cfg False (file_size s) t s
      | OP_COPY_RANGE \<Rightarrow> dest_range_op sys cfg True (maxfilelen cfg) t s
      | OP_EXCHANGE_RANGE \<Rightarrow> dest_range_op sys cfg False (file_size s) t s
      | _ \<Rightarrow> (t, s))"

definition random_op :: "'f sys \<Rightarrow> fsx_cfg \<Rightarrow> 'f fsx \<Rightarrow> test_op \<times> 'f fsx" where
  "random_op sys cfg s =
     (let (rv, s) = next_random sys s;
          s = (if closeprob cfg \<noteq> 0 then s\<lparr>closeopen := rv div 8 < 2 ^ 28 div closeprob cfg\<rparr> else s);
          (offset, s) = next_random sys s;
          (sz, s) = (if randomoplen cfg
                     then let (r, s) = next_random sys s in (r mod (maxoplen cfg + 1), s)
                     else (maxoplen cfg, s))
      in random_args sys cfg
           \<lparr>t_op = choose_op cfg rv, t_offset = offset, t_size = sz, t_offset2 = 0, t_keep_size = False, t_unshare = False\<rparr> s)"

lemma length_next_op_line: "next_op_line inp = Some (toks, rest) \<Longrightarrow> length rest < length inp"
proof (induction inp rule: next_op_line.induct)
  case (1 inp)
  then show ?case
    using fgets_shorter [of 255 inp] by (subst (asm) (2) next_op_line.simps) (fastforce simp: Let_def split: if_splits)
qed

lemma read_op_shorter: "read_op inp = Read_entry le rest \<Longrightarrow> length rest < length inp"
  by (auto simp: read_op_def length_next_op_line split: option.splits)

definition ulong_of_int :: "int \<Rightarrow> nat" where
  "ulong_of_int i = nat (i mod 2 ^ 64)"

definition replayed :: "log_entry \<Rightarrow> test_op" where
  "replayed le =
     \<lparr>t_op = operation le, t_offset = ulong_of_int (args le ! 0), t_size = ulong_of_int (args le ! 1),
      t_offset2 = ulong_of_int (args le ! 2), t_keep_size = FL_KEEP_SIZE \<in> flags le, t_unshare = FL_UNSHARE \<in> flags le\<rparr>"

text \<open>
  The next operation of the replay file that was not skipped when it was recorded; \<open>None\<close> at the end of
  the file.
\<close>

function replay_op :: "string \<Rightarrow> 'f fsx \<Rightarrow> ('f, test_op option \<times> 'f fsx) fsx_result" where
  "replay_op inp s =
     (case read_op inp of
        Read_eof \<Rightarrow> ret (None, s\<lparr>replayopsf := None\<rparr>)
      | Read_fail \<Rightarrow> exit_with 100 (s\<lparr>replayopsf := None\<rparr>)
      | Read_entry le rest \<Rightarrow>
          if FL_SKIPPED \<in> flags le
          then replay_op rest (log4 (operation le) (args le ! 0) (args le ! 1) (flags le) (s\<lparr>replayopsf := Some rest\<rparr>))
          else ret (Some (replayed le), s\<lparr>replayopsf := Some rest, closeopen := FL_CLOSE_OPEN \<in> flags le\<rparr>))"
  by pat_completeness auto
termination
  by (relation "measure (\<lambda>(inp, s). length inp)") (auto simp: read_op_shorter)

declare replay_op.simps [simp del]

section \<open>Dispatch\<close>

definition disabled_op :: "fsx_cfg \<Rightarrow> fsx_op \<Rightarrow> bool" where
  "disabled_op cfg op =
     (case op of
        OP_FALLOCATE \<Rightarrow> \<not> fallocate_calls cfg
      | OP_PUNCH_HOLE \<Rightarrow> \<not> punch_hole_calls cfg
      | OP_ZERO_RANGE \<Rightarrow> \<not> zero_range_calls cfg
      | OP_COLLAPSE_RANGE \<Rightarrow> \<not> collapse_range_calls cfg
      | OP_INSERT_RANGE \<Rightarrow> \<not> insert_range_calls cfg
      | OP_EXCHANGE_RANGE \<Rightarrow> \<not> exchange_range_calls cfg
      | OP_CLONE_RANGE \<Rightarrow> \<not> clone_range_calls cfg
      | OP_DEDUPE_RANGE \<Rightarrow> \<not> dedupe_range_calls cfg
      | OP_COPY_RANGE \<Rightarrow> \<not> copy_range_calls cfg
      | OP_WRITE_ATOMIC \<Rightarrow> \<not> do_atomic_writes cfg
      | _ \<Rightarrow> False)"

definition mapped_op :: "fsx_cfg \<Rightarrow> fsx_op \<Rightarrow> fsx_op" where
  "mapped_op cfg op =
     (if op = OP_MAPREAD \<and> \<not> mapped_reads cfg then OP_READ
      else if op = OP_MAPWRITE \<and> \<not> mapped_writes cfg then OP_WRITE
      else op)"

definition log_skipped :: "fsx_op \<Rightarrow> nat \<Rightarrow> nat \<Rightarrow> nat \<Rightarrow> 'f fsx \<Rightarrow> 'f fsx" where
  "log_skipped op offset sz offset2 s =
     (if op_args_count op = 4 then log5 op (c_int offset) (c_int sz) (c_int offset2) {FL_SKIPPED} s
      else log4 op (c_int offset) (c_int sz) {FL_SKIPPED} s)"

text \<open>
  The last switch of \<open>test\<close>.  The flag of the result tells whether the code goes on to the check of the
  file contents or jumps over it.
\<close>

definition go_on :: "('f, 'f fsx) fsx_result \<Rightarrow> ('f, bool \<times> 'f fsx) fsx_result" where
  "go_on r = andthen r (\<lambda>s. ret (True, s))"

definition two_range_op ::
  "fsx_cfg \<Rightarrow> fsx_op \<Rightarrow> (nat \<Rightarrow> nat \<Rightarrow> nat \<Rightarrow> 'f fsx \<Rightarrow> ('f, 'f fsx) fsx_result) \<Rightarrow> nat \<Rightarrow> nat \<Rightarrow> nat \<Rightarrow> 'f fsx \<Rightarrow>
    ('f, bool \<times> 'f fsx) fsx_result" where
  "two_range_op cfg op do_range offset sz offset2 s =
     (if sz = 0 \<or> wrap64 (offset2 + sz) > maxfilelen cfg then ret (False, log_skipped op offset sz offset2 s)
      else go_on (do_range (wrap32 offset) (wrap32 sz) (wrap32 offset2) s))"

definition run_op :: "'f sys \<Rightarrow> fsx_cfg \<Rightarrow> fsx_op \<Rightarrow> test_op \<Rightarrow> 'f fsx \<Rightarrow> ('f, bool \<times> 'f fsx) fsx_result" where
  "run_op sys cfg op t s =
     (let offset = t_offset t; sz = t_size t; offset2 = t_offset2 t;
          off_f = TRIM_OFF offset (file_size s); len_f = TRIM_LEN off_f sz (file_size s);
          off_m = TRIM_OFF offset (maxfilelen cfg); len_m = TRIM_LEN off_m sz (maxfilelen cfg)
      in case op of
        OP_READ \<Rightarrow> go_on (doread sys cfg (wrap32 off_f) (wrap32 len_f) RWF_NONE s)
      | OP_READ_DONTCACHE \<Rightarrow>
          go_on (doread sys cfg (wrap32 off_f) (wrap32 len_f) (if dontcache_io cfg then RWF_DONTCACHE else RWF_NONE) s)
      | OP_WRITE \<Rightarrow> go_on (dowrite sys cfg (wrap32 off_m) (wrap32 len_m) RWF_NONE s)
      | OP_WRITE_DONTCACHE \<Rightarrow>
          go_on (dowrite sys cfg (wrap32 off_m) (wrap32 len_m) (if dontcache_io cfg then RWF_DONTCACHE else RWF_NONE) s)
      | OP_WRITE_ATOMIC \<Rightarrow> go_on (dowrite sys cfg (wrap32 off_m) (wrap32 len_m) RWF_ATOMIC s)
      | OP_MAPREAD \<Rightarrow> go_on (domapread sys cfg (wrap32 off_f) (wrap32 len_f) s)
      | OP_MAPWRITE \<Rightarrow> go_on (domapwrite sys cfg (wrap32 off_m) (wrap32 len_m) s)
      | OP_TRUNCATE \<Rightarrow> go_on (dotruncate sys cfg (wrap32 sz) s)
      | OP_FALLOCATE \<Rightarrow> go_on (do_preallocate sys cfg (wrap32 off_m) (wrap32 len_m) (t_keep_size t) (t_unshare t) s)
      | OP_PUNCH_HOLE \<Rightarrow> go_on (do_punch_hole sys cfg (wrap32 off_f) (wrap32 len_f) s)
      | OP_ZERO_RANGE \<Rightarrow> go_on (do_zero_range sys cfg (wrap32 off_m) (wrap32 len_m) (t_keep_size t) s)
      | OP_COLLAPSE_RANGE \<Rightarrow>
          let limit = sub64 (file_size s) 1; off = TRIM_OFF offset limit; len = TRIM_LEN off sz limit;
              off = rounddown_64 off (block_size cfg); len = rounddown_64 len (block_size cfg)
          in if len = 0 then ret (False, log4 OP_COLLAPSE_RANGE (c_int off) (c_int len) {FL_SKIPPED} s)
             else go_on (do_collapse_range sys cfg (wrap32 off) (wrap32 len) s)
      | OP_INSERT_RANGE \<Rightarrow>
          let len = TRIM_LEN (file_size s) sz (maxfilelen cfg);
              off = rounddown_64 off_f (block_size cfg); len = rounddown_64 len (block_size cfg)
          in if len = 0 \<or> wrap64 (file_size s + len) > maxfilelen cfg
             then ret (False, log4 OP_INSERT_RANGE (c_int off) (c_int len) {FL_SKIPPED} s)
             else go_on (do_insert_range sys cfg (wrap32 off) (wrap32 len) s)
      | OP_EXCHANGE_RANGE \<Rightarrow> two_range_op cfg OP_EXCHANGE_RANGE (do_exchange_range sys cfg) offset sz offset2 s
      | OP_CLONE_RANGE \<Rightarrow> two_range_op cfg OP_CLONE_RANGE (do_clone_range sys cfg) offset sz offset2 s
      | OP_DEDUPE_RANGE \<Rightarrow> two_range_op cfg OP_DEDUPE_RANGE (do_dedupe_range sys cfg) offset sz offset2 s
      | OP_COPY_RANGE \<Rightarrow> two_range_op cfg OP_COPY_RANGE (do_copy_range sys cfg) offset sz offset2 s
      | OP_FSYNC \<Rightarrow> go_on (dofsync sys cfg s))"

definition after_op :: "'f sys \<Rightarrow> fsx_cfg \<Rightarrow> bool \<Rightarrow> 'f fsx \<Rightarrow> ('f, 'f fsx) fsx_result" where
  "after_op sys cfg check s =
     andthen (if check \<and> check_file cfg \<and> testcalls s > simulatedopcount cfg then check_contents sys cfg s else ret s) (\<lambda>s.
     andthen (if closeopen s then docloseopen sys cfg s else ret s) (\<lambda>s.
     if sizechecks cfg \<and> testcalls s > simulatedopcount cfg then check_size sys s else ret s))"

definition have_op :: "'f sys \<Rightarrow> fsx_cfg \<Rightarrow> test_op \<Rightarrow> 'f fsx \<Rightarrow> ('f, 'f fsx) fsx_result" where
  "have_op sys cfg t s =
     (let op = mapped_op cfg (t_op t)
      in andthen (if disabled_op cfg op then ret (False, log_skipped op (t_offset t) (t_size t) (t_offset2 t) s)
                  else run_op sys cfg op t s) (\<lambda>(check, s).
         after_op sys cfg check s))"

definition test :: "'f sys \<Rightarrow> fsx_cfg \<Rightarrow> 'f fsx \<Rightarrow> ('f, bool \<times> 'f fsx) fsx_result" where
  "test sys cfg s =
     andthen (if simulatedopcount cfg > 0 \<and> testcalls s = simulatedopcount cfg then writefileimage sys cfg s else ret s) (\<lambda>s.
       let s = s\<lparr>testcalls := testcalls s + 1\<rparr>
       in case replayopsf s of
            Some inp \<Rightarrow>
              andthen (replay_op inp s) (\<lambda>(t, s).
                case t of None \<Rightarrow> ret (False, s) | Some t \<Rightarrow> go_on (have_op sys cfg t s))
          | None \<Rightarrow> (case random_op sys cfg s of (t, s) \<Rightarrow> go_on (have_op sys cfg t s)))"

section \<open>The loop\<close>

text \<open>The counter \<open>-1\<close> stands for no limit.  The wall clock limit of \<open>--duration\<close> is not modelled.\<close>

definition keep_running :: "int \<Rightarrow> bool \<times> int" where
  "keep_running numops = (if numops = - 1 then (True, numops) else (numops \<noteq> 0, numops - 1))"

partial_function (option) test_loop :: "'f sys \<Rightarrow> fsx_cfg \<Rightarrow> int \<Rightarrow> 'f fsx \<Rightarrow> ('f, 'f fsx) fsx_result" where
  [code]: "test_loop sys cfg numops s =
     (case keep_running numops of (go, numops') \<Rightarrow>
        if \<not> go then ret s
        else Option.bind (test sys cfg s) (\<lambda>r. case r of
          Inl e \<Rightarrow> Some (Inl e)
        | Inr (again, s') \<Rightarrow> if again then test_loop sys cfg numops' s' else ret s'))"

end
