(* ===== verification/Fsx_Spec.thy ===== *)
theory Fsx_Spec
  imports Fsx_Test
begin

text \<open>
  What a conforming file system promises \<open>src/ltp/fsx.c\<close>, and a file system in memory that keeps
  the promise.

  The contents of the test file in an outside world are given by \<open>data\<close>; \<open>past\<close> gives the bytes a
  shared mapping shows past the end of the file, in the file's last page.  A system call may turn
  bytes past the end of the file into zeros at any time, and must have done so for those that
  become part of the file; it never writes others there.
\<close>

section \<open>Effects on the contents\<close>

definition file_write :: "bytes \<Rightarrow> nat \<Rightarrow> bytes \<Rightarrow> bytes" where
  "file_write c off b = take off (c @ replicate (off - length c) 0) @ b @ drop (off + length b) c"

definition file_resize :: "bytes \<Rightarrow> nat \<Rightarrow> bytes" where
  "file_resize c n = take n c @ replicate (n - length c) 0"

definition file_zero :: "bytes \<Rightarrow> nat \<Rightarrow> nat \<Rightarrow> bytes" where
  "file_zero c off len = take off c @ replicate (min len (length c - off)) 0 @ drop (off + len) c"

definition file_collapse :: "bytes \<Rightarrow> nat \<Rightarrow> nat \<Rightarrow> bytes" where
  "file_collapse c off len = take off c @ drop (off + len) c"

definition file_insert :: "bytes \<Rightarrow> nat \<Rightarrow> nat \<Rightarrow> bytes" where
  "file_insert c off len = take off c @ replicate len 0 @ drop off c"

definition file_exchange :: "bytes \<Rightarrow> nat \<Rightarrow> nat \<Rightarrow> nat \<Rightarrow> bytes" where
  "file_exchange c off len dst = put_at (put_at c off (slice c dst len)) dst (slice c off len)"

definition becomes :: "('f \<Rightarrow> bytes) \<Rightarrow> ('f \<Rightarrow> nat \<Rightarrow> u8) \<Rightarrow> 'f \<Rightarrow> 'f \<Rightarrow> bytes \<Rightarrow> bool" where
  "becomes data past f f' c \<longleftrightarrow> data f' = c \<and> (\<forall>x \<ge> length c. past f' x = past f x \<or> past f' x = 0)"

definition cleared :: "('f \<Rightarrow> bytes) \<Rightarrow> ('f \<Rightarrow> nat \<Rightarrow> u8) \<Rightarrow> 'f \<Rightarrow> bool" where
  "cleared data past f \<longleftrightarrow> (\<forall>x \<ge> length (data f). past f x = 0)"

definition disjoint_ranges :: "nat \<Rightarrow> nat \<Rightarrow> nat \<Rightarrow> bool" where
  "disjoint_ranges off dst len \<longleftrightarrow> off + len \<le> dst \<or> dst + len \<le> off"

section \<open>The promises\<close>

definition reads_ok :: "'f sys \<Rightarrow> ('f \<Rightarrow> bytes) \<Rightarrow> ('f \<Rightarrow> nat \<Rightarrow> u8) \<Rightarrow> bool" where
  "reads_ok sys data past \<longleftrightarrow> (\<forall>f len off fl. 0 < len \<longrightarrow> off + len \<le> length (data f) \<longrightarrow>
     (\<exists>f'. sys_preadv2 sys f len off fl = (f', Some (slice (data f) off len)) \<and> becomes data past f f' (data f)) \<and>
     (\<exists>f'. sys_aio_pread sys f len off = (f', Completed (slice (data f) off len)) \<and> becomes data past f f' (data f)) \<and>
     (\<exists>f' n. 0 < n \<and> n \<le> len \<and> sys_uring_readv sys f len off fl = (f', Completed (slice (data f) off n)) \<and>
        becomes data past f f' (data f)))"

definition writes_ok :: "'f sys \<Rightarrow> nat \<Rightarrow> ('f \<Rightarrow> bytes) \<Rightarrow> ('f \<Rightarrow> nat \<Rightarrow> u8) \<Rightarrow> bool" where
  "writes_ok sys limit data past \<longleftrightarrow> (\<forall>f b off fl. b \<noteq> [] \<longrightarrow> off + length b \<le> limit \<longrightarrow>
     (\<exists>f'. sys_pwritev2 sys f b off fl = (f', Some (length b)) \<and> becomes data past f f' (file_write (data f) off b)) \<and>
     (\<exists>f'. sys_aio_pwrite sys f b off = (f', Completed (length b)) \<and> becomes data past f f' (file_write (data f) off b)) \<and>
     (\<exists>f' n. 0 < n \<and> n \<le> length b \<and> sys_uring_writev sys f b off fl = (f', Completed n) \<and>
        becomes data past f f' (file_write (data f) off (take n b))))"

definition image_ok :: "'f sys \<Rightarrow> nat \<Rightarrow> ('f \<Rightarrow> bytes) \<Rightarrow> ('f \<Rightarrow> nat \<Rightarrow> u8) \<Rightarrow> bool" where
  "image_ok sys limit data past \<longleftrightarrow> (\<forall>f. \<exists>f'. sys_lseek_set sys f = (f', True) \<and> becomes data past f f' (data f) \<and>
     (\<forall>b. length b \<le> limit \<longrightarrow>
       (\<exists>f''. sys_write sys f' b = (f'', Some (length b)) \<and> becomes data past f' f'' (file_write (data f') 0 b))))"

definition truncates_ok :: "'f sys \<Rightarrow> nat \<Rightarrow> ('f \<Rightarrow> bytes) \<Rightarrow> ('f \<Rightarrow> nat \<Rightarrow> u8) \<Rightarrow> bool" where
  "truncates_ok sys limit data past \<longleftrightarrow> (\<forall>f n. n \<le> limit \<longrightarrow>
     (\<exists>f'. sys_ftruncate sys f n = (f', True) \<and> becomes data past f f' (file_resize (data f) n) \<and>
        (n < length (data f) \<longrightarrow> cleared data past f')))"

definition fallocates_ok :: "'f sys \<Rightarrow> nat \<Rightarrow> nat \<Rightarrow> ('f \<Rightarrow> bytes) \<Rightarrow> ('f \<Rightarrow> nat \<Rightarrow> u8) \<Rightarrow> bool" where
  "fallocates_ok sys limit bs data past \<longleftrightarrow> (\<forall>f off len. 0 < len \<longrightarrow> off + len \<le> limit \<longrightarrow>
     (\<forall>keep unshare. \<exists>f'. sys_fallocate sys f (FALLOC_DEFAULT keep unshare) off len = (f', True) \<and>
        becomes data past f f' (if keep then data f else file_resize (data f) (max (length (data f)) (off + len)))) \<and>
     (\<exists>f'. sys_fallocate sys f FALLOC_FL_PUNCH_HOLE off len = (f', True) \<and>
        becomes data past f f' (file_zero (data f) off len)) \<and>
     (\<forall>keep. \<exists>f'. sys_fallocate sys f (FALLOC_FL_ZERO_RANGE keep) off len = (f', True) \<and>
        becomes data past f f'
          (file_zero (if keep then data f else file_resize (data f) (max (length (data f)) (off + len))) off len)) \<and>
     (off mod bs = 0 \<longrightarrow> len mod bs = 0 \<longrightarrow> off + len < length (data f) \<longrightarrow>
        (\<exists>f'. sys_fallocate sys f FALLOC_FL_COLLAPSE_RANGE off len = (f', True) \<and>
           data f' = file_collapse (data f) off len \<and> cleared data past f')) \<and>
     (off mod bs = 0 \<longrightarrow> len mod bs = 0 \<longrightarrow> off < length (data f) \<longrightarrow> length (data f) + len \<le> limit \<longrightarrow>
        (\<exists>f'. sys_fallocate sys f FALLOC_FL_INSERT_RANGE off len = (f', True) \<and>
           data f' = file_insert (data f) off len \<and> cleared data past f')))"

definition ranges_ok :: "'f sys \<Rightarrow> nat \<Rightarrow> nat \<Rightarrow> ('f \<Rightarrow> bytes) \<Rightarrow> ('f \<Rightarrow> nat \<Rightarrow> u8) \<Rightarrow> bool" where
  "ranges_ok sys limit bs data past \<longleftrightarrow> (\<forall>f off len dst. 0 < len \<longrightarrow> off + len \<le> length (data f) \<longrightarrow> dst + len \<le> limit \<longrightarrow>
     disjoint_ranges off dst len \<longrightarrow>
     (\<exists>f' n. 0 < n \<and> n \<le> len \<and> sys_copy_file_range sys f off dst len = (f', Copied n) \<and>
        becomes data past f f' (file_write (data f) dst (slice (data f) off n))) \<and>
     (off mod bs = 0 \<longrightarrow> len mod bs = 0 \<longrightarrow> dst mod bs = 0 \<longrightarrow>
        (\<exists>f'. sys_clone_range sys f off len dst = (f', True) \<and>
           becomes data past f f' (file_write (data f) dst (slice (data f) off len))) \<and>
        (dst + len \<le> length (data f) \<longrightarrow>
          (\<exists>f'. sys_dedupe_range sys f off len dst = (f', Deduped) \<and> becomes data past f f' (data f)) \<and>
          (\<exists>f'. sys_exchange_range sys f off len dst = (f', True) \<and>
             becomes data past f f' (file_exchange (data f) off len dst)))))"

definition maps_ok :: "'f sys \<Rightarrow> nat \<Rightarrow> ('f \<Rightarrow> bytes) \<Rightarrow> ('f \<Rightarrow> nat \<Rightarrow> u8) \<Rightarrow> bool" where
  "maps_ok sys ps data past \<longleftrightarrow> (\<forall>f off len.
     (off < length (data f) \<longrightarrow> 0 < len \<longrightarrow> off mod ps = 0 \<longrightarrow>
       (\<exists>f'. sys_mmap sys f off len = (f', True) \<and> becomes data past f f' (data f)) \<and>
       (\<exists>f'. sys_msync sys f off len = (f', True) \<and> becomes data past f f' (data f)) \<and>
       (\<exists>f'. sys_munmap sys f off len = (f', True) \<and> becomes data past f f' (data f))) \<and>
     (off + len \<le> ROUND_UP (length (data f)) ps \<longrightarrow>
       sys_load sys f off len = map (\<lambda>x. if x < length (data f) then data f ! x else past f x) [off..<off + len]) \<and>
     (\<forall>b. off + length b \<le> ROUND_UP (length (data f)) ps \<longrightarrow>
       data (sys_store sys f off b) =
         map (\<lambda>x. if off \<le> x \<and> x < off + length b then b ! (x - off) else data f ! x) [0..<length (data f)] \<and>
       past (sys_store sys f off b) = (\<lambda>x. if off \<le> x \<and> x < off + length b then b ! (x - off) else past f x)))"

definition syncs_ok :: "'f sys \<Rightarrow> ('f \<Rightarrow> bytes) \<Rightarrow> ('f \<Rightarrow> nat \<Rightarrow> u8) \<Rightarrow> bool" where
  "syncs_ok sys data past \<longleftrightarrow> (\<forall>f.
     (\<forall>call \<in> {sys_fsync sys, sys_close sys, sys_drop_caches sys, sys_open sys}.
        \<exists>f'. call f = (f', True) \<and> becomes data past f f' (data f)) \<and>
     (\<forall>n. \<exists>f'. sys_mark_log sys f n = (f', True) \<and> becomes data past f f' (data f)) \<and>
     (\<forall>n b. \<exists>f'. sys_dump_buffer sys f n b = (f', True) \<and> becomes data past f f' (data f)) \<and>
     sys_fstat_size sys f = Some (length (data f)) \<and> sys_lseek_end sys f = Some (length (data f)))"

definition posix_fs :: "'f sys \<Rightarrow> fsx_cfg \<Rightarrow> ('f \<Rightarrow> bytes) \<Rightarrow> ('f \<Rightarrow> nat \<Rightarrow> u8) \<Rightarrow> bool" where
  "posix_fs sys cfg data past \<longleftrightarrow>
     reads_ok sys data past \<and> writes_ok sys (maxfilelen cfg) data past \<and> image_ok sys (maxfilelen cfg) data past \<and>
     truncates_ok sys (maxfilelen cfg) data past \<and> fallocates_ok sys (maxfilelen cfg) (block_size cfg) data past \<and>
     ranges_ok sys (maxfilelen cfg) (block_size cfg) data past \<and> maps_ok sys (page_size cfg) data past \<and>
     syncs_ok sys data past"

section \<open>Well formed options and states\<close>

definition cfg_ok :: "fsx_cfg \<Rightarrow> bool" where
  "cfg_ok cfg \<longleftrightarrow>
     0 < readbdy cfg \<and> 0 < writebdy cfg \<and> 0 < truncbdy cfg \<and> 0 < block_size cfg \<and>
     (\<exists>k \<le> 30. page_size cfg = 2 ^ k) \<and> 0 < maxfilelen cfg \<and> maxfilelen cfg < 2 ^ 31 \<and> maxoplen cfg < 2 ^ 31 \<and>
     \<not> style cfg \<and> (do_atomic_writes cfg \<longrightarrow> 0 < awu_min cfg \<and> awu_min cfg \<le> awu_max cfg \<and> awu_max cfg < 2 ^ 31)"

text \<open>
  The good buffer predicts the file: it has its full size, and outside the simulated prefix of the run
  its first \<open>file_size\<close> bytes are the contents of the file.
\<close>

definition good_state :: "fsx_cfg \<Rightarrow> ('f \<Rightarrow> bytes) \<Rightarrow> ('f \<Rightarrow> nat \<Rightarrow> u8) \<Rightarrow> 'f fsx \<Rightarrow> bool" where
  "good_state cfg data past s \<longleftrightarrow>
     length (good_buf s) = maxfilelen cfg \<and> length (original_buf s) = maxfilelen cfg \<and> file_size s \<le> maxfilelen cfg \<and>
     (lite cfg \<longrightarrow> file_size s = maxfilelen cfg \<and> length (data (fsys s)) = maxfilelen cfg) \<and>
     cleared data past (fsys s) \<and>
     (simulatedopcount cfg < testcalls s \<longrightarrow> data (fsys s) = take (file_size s) (good_buf s))"

section \<open>A file system in memory\<close>

record memfs =
  mem_data :: bytes
  mem_past :: "nat \<Rightarrow> u8"

definition mem_set :: "memfs \<Rightarrow> bytes \<Rightarrow> memfs" where
  "mem_set f c = \<lparr>mem_data = c, mem_past = (\<lambda>_. 0)\<rparr>"

definition mem_fallocate :: "memfs \<Rightarrow> falloc_mode \<Rightarrow> nat \<Rightarrow> nat \<Rightarrow> memfs \<times> bool" where
  "mem_fallocate f mode off len =
     (let c = mem_data f; grown = file_resize c (max (length c) (off + len))
      in (mem_set f (case mode of
            FALLOC_DEFAULT keep _ \<Rightarrow> if keep then c else grown
          | FALLOC_FL_PUNCH_HOLE \<Rightarrow> file_zero c off len
          | FALLOC_FL_ZERO_RANGE keep \<Rightarrow> file_zero (if keep then c else grown) off len
          | FALLOC_FL_COLLAPSE_RANGE \<Rightarrow> file_collapse c off len
          | FALLOC_FL_INSERT_RANGE \<Rightarrow> file_insert c off len), True))"

definition mem_store :: "memfs \<Rightarrow> nat \<Rightarrow> bytes \<Rightarrow> memfs" where
  "mem_store f off b =
     \<lparr>mem_data = map (\<lambda>x. if off \<le> x \<and> x < off + length b then b ! (x - off) else mem_data f ! x) [0..<length (mem_data f)],
      mem_past = (\<lambda>x. if off \<le> x \<and> x < off + length b then b ! (x - off) else mem_past f x)\<rparr>"

text \<open>The \<open>io_uring\<close> requests and the copies are served by halves.\<close>

definition mem_sys :: "(nat \<Rightarrow> nat) \<Rightarrow> memfs sys" where
  "mem_sys rnd =
     \<lparr>sys_preadv2 = (\<lambda>f len off fl. (f, Some (slice (mem_data f) off len))),
      sys_pwritev2 = (\<lambda>f b off fl. (mem_set f (file_write (mem_data f) off b), Some (length b))),
      sys_aio_pread = (\<lambda>f len off. (f, Completed (slice (mem_data f) off len))),
      sys_aio_pwrite = (\<lambda>f b off. (mem_set f (file_write (mem_data f) off b), Completed (length b))),
      sys_uring_readv = (\<lambda>f len off fl. (f, Completed (slice (mem_data f) off ((len + 1) div 2)))),
      sys_uring_writev = (\<lambda>f b off fl.
        (mem_set f (file_write (mem_data f) off (take ((length b + 1) div 2) b)), Completed ((length b + 1) div 2))),
      sys_lseek_set = (\<lambda>f. (f, True)),
      sys_write = (\<lambda>f b. (mem_set f (file_write (mem_data f) 0 b), Some (length b))),
      sys_ftruncate = (\<lambda>f n. (mem_set f (file_resize (mem_data f) n), True)),
      sys_fallocate = mem_fallocate,
      sys_exchange_range = (\<lambda>f off len dst. (mem_set f (file_exchange (mem_data f) off len dst), True)),
      sys_clone_range = (\<lambda>f off len dst. (mem_set f (file_write (mem_data f) dst (slice (mem_data f) off len)), True)),
      sys_dedupe_range = (\<lambda>f off len dst. (f, Deduped)),
      sys_copy_file_range = (\<lambda>f off dst len.
        (mem_set f (file_write (mem_data f) dst (slice (mem_data f) off ((len + 1) div 2))), Copied ((len + 1) div 2))),
      sys_fsync = (\<lambda>f. (f, True)),
      sys_mmap = (\<lambda>f off len. (f, True)),
      sys_load = (\<lambda>f off len. map (\<lambda>x. if x < length (mem_data f) then mem_data f ! x else mem_past f x) [off..<off + len]),
      sys_store = mem_store,
      sys_msync = (\<lambda>f off len. (f, True)),
      sys_munmap = (\<lambda>f off len. (f, True)),
      sys_fstat_size = (\<lambda>f. Some (length (mem_data f))),
      sys_lseek_end = (\<lambda>f. Some (length (mem_data f))),
      sys_close = (\<lambda>f. (f, True)),
      sys_drop_caches = (\<lambda>f. (f, True)),
      sys_open = (\<lambda>f. (f, True)),
      sys_mark_log = (\<lambda>f n. (f, True)),
      sys_dump_buffer = (\<lambda>f n b. (f, True)),
      sys_random = rnd\<rparr>"

lemma mem_becomes: "becomes mem_data mem_past f (mem_set g c) c" "becomes mem_data mem_past f f (mem_data f)"
  by (simp_all add: becomes_def mem_set_def)

lemma mem_cleared: "cleared mem_data mem_past (mem_set f c)"
  by (simp add: cleared_def mem_set_def)

lemma mem_data_set [simp]: "mem_data (mem_set f c) = c"
  by (simp add: mem_set_def)

lemma half_bounds: "0 < (n :: nat) \<Longrightarrow> 0 < (n + 1) div 2 \<and> (n + 1) div 2 \<le> n"
  by arith

theorem mem_sys_conforms: "posix_fs (mem_sys rnd) cfg mem_data mem_past"
  unfolding posix_fs_def
proof (intro conjI)
  show "reads_ok (mem_sys rnd) mem_data mem_past"
    by (auto simp: reads_ok_def mem_sys_def mem_becomes half_bounds intro!: exI [of _ "(_ + 1) div 2"])
  show "writes_ok (mem_sys rnd) (maxfilelen cfg) mem_data mem_past"
    by (auto simp: writes_ok_def mem_sys_def mem_becomes half_bounds intro!: exI [of _ "(_ + 1) div 2"])
  show "image_ok (mem_sys rnd) (maxfilelen cfg) mem_data mem_past"
    by (simp add: image_ok_def mem_sys_def mem_becomes)
  show "truncates_ok (mem_sys rnd) (maxfilelen cfg) mem_data mem_past"
    by (simp add: truncates_ok_def mem_sys_def mem_becomes mem_cleared)
  show "fallocates_ok (mem_sys rnd) (maxfilelen cfg) (block_size cfg) mem_data mem_past"
    by (simp add: fallocates_ok_def mem_sys_def mem_fallocate_def Let_def mem_becomes mem_cleared)
  show "ranges_ok (mem_sys rnd) (maxfilelen cfg) (block_size cfg) mem_data mem_past"
    by (auto simp: ranges_ok_def mem_sys_def mem_becomes half_bounds intro!: exI [of _ "(_ + 1) div 2"])
  show "maps_ok (mem_sys rnd) (page_size cfg) mem_data mem_past"
    by (simp add: maps_ok_def mem_sys_def mem_becomes mem_store_def)
  show "syncs_ok (mem_sys rnd) mem_data mem_past"
    by (simp add: syncs_ok_def mem_sys_def mem_becomes)
qed

end
