(* ===== verification/Fsx_Effects.thy ===== *)
theory Fsx_Effects
  imports Fsx_Spec
begin

text \<open>
  How the effects of the system calls on the contents of the test file agree with the updates
  \<open>src/ltp/fsx.c\<close> makes to its good buffer, what the promises of \<open>posix_fs\<close> give for one call, and the
  notion \<open>fsx_ok\<close> of a routine that returns in a good state.
\<close>

named_theorems buf_simps

lemma nth_put_at [buf_simps]:
  assumes "off + length b \<le> length g" and "i < length g"
  shows "put_at g off b ! i = (if off \<le> i \<and> i < off + length b then b ! (i - off) else g ! i)"
  using assms by (auto simp: put_at_def nth_append min_def)

lemma nth_slice [buf_simps]: "off + n \<le> length g \<Longrightarrow> i < n \<Longrightarrow> slice g off n ! i = g ! (off + i)"
  by (simp add: slice_def)

lemma length_memset0 [simp, buf_simps]: "off + n \<le> length g \<Longrightarrow> length (memset0 g off n) = length g"
  by (simp add: memset0_def)

lemma nth_memset0 [buf_simps]:
  assumes "off + n \<le> length g" and "i < length g"
  shows "memset0 g off n ! i = (if off \<le> i \<and> i < off + n then 0 else g ! i)"
  using assms by (auto simp: memset0_def nth_put_at)

lemma length_file_write [simp, buf_simps]: "length (file_write c off b) = max (length c) (off + length b)"
  by (auto simp: file_write_def)

lemma nth_file_write [buf_simps]:
  assumes "i < max (length c) (off + length b)"
  shows "file_write c off b ! i =
    (if off \<le> i \<and> i < off + length b then b ! (i - off) else if i < length c then c ! i else 0)"
  using assms by (auto simp: file_write_def nth_append min_def)

lemma length_file_resize [simp, buf_simps]: "length (file_resize c n) = n"
  by (simp add: file_resize_def)

lemma nth_file_resize [buf_simps]: "i < n \<Longrightarrow> file_resize c n ! i = (if i < length c then c ! i else 0)"
  by (auto simp: file_resize_def nth_append min_def)

lemma length_file_zero [simp, buf_simps]: "length (file_zero c off len) = length c"
  by (auto simp: file_zero_def)

lemma nth_file_zero [buf_simps]:
  "i < length c \<Longrightarrow> file_zero c off len ! i = (if off \<le> i \<and> i < off + len then 0 else c ! i)"
  by (auto simp: file_zero_def nth_append min_def)

lemma length_file_collapse [simp, buf_simps]: "off + len \<le> length c \<Longrightarrow> length (file_collapse c off len) = length c - len"
  by (simp add: file_collapse_def)

lemma nth_file_collapse [buf_simps]:
  "off + len \<le> length c \<Longrightarrow> i < length c - len \<Longrightarrow> file_collapse c off len ! i = (if i < off then c ! i else c ! (i + len))"
  by (auto simp: file_collapse_def nth_append ac_simps)

lemma length_file_insert [simp, buf_simps]: "off \<le> length c \<Longrightarrow> length (file_insert c off len) = length c + len"
  by (simp add: file_insert_def)

lemma nth_file_insert [buf_simps]:
  "off \<le> length c \<Longrightarrow> i < length c + len \<Longrightarrow>
    file_insert c off len ! i = (if i < off then c ! i else if i < off + len then 0 else c ! (i - len))"
  by (auto simp: file_insert_def nth_append)

lemma file_write_append: "file_write (file_write c off a) (off + length a) b = file_write c off (a @ b)"
  by (rule nth_equalityI) (auto simp: buf_simps nth_append)

lemma gendata_eq:
  "offset + n \<le> length g \<Longrightarrow> gendata cfg tc orig g offset n = put_at g offset (map (gen_byte cfg tc orig) [offset..<offset + n])"
proof (induction n arbitrary: g offset)
  case 0
  then show ?case by (simp add: put_at_def)
next
  case (Suc n)
  let ?b = "map (gen_byte cfg tc orig) [offset..<offset + Suc n]"
  have "gendata cfg tc orig g offset (Suc n) =
      put_at (put_at g offset [gen_byte cfg tc orig offset]) (offset + 1) (map (gen_byte cfg tc orig) [offset + 1..<offset + 1 + n])"
    using Suc by (simp add: buf_simps)
  also have "\<dots> = put_at g offset ?b"
    using Suc.prems by (intro nth_equalityI) (auto simp: buf_simps nth_Cons' simp del: upt_Suc)
  finally show ?case .
qed

section \<open>Good buffer against file\<close>

definition grow_gap :: "bytes \<Rightarrow> nat \<Rightarrow> nat \<Rightarrow> bytes" where
  "grow_gap g n off = (if n < off then memset0 g n (off - n) else g)"

lemma length_grow_gap [simp, buf_simps]: "off \<le> length g \<Longrightarrow> length (grow_gap g n off) = length g"
  by (simp add: grow_gap_def)

lemma nth_grow_gap [buf_simps]:
  "off \<le> length g \<Longrightarrow> i < length g \<Longrightarrow> grow_gap g n off ! i = (if n \<le> i \<and> i < off then 0 else g ! i)"
  by (auto simp: grow_gap_def nth_memset0)

lemma write_good:
  assumes "off + length b \<le> length g" and "n \<le> length g"
  shows "file_write (take n g) off b = take (max n (off + length b)) (grow_gap (put_at g off b) n off)"
  using assms by (intro nth_equalityI) (auto simp: buf_simps)

lemma copy_good:
  assumes "off + len \<le> n" and "dst + len \<le> length g" and "n \<le> length g"
  shows "file_write (take n g) dst (slice (take n g) off len) =
    take (max n (dst + len)) (put_at (grow_gap g n dst) dst (slice (grow_gap g n dst) off len))"
  using assms by (intro nth_equalityI) (auto simp: buf_simps)

lemma resize_good:
  assumes "m \<le> length g" and "n \<le> length g"
  shows "file_resize (take n g) m = take m (grow_gap g n m)"
  using assms by (intro nth_equalityI) (auto simp: buf_simps)

lemma punch_good:
  assumes "off \<le> n" and "n \<le> length g"
  shows "file_zero (take n g) off len = take n (memset0 g off (min len (n - off)))"
  using assms by (intro nth_equalityI) (auto simp: buf_simps)

lemma zero_good_keep:
  assumes "off + len \<le> length g" and "n \<le> length g"
  shows "file_zero (take n g) off len = take n (memset0 g off len)"
  using assms by (intro nth_equalityI) (auto simp: buf_simps)

lemma zero_good_grow:
  assumes "off + len \<le> length g" and "n \<le> length g"
  shows "file_zero (file_resize (take n g) (max n (off + len))) off len =
    take (max n (off + len)) (memset0 (grow_gap g n off) off len)"
  using assms by (intro nth_equalityI) (auto simp: buf_simps)

lemma collapse_good:
  assumes "off + len \<le> n" and "n \<le> length g"
  shows "file_collapse (take n g) off len = take (n - len) (put_at g off (slice g (off + len) (n - (off + len))))"
  using assms by (intro nth_equalityI) (auto simp: buf_simps ac_simps)

lemma insert_good:
  assumes "off \<le> n" and "n + len \<le> length g"
  shows "file_insert (take n g) off len =
    take (n + len) (memset0 (put_at g (off + len) (slice g off (n - off))) off len)"
  using assms by (intro nth_equalityI) (auto simp: buf_simps)

lemma exchange_good:
  assumes "off + len \<le> n" and "dst + len \<le> n" and "n \<le> length g"
  shows "file_exchange (take n g) off len dst =
    take n (put_at (put_at g off (slice g dst len)) dst (slice g off len))"
  using assms by (intro nth_equalityI) (auto simp: buf_simps file_exchange_def)

section \<open>Results\<close>

lemma andthen_simps [simp]:
  "andthen (ret x) k = k x"
  "andthen (report_failure st s) k = report_failure st s"
  "andthen (exit_with st s) k = exit_with st s"
  by (simp_all add: andthen_def ret_def report_failure_def exit_with_def)

lemma check_call_simps [simp]:
  "check_call s (f, True) st k = k (s\<lparr>fsys := f\<rparr>)"
  "check_call s (f, False) st k = report_failure st (s\<lparr>fsys := f\<rparr>)"
  by (simp_all add: check_call_def)

lemma wrap32_small [simp]: "n < 2 ^ 32 \<Longrightarrow> wrap32 n = n"
  by (simp add: wrap32_def)

lemma wrap64_small [simp]: "n < 2 ^ 64 \<Longrightarrow> wrap64 n = n"
  by (simp add: wrap64_def)

lemma sub64_small [simp]: "b \<le> a \<Longrightarrow> a < 2 ^ 64 \<Longrightarrow> sub64 a b = a - b"
  by (simp add: sub64_def wrap64_def mod_if)

lemma wrap32_diff: "b \<le> a \<Longrightarrow> a < 2 ^ 32 \<Longrightarrow> wrap32 (a + 2 ^ 32 - b) = a - b"
  by (simp add: wrap32_def mod_if)

lemmas wrap32_sub [simp] = wrap32_diff [simplified]

text \<open>Logging changes the log only.\<close>

lemma log_frame [simp]:
  "fsys (log4 op a b fl s) = fsys s" "good_buf (log4 op a b fl s) = good_buf s"
  "original_buf (log4 op a b fl s) = original_buf s" "file_size (log4 op a b fl s) = file_size s"
  "testcalls (log4 op a b fl s) = testcalls s" "replayopsf (log4 op a b fl s) = replayopsf s"
  "closeopen (log4 op a b fl s) = closeopen s" "badoff (log4 op a b fl s) = badoff s"
  "mark_nr (log4 op a b fl s) = mark_nr s" "random_ix (log4 op a b fl s) = random_ix s"
  by (simp_all add: log4_def log_advance_def Let_def)

lemma log5_frame [simp]:
  "fsys (log5 op a b c fl s) = fsys s" "good_buf (log5 op a b c fl s) = good_buf s"
  "original_buf (log5 op a b c fl s) = original_buf s" "file_size (log5 op a b c fl s) = file_size s"
  "testcalls (log5 op a b c fl s) = testcalls s" "replayopsf (log5 op a b c fl s) = replayopsf s"
  "closeopen (log5 op a b c fl s) = closeopen s" "badoff (log5 op a b c fl s) = badoff s"
  "mark_nr (log5 op a b c fl s) = mark_nr s" "random_ix (log5 op a b c fl s) = random_ix s"
  by (simp_all add: log5_def log_advance_def Let_def)

section \<open>Worlds\<close>

lemma becomes_refl [simp]: "becomes data past f f (data f)"
  by (simp add: becomes_def)

lemma becomes_data: "becomes data past f f' c \<Longrightarrow> data f' = c"
  by (simp add: becomes_def)

lemma becomes_trans:
  assumes "becomes data past f f1 c1" and "becomes data past f1 f2 c2" and "length c1 \<le> length c2"
  shows "becomes data past f f2 c2"
  using assms by (simp add: becomes_def) (metis le_trans)

definition zero_from :: "('f \<Rightarrow> nat \<Rightarrow> u8) \<Rightarrow> 'f \<Rightarrow> nat \<Rightarrow> bool" where
  "zero_from past f n \<longleftrightarrow> (\<forall>x \<ge> n. past f x = 0)"

lemma cleared_zero_from: "cleared data past f \<longleftrightarrow> zero_from past f (length (data f))"
  by (simp add: cleared_def zero_from_def)

lemma becomes_cleared:
  assumes "becomes data past f f' c" and "zero_from past f n" and "n \<le> length c"
  shows "cleared data past f'"
  using assms by (force simp: becomes_def cleared_def zero_from_def)

lemma becomes_zero_from:
  "becomes data past f f' c \<Longrightarrow> zero_from past f n \<Longrightarrow> length c \<le> n \<Longrightarrow> zero_from past f' n"
  by (simp add: becomes_def zero_from_def) (metis le_trans)

lemma and_page_mask: "(\<exists>k \<le> 30. page_size cfg = 2 ^ k) \<Longrightarrow> x AND page_mask cfg = x mod page_size cfg"
  unfolding page_mask_def by (metis mask_eq_exp_minus_1 take_bit_eq_mask take_bit_eq_mod)

lemma ROUND_UP_div:
  assumes "x mod 2 ^ k \<noteq> 0"
  shows "ROUND_UP x (2 ^ k) = x - x mod 2 ^ k + 2 ^ k"
proof -
  define m :: nat where "m = 2 ^ k"
  have m: "0 < m" by (simp add: m_def)
  have "0 < x" using assms by (cases x) simp_all
  then have "x + m - 1 = (x div m + 1) * m + (x mod m - 1)"
    using assms div_mult_mod_eq [of x m] by (simp add: m_def algebra_simps)
  moreover have "(x mod m - 1) div m = 0" using mod_less_divisor [OF m, of x] by simp
  ultimately have "(x + m - 1) div m = x div m + 1"
    using m by (simp only: div_mult_self3)
  then show ?thesis by (simp add: ROUND_UP_pow2 m_def minus_mod_eq_div_mult)
qed

section \<open>Reading and writing\<close>

lemma slice_slice: "slice g off n @ slice g (off + n) m = slice g off (n + m)"
  by (simp add: slice_def take_add add.commute [of off])

lemma reads_okD:
  assumes "reads_ok sys data past" and "0 < len" and "off + len \<le> length (data f)"
  shows "\<exists>f'. sys_preadv2 sys f len off fl = (f', Some (slice (data f) off len)) \<and> becomes data past f f' (data f)"
    and "\<exists>f'. sys_aio_pread sys f len off = (f', Completed (slice (data f) off len)) \<and> becomes data past f f' (data f)"
    and "\<exists>f' n. 0 < n \<and> n \<le> len \<and> sys_uring_readv sys f len off fl = (f', Completed (slice (data f) off n)) \<and>
        becomes data past f f' (data f)"
  using assms(1) [unfolded reads_ok_def, rule_format, OF assms(2,3)] by auto

lemma writes_okD:
  assumes "writes_ok sys limit data past" and "b \<noteq> []" and "off + length b \<le> limit"
  shows "\<exists>f'. sys_pwritev2 sys f b off fl = (f', Some (length b)) \<and> becomes data past f f' (file_write (data f) off b)"
    and "\<exists>f'. sys_aio_pwrite sys f b off = (f', Completed (length b)) \<and> becomes data past f f' (file_write (data f) off b)"
    and "\<exists>f' n. 0 < n \<and> n \<le> length b \<and> sys_uring_writev sys f b off fl = (f', Completed n) \<and>
        becomes data past f f' (file_write (data f) off (take n b))"
  using assms(1) [unfolded writes_ok_def, rule_format, OF assms(2,3)] by auto

lemma uring_read_stream:
  assumes "reads_ok sys data past" and "o' + l \<le> length (data f)" and "length (data f) < 2 ^ 32"
  shows "\<exists>f'. uring_read_loop sys f fl l o' p = Some (f', Some (p @ slice (data f) o' l)) \<and> becomes data past f f' (data f)"
  using assms(2,3)
proof (induction l arbitrary: f o' p rule: less_induct)
  case (less l)
  show ?case
  proof (cases "l = 0")
    case True
    then show ?thesis by (subst uring_read_loop.simps) (simp add: slice_def)
  next
    case False
    obtain f' n where n: "0 < n" "n \<le> l" "sys_uring_readv sys f l o' fl = (f', Completed (slice (data f) o' n))"
      "becomes data past f f' (data f)"
      using reads_okD(3) [OF assms(1), of l o' f fl] False less.prems(1) by auto
    then have d: "data f' = data f" by (simp add: becomes_def)
    have len: "length (slice (data f) o' n) = n" using n less.prems by simp
    then have ne: "slice (data f) o' n \<noteq> []" using n(1) by auto
    have step: "uring_read_loop sys f fl l o' p = uring_read_loop sys f' fl (l - n) (o' + n) (p @ slice (data f) o' n)"
    proof -
      have "n \<le> l" "l < 2 ^ 32" "o' + n < 2 ^ 32" using n less.prems by auto
      then have "wrap32 (l + 2 ^ 32 - n) = l - n" "wrap32 (o' + n) = o' + n" by (simp_all add: wrap32_diff)
      then show ?thesis
        using False ne by (subst uring_read_loop.simps) (simp only: n(3) if_False if_True prod.case async_io.case len not_False_eq_True)
    qed
    obtain f2 where f2: "uring_read_loop sys f' fl (l - n) (o' + n) (p @ slice (data f) o' n) =
        Some (f2, Some ((p @ slice (data f) o' n) @ slice (data f') (o' + n) (l - n)))" "becomes data past f' f2 (data f')"
    proof -
      have "l - n < l" "o' + n + (l - n) \<le> length (data f')" "length (data f') < 2 ^ 32" using n less.prems d by auto
      from less.IH [OF this, where p = "p @ slice (data f) o' n"] show ?thesis using that by blast
    qed
    have "slice (data f) o' n @ slice (data f) (o' + n) (l - n) = slice (data f) o' l"
      using n(2) by (simp add: slice_slice)
    then show ?thesis using step f2 d n(4) becomes_trans [OF n(4)] by (intro exI [of _ f2]) simp
  qed
qed

lemma fsxread_ok:
  assumes "reads_ok sys data past" and "0 < len" and "off + len \<le> length (data f)" and "length (data f) < 2 ^ 32"
  shows "\<exists>f'. fsxread sys cfg f len off fl = Some (f', Some (slice (data f) off len)) \<and> becomes data past f f' (data f)"
proof -
  have "\<exists>f'. sys_preadv2 sys f len off fl = (f', Some (slice (data f) off len)) \<and> becomes data past f f' (data f)"
    "\<exists>f'. sys_aio_pread sys f len off = (f', Completed (slice (data f) off len)) \<and> becomes data past f f' (data f)"
    using reads_okD [OF assms(1-3)] by auto
  then show ?thesis
    using uring_read_stream [OF assms(1,3,4), of fl "[]"] by (auto simp: fsxread_def aio_read_def)
qed

lemma uring_write_stream:
  assumes "writes_ok sys limit data past" and "o' + (length buf - res) \<le> limit" and "limit < 2 ^ 32"
    and "res \<le> length buf" and "res < length buf \<or> o' \<le> length (data f)"
  shows "\<exists>f'. uring_write_loop sys f fl buf (length buf - res) o' res = Some (f', Some (length buf)) \<and>
    becomes data past f f' (file_write (data f) o' (drop res buf))"
  using assms(2,4,5)
proof (induction "length buf - res" arbitrary: f o' res rule: less_induct)
  case less
  show ?case
  proof (cases "res = length buf")
    case True
    then have "file_write (data f) o' (drop res buf) = data f"
      using less.prems by (intro nth_equalityI) (auto simp: buf_simps)
    then show ?thesis using True by (subst uring_write_loop.simps) simp
  next
    case False
    define b where "b = slice buf res (length buf - res)"
    have b: "b = drop res buf" "b \<noteq> []" "length b = length buf - res" using False less.prems by (auto simp: b_def slice_def)
    obtain f' n where n: "0 < n" "n \<le> length b" "sys_uring_writev sys f b o' fl = (f', Completed n)"
      "becomes data past f f' (file_write (data f) o' (take n b))"
      using writes_okD(3) [OF assms(1) b(2), of o' f fl] less.prems(1) b(3) by auto
    then have d: "data f' = file_write (data f) o' (take n b)" by (simp add: becomes_def)
    have step: "uring_write_loop sys f fl buf (length buf - res) o' res =
        uring_write_loop sys f' fl buf (length buf - (res + n)) (o' + n) (res + n)"
    proof -
      define L where "L = length buf - res"
      have L: "L \<noteq> 0" "n \<le> L" "L < 2 ^ 32" "o' + n < 2 ^ 32" "slice buf res L = b" "length buf - (res + n) = L - n"
        using n False less.prems b assms(3) by (auto simp: L_def b_def)
      then show ?thesis
        using n(1,3) by (subst uring_write_loop.simps) (simp add: L_def [symmetric])
    qed
    obtain f2 where f2: "uring_write_loop sys f' fl buf (length buf - (res + n)) (o' + n) (res + n) = Some (f2, Some (length buf))"
      "becomes data past f' f2 (file_write (data f') (o' + n) (drop (res + n) buf))"
    proof -
      have "length buf - (res + n) < length buf - res" "o' + n + (length buf - (res + n)) \<le> limit" "res + n \<le> length buf"
        "res + n < length buf \<or> o' + n \<le> length (data f')"
        using n b less.prems d False by (auto simp: max_def)
      from less.hyps [OF this] show ?thesis using that by blast
    qed
    have "file_write (data f') (o' + n) (drop (res + n) buf) = file_write (data f) o' (drop res buf)"
    proof -
      have l: "length (take n b) = n" "drop (res + n) buf = drop n b" using n(2) b(1) by (simp_all add: add.commute)
      have "file_write (data f') (o' + n) (drop n b) = file_write (data f) o' b"
        using file_write_append [of "data f" o' "take n b" "drop n b"] by (simp only: d l(1) append_take_drop_id)
      then show ?thesis by (simp only: l(2) b(1))
    qed
    then show ?thesis
      using step f2 becomes_trans [OF n(4) f2(2)] n b(1) d by (intro exI [of _ f2]) auto
  qed
qed

lemma fsxwrite_ok:
  assumes "writes_ok sys limit data past" and "b \<noteq> []" and "off + length b \<le> limit" and "limit < 2 ^ 32"
  shows "\<exists>f'. fsxwrite sys cfg f b off fl = Some (f', Some (length b)) \<and> becomes data past f f' (file_write (data f) off b)"
proof -
  have "\<exists>f'. sys_pwritev2 sys f b off fl = (f', Some (length b)) \<and> becomes data past f f' (file_write (data f) off b)"
    "\<exists>f'. sys_aio_pwrite sys f b off = (f', Completed (length b)) \<and> becomes data past f f' (file_write (data f) off b)"
    using writes_okD [OF assms(1-3)] by auto
  then show ?thesis
    using uring_write_stream [OF assms(1), of off b 0 f fl] assms by (auto simp: fsxwrite_def aio_write_def)
qed

section \<open>Using the promises\<close>

lemma image_okD:
  assumes "image_ok sys limit data past"
  shows "\<exists>f'. sys_lseek_set sys f = (f', True) \<and> becomes data past f f' (data f) \<and>
    (\<forall>b. length b \<le> limit \<longrightarrow>
       (\<exists>f''. sys_write sys f' b = (f'', Some (length b)) \<and> becomes data past f' f'' (file_write (data f') 0 b)))"
  using assms unfolding image_ok_def by (rule spec)

lemma truncates_okD:
  assumes "truncates_ok sys limit data past" and "n \<le> limit"
  shows "\<exists>f'. sys_ftruncate sys f n = (f', True) \<and> becomes data past f f' (file_resize (data f) n) \<and>
        (n < length (data f) \<longrightarrow> cleared data past f')"
  using assms unfolding truncates_ok_def by simp

lemma fallocates_okD:
  assumes "fallocates_ok sys limit bs data past" and "0 < len" and "off + len \<le> limit"
  shows "\<exists>f'. sys_fallocate sys f (FALLOC_DEFAULT keep unshare) off len = (f', True) \<and>
        becomes data past f f' (if keep then data f else file_resize (data f) (max (length (data f)) (off + len)))"
    and "\<exists>f'. sys_fallocate sys f FALLOC_FL_PUNCH_HOLE off len = (f', True) \<and>
        becomes data past f f' (file_zero (data f) off len)"
    and "\<exists>f'. sys_fallocate sys f (FALLOC_FL_ZERO_RANGE keep) off len = (f', True) \<and>
        becomes data past f f'
          (file_zero (if keep then data f else file_resize (data f) (max (length (data f)) (off + len))) off len)"
    and "off mod bs = 0 \<Longrightarrow> len mod bs = 0 \<Longrightarrow> off + len < length (data f) \<Longrightarrow>
        \<exists>f'. sys_fallocate sys f FALLOC_FL_COLLAPSE_RANGE off len = (f', True) \<and>
           data f' = file_collapse (data f) off len \<and> cleared data past f'"
    and "off mod bs = 0 \<Longrightarrow> len mod bs = 0 \<Longrightarrow> off < length (data f) \<Longrightarrow> length (data f) + len \<le> limit \<Longrightarrow>
        \<exists>f'. sys_fallocate sys f FALLOC_FL_INSERT_RANGE off len = (f', True) \<and>
           data f' = file_insert (data f) off len \<and> cleared data past f'"
  using assms(1) [unfolded fallocates_ok_def, rule_format (no_asm), OF assms(2,3)] by auto

lemma ranges_okD:
  assumes "ranges_ok sys limit bs data past" and "0 < len" and "off + len \<le> length (data f)" and "dst + len \<le> limit"
    and "disjoint_ranges off dst len"
  shows "\<exists>f' n. 0 < n \<and> n \<le> len \<and> sys_copy_file_range sys f off dst len = (f', Copied n) \<and>
        becomes data past f f' (file_write (data f) dst (slice (data f) off n))"
    and "off mod bs = 0 \<Longrightarrow> len mod bs = 0 \<Longrightarrow> dst mod bs = 0 \<Longrightarrow>
        \<exists>f'. sys_clone_range sys f off len dst = (f', True) \<and>
           becomes data past f f' (file_write (data f) dst (slice (data f) off len))"
    and "off mod bs = 0 \<Longrightarrow> len mod bs = 0 \<Longrightarrow> dst mod bs = 0 \<Longrightarrow> dst + len \<le> length (data f) \<Longrightarrow>
        \<exists>f'. sys_dedupe_range sys f off len dst = (f', Deduped) \<and> becomes data past f f' (data f)"
    and "off mod bs = 0 \<Longrightarrow> len mod bs = 0 \<Longrightarrow> dst mod bs = 0 \<Longrightarrow> dst + len \<le> length (data f) \<Longrightarrow>
        \<exists>f'. sys_exchange_range sys f off len dst = (f', True) \<and> becomes data past f f' (file_exchange (data f) off len dst)"
  using assms(1) [unfolded ranges_ok_def, rule_format (no_asm), OF assms(2-5)] by auto

lemma maps_okD:
  assumes "maps_ok sys ps data past"
  shows "off < length (data f) \<Longrightarrow> 0 < len \<Longrightarrow> off mod ps = 0 \<Longrightarrow>
      \<exists>f'. sys_mmap sys f off len = (f', True) \<and> becomes data past f f' (data f)"
    and "off < length (data f) \<Longrightarrow> 0 < len \<Longrightarrow> off mod ps = 0 \<Longrightarrow>
      \<exists>f'. sys_msync sys f off len = (f', True) \<and> becomes data past f f' (data f)"
    and "off < length (data f) \<Longrightarrow> 0 < len \<Longrightarrow> off mod ps = 0 \<Longrightarrow>
      \<exists>f'. sys_munmap sys f off len = (f', True) \<and> becomes data past f f' (data f)"
    and "off + len \<le> ROUND_UP (length (data f)) ps \<Longrightarrow>
      sys_load sys f off len = map (\<lambda>x. if x < length (data f) then data f ! x else past f x) [off..<off + len]"
    and "off + length b \<le> ROUND_UP (length (data f)) ps \<Longrightarrow>
      data (sys_store sys f off b) =
        map (\<lambda>x. if off \<le> x \<and> x < off + length b then b ! (x - off) else data f ! x) [0..<length (data f)]"
    and "off + length b \<le> ROUND_UP (length (data f)) ps \<Longrightarrow>
      past (sys_store sys f off b) = (\<lambda>x. if off \<le> x \<and> x < off + length b then b ! (x - off) else past f x)"
  using assms unfolding maps_ok_def by simp_all

lemma syncs_okD:
  assumes "syncs_ok sys data past"
  shows "\<exists>f'. sys_fsync sys f = (f', True) \<and> becomes data past f f' (data f)"
    and "\<exists>f'. sys_close sys f = (f', True) \<and> becomes data past f f' (data f)"
    and "\<exists>f'. sys_drop_caches sys f = (f', True) \<and> becomes data past f f' (data f)"
    and "\<exists>f'. sys_open sys f = (f', True) \<and> becomes data past f f' (data f)"
    and "\<exists>f'. sys_mark_log sys f n = (f', True) \<and> becomes data past f f' (data f)"
    and "\<exists>f'. sys_dump_buffer sys f n b = (f', True) \<and> becomes data past f f' (data f)"
    and "sys_fstat_size sys f = Some (length (data f))" and "sys_lseek_end sys f = Some (length (data f))"
  using assms unfolding syncs_ok_def by simp_all

lemma posix_fsD:
  assumes "posix_fs sys cfg data past"
  shows "reads_ok sys data past" "writes_ok sys (maxfilelen cfg) data past" "image_ok sys (maxfilelen cfg) data past"
    "truncates_ok sys (maxfilelen cfg) data past" "fallocates_ok sys (maxfilelen cfg) (block_size cfg) data past"
    "ranges_ok sys (maxfilelen cfg) (block_size cfg) data past" "maps_ok sys (page_size cfg) data past" "syncs_ok sys data past"
  using assms unfolding posix_fs_def by simp_all

lemma cfg_okD:
  assumes "cfg_ok cfg"
  shows "0 < readbdy cfg" "0 < writebdy cfg" "0 < truncbdy cfg" "0 < block_size cfg" "\<exists>k \<le> 30. page_size cfg = 2 ^ k"
    "0 < maxfilelen cfg" "maxfilelen cfg < 2 ^ 31" "maxoplen cfg < 2 ^ 31" "\<not> style cfg"
    "do_atomic_writes cfg \<Longrightarrow> 0 < awu_min cfg \<and> awu_min cfg \<le> awu_max cfg \<and> awu_max cfg < 2 ^ 31"
  using assms unfolding cfg_ok_def by simp_all

section \<open>Good states\<close>

definition live :: "fsx_cfg \<Rightarrow> 'f fsx \<Rightarrow> bool" where
  "live cfg s \<longleftrightarrow> simulatedopcount cfg < testcalls s"

definition fsx_ok :: "fsx_cfg \<Rightarrow> ('f \<Rightarrow> bytes) \<Rightarrow> ('f \<Rightarrow> nat \<Rightarrow> u8) \<Rightarrow> 'f fsx \<Rightarrow> ('f, 'f fsx) fsx_result \<Rightarrow> bool" where
  "fsx_ok cfg data past s r \<longleftrightarrow>
     (\<exists>s'. r = ret s' \<and> good_state cfg data past s' \<and> testcalls s' = testcalls s \<and> replayopsf s' = replayopsf s)"

lemma fsx_ok_ret:
  "good_state cfg data past s' \<Longrightarrow> testcalls s' = testcalls s \<Longrightarrow> replayopsf s' = replayopsf s \<Longrightarrow>
    fsx_ok cfg data past s (ret s')"
  unfolding fsx_ok_def by blast

lemma fsx_ok_andthen:
  assumes "fsx_ok cfg data past s r"
    and "\<And>s'. good_state cfg data past s' \<Longrightarrow> testcalls s' = testcalls s \<Longrightarrow> replayopsf s' = replayopsf s \<Longrightarrow>
      fsx_ok cfg data past s' (k s')"
  shows "fsx_ok cfg data past s (andthen r k)"
  using assms unfolding fsx_ok_def by fastforce

lemma good_stateI:
  assumes "length (good_buf s) = maxfilelen cfg" "length (original_buf s) = maxfilelen cfg" "file_size s \<le> maxfilelen cfg"
    "lite cfg \<Longrightarrow> file_size s = maxfilelen cfg \<and> length (data (fsys s)) = maxfilelen cfg"
    "cleared data past (fsys s)" "live cfg s \<Longrightarrow> data (fsys s) = take (file_size s) (good_buf s)"
  shows "good_state cfg data past s"
  using assms unfolding good_state_def live_def by simp

lemma good_stateD:
  assumes "good_state cfg data past s"
  shows "length (good_buf s) = maxfilelen cfg" "length (original_buf s) = maxfilelen cfg" "file_size s \<le> maxfilelen cfg"
    "lite cfg \<Longrightarrow> file_size s = maxfilelen cfg" "lite cfg \<Longrightarrow> length (data (fsys s)) = maxfilelen cfg"
    "cleared data past (fsys s)" "live cfg s \<Longrightarrow> data (fsys s) = take (file_size s) (good_buf s)"
    "live cfg s \<Longrightarrow> length (data (fsys s)) = file_size s"
  using assms unfolding good_state_def live_def by auto

lemma good_state_log [simp]:
  "good_state cfg data past (log4 op a b fl s) = good_state cfg data past s"
  "good_state cfg data past (log5 op a b c fl s) = good_state cfg data past s"
  "live cfg (log4 op a b fl s) = live cfg s" "live cfg (log5 op a b c fl s) = live cfg s"
  by (simp_all add: good_state_def live_def)

lemma good_state_unchanged:
  assumes "good_state cfg data past s" and "becomes data past (fsys s) f' (data (fsys s))"
  shows "good_state cfg data past (s\<lparr>fsys := f'\<rparr>)"
proof -
  have "cleared data past f'"
    using assms good_stateD(6) [OF assms(1)] by (intro becomes_cleared [OF assms(2)]) (auto simp: cleared_zero_from)
  then show ?thesis using assms by (simp add: good_state_def becomes_def)
qed

lemma live_simps [simp]:
  "live cfg (s\<lparr>fsys := f\<rparr>) = live cfg s" "live cfg (s\<lparr>good_buf := g\<rparr>) = live cfg s" "live cfg (s\<lparr>file_size := n\<rparr>) = live cfg s"
  "live cfg (s\<lparr>biggest := n\<rparr>) = live cfg s" "live cfg (s\<lparr>mark_nr := n\<rparr>) = live cfg s" "live cfg (s\<lparr>badoff := bo\<rparr>) = live cfg s"
  by (simp_all add: live_def)

lemma simulated_iff: "testcalls s \<le> simulatedopcount cfg \<longleftrightarrow> \<not> live cfg s"
  by (auto simp: live_def)

lemma good_state_biggest [simp]: "good_state cfg data past (s\<lparr>biggest := n\<rparr>) = good_state cfg data past s"
  by (simp add: good_state_def)

section \<open>Pollution and size\<close>

lemma pollute_effect:
  assumes "maps_ok sys (page_size cfg) data past" and "\<exists>k \<le> 30. page_size cfg = 2 ^ k"
    and "cleared data past (fsys s)" and "live cfg s \<Longrightarrow> length (data (fsys s)) = file_size s"
    and "file_size s \<le> maxoff" and "maxoff < 2 ^ 32"
  shows "\<exists>f'. pollute_eofpage sys cfg maxoff s = s\<lparr>fsys := f'\<rparr> \<and> data f' = data (fsys s) \<and>
    (if live cfg s then zero_from past f' maxoff else f' = fsys s)"
proof -
  define fs where "fs = file_size s"
  define pg where "pg = fs mod page_size cfg"
  have w: "wrap32 fs = fs" "wrap32 (maxoff + 2 ^ 32 - fs) = maxoff - fs" using assms(5,6) by (simp_all add: fs_def wrap32_diff)
  have pgm: "fs AND page_mask cfg = pg" using and_page_mask [OF assms(2)] by (simp add: pg_def)
  have z: "zero_from past (fsys s) maxoff" if "live cfg s"
    using assms(3,5) assms(4) [OF that] by (auto simp: cleared_def zero_from_def)
  show ?thesis
  proof (cases "pollute_eof cfg \<and> live cfg s \<and> pg \<noteq> 0")
    case False
    then show ?thesis
      using z by (auto simp: pollute_eofpage_def Let_def simulated_iff fs_def [symmetric] w pgm intro!: exI [of _ "fsys s"])
  next
    case True
    then have l: "live cfg s" and len: "length (data (fsys s)) = fs" using assms(4) by (simp_all add: fs_def)
    define ws where "ws = min (page_size cfg - pg) (maxoff - fs)"
    define b where "b = map (gen_byte cfg (testcalls s) (original_buf s)) [pg..<pg + ws]"
    have lb: "length b = ws" by (simp add: b_def)
    have "pg \<le> fs" "0 < pg" using True by (simp_all add: pg_def)
    then have "fs - pg < fs" by arith
    moreover have "(fs - pg) mod page_size cfg = 0" by (simp add: pg_def minus_mod_eq_mult_div)
    ultimately have base: "fs - pg < fs" "(fs - pg) mod page_size cfg = 0" by blast+
    have pos: "0 < page_size cfg" using assms(2) by auto
    obtain f1 where f1: "sys_mmap sys (fsys s) (fs - pg) (page_size cfg) = (f1, True)" "becomes data past (fsys s) f1 (data (fsys s))"
      using maps_okD(1) [OF assms(1), of "fs - pg" "fsys s" "page_size cfg"] base len pos by auto
    have d1: "data f1 = data (fsys s)" "zero_from past f1 fs"
      using f1(2) becomes_cleared [OF f1(2), of fs] assms(3) len by (auto simp: becomes_def cleared_zero_from)
    have up: "ROUND_UP fs (page_size cfg) = fs - pg + page_size cfg"
      using assms(2) True ROUND_UP_div pg_def by auto
    have fit: "fs + length b \<le> ROUND_UP (length (data f1)) (page_size cfg)"
      unfolding d1(1) len up lb ws_def using \<open>pg \<le> fs\<close> mod_less_divisor [OF pos, of fs, folded pg_def] by linarith
    define f2 where "f2 = sys_store sys f1 fs b"
    have "data f2 = data f1"
      unfolding f2_def maps_okD(5) [OF assms(1) fit] using d1(1) len by (intro nth_equalityI) auto
    then have d2: "data f2 = data (fsys s)" using d1(1) by simp
    have z2: "zero_from past f2 maxoff"
      unfolding f2_def zero_from_def maps_okD(6) [OF assms(1) fit] using d1(2) lb assms(5) by (auto simp: zero_from_def ws_def fs_def)
    obtain f3 where f3: "sys_munmap sys f2 (fs - pg) (page_size cfg) = (f3, True)" "becomes data past f2 f3 (data f2)"
      using maps_okD(3) [OF assms(1), of "fs - pg" f2 "page_size cfg"] base len pos d2 by auto
    have "pollute_eofpage sys cfg maxoff s = s\<lparr>fsys := f3\<rparr>"
      using True f1(1) f3(1)
      by (simp add: pollute_eofpage_def Let_def simulated_iff fs_def [symmetric] w w(2) [simplified] pgm ws_def [symmetric] b_def [symmetric] f2_def [symmetric])
    moreover have "data f3 = data (fsys s)" using f3(2) d2 by (simp add: becomes_def)
    moreover have "zero_from past f3 maxoff"
      using becomes_zero_from [OF f3(2) z2] len d2 assms(5) by (simp add: fs_def)
    ultimately show ?thesis using l by auto
  qed
qed

lemma update_size_effect:
  assumes "maps_ok sys (page_size cfg) data past" and "\<exists>k \<le> 30. page_size cfg = 2 ^ k"
    and "cleared data past (fsys s)" and "live cfg s \<Longrightarrow> length (data (fsys s)) = file_size s"
    and "file_size s \<le> offset + len" and "offset + len < 2 ^ 32"
  shows "\<exists>f'. update_file_size sys cfg offset len s =
      s\<lparr>fsys := f', good_buf := grow_gap (good_buf s) (file_size s) offset, file_size := offset + len\<rparr> \<and>
    data f' = data (fsys s) \<and> (if live cfg s then zero_from past f' (offset + len) else f' = fsys s)"
proof (cases "offset > file_size s")
  case True
  then show ?thesis
    using pollute_effect [OF assms] assms(6) by (auto simp: update_file_size_def Let_def grow_gap_def)
next
  case False
  have "zero_from past (fsys s) (offset + len)" if "live cfg s"
    using assms(3,5) assms(4) [OF that] by (auto simp: cleared_def zero_from_def)
  then show ?thesis using False assms(6) by (auto simp: update_file_size_def Let_def grow_gap_def intro!: exI [of _ "fsys s"])
qed

end
