(* ===== verification/Fsx_Reads_Writes.thy ===== *)
theory Fsx_Reads_Writes
  imports Fsx_Effects
begin

text \<open>
  On a conforming file system the reading and writing operations of \<open>src/ltp/fsx.c\<close> return, and leave
  the good buffer equal to the file.
\<close>

section \<open>Reading operations\<close>

lemma check_buffers_ok:
  "slice (good_buf s) offset len = buf \<Longrightarrow> length buf = len \<Longrightarrow> check_buffers buf offset len s = ret s"
  by (simp add: check_buffers_def)

lemma slice_take: "off + len \<le> n \<Longrightarrow> slice (take n g) off len = slice g off len"
  by (simp add: slice_def take_drop min_def)

lemma doread_ok:
  assumes P: "posix_fs sys cfg data past" and C: "cfg_ok cfg" and G: "good_state cfg data past s"
    and bnd: "offset + len \<le> maxfilelen cfg"
  shows "fsx_ok cfg data past s (doread sys cfg offset len fl s)"
proof -
  define off where "off = offset - offset mod readbdy cfg"
  define n where "n = (if o_direct cfg then len - len mod readbdy cfg else len)"
  have b: "off + n \<le> maxfilelen cfg" using bnd by (auto simp: off_def n_def intro: order_trans [rotated])
  then have w: "wrap32 (n + off) = off + n" using cfg_okD(7) [OF C] by (simp add: add.commute)
  show ?thesis
  proof (cases "n = 0 \<or> off + n > file_size s \<or> \<not> live cfg s")
    case True
    then show ?thesis
      using G by (auto simp: doread_def Let_def off_def [symmetric] n_def [symmetric] w simulated_iff intro: fsx_ok_ret)
  next
    case False
    let ?s = "log4 OP_READ (c_int off) (c_int n) FL_NONE s"
    have d: "data (fsys s) = take (file_size s) (good_buf s)" "length (data (fsys s)) = file_size s" "file_size s < 2 ^ 32"
      using good_stateD [OF G] False cfg_okD(7) [OF C] by auto
    obtain f' where f': "fsxread sys cfg (fsys s) n off fl = Some (f', Some (slice (data (fsys s)) off n))"
      "becomes data past (fsys s) f' (data (fsys s))"
    proof -
      have "0 < n" "off + n \<le> length (data (fsys s))" "length (data (fsys s)) < 2 ^ 32" using False d(2,3) by auto
      from fsxread_ok [OF posix_fsD(1) [OF P] this] show ?thesis using that by blast
    qed
    have sl: "slice (data (fsys s)) off n = slice (good_buf s) off n" "length (slice (good_buf s) off n) = n"
      using d(1) False good_stateD(1,3) [OF G] by (auto simp: slice_take)
    have "doread sys cfg offset len fl s = ret (?s\<lparr>fsys := f'\<rparr>)"
      using False f'(1) sl check_buffers_ok [of "?s\<lparr>fsys := f'\<rparr>" off n]
      by (simp add: doread_def Let_def off_def [symmetric] n_def [symmetric] w simulated_iff)
    moreover have "good_state cfg data past (?s\<lparr>fsys := f'\<rparr>)"
      using good_state_unchanged [of cfg data past ?s f'] G f'(2) by simp
    ultimately show ?thesis by (auto intro: fsx_ok_ret)
  qed
qed

lemma page_offset:
  assumes "\<exists>k \<le> 30. page_size cfg = 2 ^ k"
  shows "(x AND page_mask cfg) = x mod page_size cfg" and "ROUND_DOWN x (page_size cfg) = x - x mod page_size cfg"
    and "0 < page_size cfg" and "page_size cfg \<le> 2 ^ 30"
proof -
  obtain k where k: "k \<le> 30" "page_size cfg = 2 ^ k" using assms by auto
  then show "page_size cfg \<le> 2 ^ 30" using power_increasing [of k 30 "2 :: nat"] by simp
qed (use assms and_page_mask [OF assms] in \<open>auto simp: ROUND_DOWN_pow2 minus_mod_eq_div_mult\<close>)

lemma same_last_page:
  assumes "x - x mod ps < y" and "y \<le> (x :: nat)" and "0 < ps"
  shows "y - y mod ps = x - x mod ps" and "x mod ps \<noteq> 0"
proof -
  have "x div ps \<le> y div ps" using assms by (simp add: minus_mod_eq_div_mult less_eq_div_iff_mult_less_eq)
  moreover have "y div ps \<le> x div ps" using assms(2) by (rule div_le_mono)
  ultimately have "x div ps = y div ps" by simp
  then show "y - y mod ps = x - x mod ps" by (simp add: minus_mod_eq_div_mult)
  show "x mod ps \<noteq> 0" using assms(1,2) by auto
qed

lemma check_eofpage_ok:
  assumes M: "maps_ok sys (page_size cfg) data past" and pg: "\<exists>k \<le> 30. page_size cfg = 2 ^ k"
    and clr: "cleared data past (fsys s)" and len: "length (data (fsys s)) = file_size s" and small: "file_size s < 2 ^ 31"
    and bnd: "offset + n \<le> file_size s"
  shows "check_eofpage sys cfg offset (offset - offset mod page_size cfg) n s = ret s"
proof (cases "offset + n \<le> file_size s - file_size s mod page_size cfg")
  case True
  then show ?thesis using bnd small by (simp add: check_eofpage_def page_offset [OF pg])
next
  case False
  let ?ps = "page_size cfg" and ?fs = "file_size s"
  have w: "wrap32 (offset + n) = offset + n" using bnd small by simp
  have page: "offset + n - (offset + n) mod ?ps = ?fs - ?fs mod ?ps" "?fs mod ?ps \<noteq> 0"
    using same_last_page [of ?fs ?ps "offset + n"] False bnd page_offset(3) [OF pg] by auto
  have up: "ROUND_UP ?fs ?ps = ?fs - ?fs mod ?ps + ?ps" using pg page(2) ROUND_UP_div by auto
  have "?fs + (?ps - ?fs mod ?ps) \<le> ROUND_UP (length (data (fsys s))) ?ps"
    unfolding len up using mod_less_divisor [OF page_offset(3) [OF pg], of ?fs] mod_less_eq_dividend [of ?fs ?ps] by linarith
  from maps_okD(4) [OF M this] have ld: "\<not> list_ex (\<lambda>b. b \<noteq> 0) (sys_load sys (fsys s) ?fs (?ps - ?fs mod ?ps))"
    using clr len by (auto simp: list_ex_iff cleared_def)
  have "offset - offset mod ?ps + offset mod ?ps + n = offset + n" by simp
  then show ?thesis
    using False w page(1) ld
    by (simp add: check_eofpage_def page_offset [OF pg] Let_def)
qed

lemma good_check_eofpage:
  assumes "posix_fs sys cfg data past" and "cfg_ok cfg" and "good_state cfg data past s" and "live cfg s"
    and "offset + n \<le> file_size s" and "base = offset - offset mod page_size cfg"
  shows "check_eofpage sys cfg offset base n s = ret s"
  unfolding assms(6)
  by (rule check_eofpage_ok [OF posix_fsD(7) [OF assms(1)] cfg_okD(5) [OF assms(2)]])
    (use assms(5) good_stateD [OF assms(3)] assms(4) cfg_okD(7) [OF assms(2)] in auto)

lemma map_call_ok:
  assumes P: "posix_fs sys cfg data past" and C: "cfg_ok cfg" and G: "good_state cfg data past s" and L: "live cfg s"
    and off: "offset < file_size s" and n: "0 < n"
  defines "base \<equiv> offset - offset mod page_size cfg"
  shows "\<exists>f'. sys_mmap sys (fsys s) base n = (f', True) \<and> good_state cfg data past (s\<lparr>fsys := f'\<rparr>)"
    and "\<exists>f'. sys_msync sys (fsys s) base n = (f', True) \<and> good_state cfg data past (s\<lparr>fsys := f'\<rparr>)"
    and "\<exists>f'. sys_munmap sys (fsys s) base n = (f', True) \<and> good_state cfg data past (s\<lparr>fsys := f'\<rparr>)"
proof -
  have b: "base < length (data (fsys s))" "base mod page_size cfg = 0"
    unfolding base_def using off good_stateD(8) [OF G L] by (simp add: less_imp_diff_less) (simp add: minus_mod_eq_mult_div)
  show "\<exists>f'. sys_mmap sys (fsys s) base n = (f', True) \<and> good_state cfg data past (s\<lparr>fsys := f'\<rparr>)"
    using maps_okD(1) [OF posix_fsD(7) [OF P] b(1) n b(2)] good_state_unchanged [OF G] by auto
  show "\<exists>f'. sys_msync sys (fsys s) base n = (f', True) \<and> good_state cfg data past (s\<lparr>fsys := f'\<rparr>)"
    using maps_okD(2) [OF posix_fsD(7) [OF P] b(1) n b(2)] good_state_unchanged [OF G] by auto
  show "\<exists>f'. sys_munmap sys (fsys s) base n = (f', True) \<and> good_state cfg data past (s\<lparr>fsys := f'\<rparr>)"
    using maps_okD(3) [OF posix_fsD(7) [OF P] b(1) n b(2)] good_state_unchanged [OF G] by auto
qed

lemma load_good:
  assumes P: "posix_fs sys cfg data past" and C: "cfg_ok cfg" and G: "good_state cfg data past s" and L: "live cfg s"
    and bnd: "offset + n \<le> file_size s"
  shows "sys_load sys (fsys s) offset n = slice (good_buf s) offset n"
proof -
  have d: "data (fsys s) = take (file_size s) (good_buf s)" "length (data (fsys s)) = file_size s" "file_size s \<le> length (good_buf s)"
    using good_stateD [OF G] L by auto
  obtain k where k: "page_size cfg = 2 ^ k" using cfg_okD(5) [OF C] by auto
  have "offset + n \<le> ROUND_UP (length (data (fsys s))) (page_size cfg)"
    using bnd d(2) ROUND_UP_ge [of "file_size s" k] k by simp
  from maps_okD(4) [OF posix_fsD(7) [OF P] this] show ?thesis
    using d bnd by (auto intro!: nth_equalityI simp: buf_simps)
qed

lemma domapread_ok:
  assumes P: "posix_fs sys cfg data past" and C: "cfg_ok cfg" and G: "good_state cfg data past s"
    and bnd: "offset + n \<le> maxfilelen cfg"
  shows "fsx_ok cfg data past s (domapread sys cfg offset n s)"
proof -
  define off where "off = offset - offset mod readbdy cfg"
  have b: "off + n \<le> maxfilelen cfg" using bnd by (auto simp: off_def intro: order_trans [rotated])
  then have w: "wrap32 (n + off) = off + n" using cfg_okD(7) [OF C] by (simp add: add.commute)
  note pgo = page_offset [OF cfg_okD(5) [OF C]]
  show ?thesis
  proof (cases "n = 0 \<or> off + n > file_size s \<or> \<not> live cfg s")
    case True
    then show ?thesis
      using G by (auto simp: domapread_def Let_def off_def [symmetric] w simulated_iff intro: fsx_ok_ret)
  next
    case False
    let ?s = "log4 OP_MAPREAD (c_int off) (c_int n) FL_NONE s"
    define m where "m = wrap32 (off mod page_size cfg + n)"
    have m: "0 < m"
    proof -
      have "off mod page_size cfg + n < 2 ^ 32"
        using pgo(4) mod_less_divisor [OF pgo(3), of off] b cfg_okD(7) [OF C] by simp
      then show ?thesis using False by (simp add: m_def)
    qed
    have off: "off < file_size s" using False by simp
    obtain f1 where f1: "sys_mmap sys (fsys s) (off - off mod page_size cfg) m = (f1, True)" "good_state cfg data past (?s\<lparr>fsys := f1\<rparr>)"
      using map_call_ok(1) [OF P C, of ?s off m] G False m off by auto
    have ld: "sys_load sys f1 off n = slice (good_buf s) off n"
      using load_good [OF P C f1(2), of off n] False by simp
    have eof: "check_eofpage sys cfg off (off - off mod page_size cfg) n (?s\<lparr>fsys := f1\<rparr>) = ret (?s\<lparr>fsys := f1\<rparr>)"
      using good_check_eofpage [OF P C f1(2), of off n] False by simp
    obtain f2 where f2: "sys_munmap sys f1 (off - off mod page_size cfg) m = (f2, True)" "good_state cfg data past (?s\<lparr>fsys := f2\<rparr>)"
      using map_call_ok(3) [OF P C f1(2), of off m] False m off by auto
    have len: "length (slice (good_buf s) off n) = n" using b good_stateD(1) [OF G] by simp
    have "domapread sys cfg offset n s = ret (?s\<lparr>fsys := f2\<rparr>)"
      using False f1(1) ld eof f2(1) len
      by (simp add: domapread_def Let_def off_def [symmetric] w simulated_iff pgo(1) m_def [symmetric] check_buffers_ok)
    then show ?thesis using f2(2) by (auto intro: fsx_ok_ret)
  qed
qed

section \<open>Writing operations\<close>

lemma map_size_pos:
  assumes "cfg_ok cfg" and "0 < n" and "n \<le> maxfilelen cfg"
  shows "0 < wrap32 (offset mod page_size cfg + n)"
proof -
  note pgo = page_offset [OF cfg_okD(5) [OF assms(1)]]
  have "offset mod page_size cfg + n < 2 ^ 32"
    using pgo(4) mod_less_divisor [OF pgo(3), of offset] assms cfg_okD(7) [OF assms(1)] by simp
  then show ?thesis using assms(2) by simp
qed

lemma doflush_ok:
  assumes P: "posix_fs sys cfg data past" and C: "cfg_ok cfg" and G: "good_state cfg data past s" and L: "live cfg s"
    and n: "0 < n" and bnd: "offset + n \<le> file_size s"
  shows "fsx_ok cfg data past s (doflush sys cfg offset n s)"
proof (cases "o_direct cfg")
  case True
  then show ?thesis using G by (simp add: doflush_def fsx_ok_ret)
next
  case False
  define m where "m = wrap32 (offset mod page_size cfg + n)"
  define base where "base = offset - offset mod page_size cfg"
  have m: "0 < m" using map_size_pos [OF C n] bnd good_stateD(3) [OF G] by (simp add: m_def)
  have off: "offset < file_size s" using n bnd by simp
  obtain f1 where f1: "sys_mmap sys (fsys s) base m = (f1, True)" "good_state cfg data past (s\<lparr>fsys := f1\<rparr>)"
    using map_call_ok(1) [OF P C G L off m] by (auto simp: base_def)
  obtain f2 where f2: "sys_msync sys f1 base m = (f2, True)" "good_state cfg data past (s\<lparr>fsys := f2\<rparr>)"
    using map_call_ok(2) [OF P C f1(2), of offset m] L off m by (auto simp: base_def)
  obtain f3 where f3: "sys_munmap sys f2 base m = (f3, True)" "good_state cfg data past (s\<lparr>fsys := f3\<rparr>)"
    using map_call_ok(3) [OF P C f2(2), of offset m] L off m by (auto simp: base_def)
  have "doflush sys cfg offset n s = ret (s\<lparr>fsys := f3\<rparr>)"
    using False f1(1) f2(1) f3(1)
    by (simp add: doflush_def Let_def page_offset(1) [OF cfg_okD(5) [OF C]] m_def [symmetric] base_def [symmetric])
  then show ?thesis using f3(2) by (auto intro: fsx_ok_ret)
qed

lemma write_out_ok:
  assumes P: "posix_fs sys cfg data past" and C: "cfg_ok cfg" and L: "live cfg s"
    and n: "0 < n" and bnd: "offset + n \<le> file_size s" and fs: "file_size s \<le> maxfilelen cfg"
    and b: "slice (good_buf s) offset n = b" "length b = n"
    and W: "\<And>f'. becomes data past (fsys s) f' (file_write (data (fsys s)) offset b) \<Longrightarrow> good_state cfg data past (s\<lparr>fsys := f'\<rparr>)"
  shows "fsx_ok cfg data past s (write_out sys cfg offset n fl s)"
proof -
  obtain f1 where f1: "fsxwrite sys cfg (fsys s) b offset fl = Some (f1, Some n)"
    "becomes data past (fsys s) f1 (file_write (data (fsys s)) offset b)"
  proof -
    have "b \<noteq> []" "offset + length b \<le> maxfilelen cfg" "maxfilelen cfg < 2 ^ 32" using b n bnd fs cfg_okD(7) [OF C] by auto
    from fsxwrite_ok [OF posix_fsD(2) [OF P] this] show ?thesis using that b(2) by auto
  qed
  let ?s1 = "s\<lparr>fsys := f1\<rparr>"
  have G1: "good_state cfg data past ?s1" using W [OF f1(2)] .
  obtain f2 where f2: "sys_fsync sys f1 = (f2, True)" "becomes data past f1 f2 (data f1)"
    using syncs_okD(1) [OF posix_fsD(8) [OF P]] by blast
  have G2: "good_state cfg data past (s\<lparr>fsys := f2\<rparr>)" using good_state_unchanged [OF G1] f2(2) by simp
  have "fsx_ok cfg data past ?s1 (if flush cfg then doflush sys cfg offset n ?s1 else ret ?s1)"
    using doflush_ok [OF P C G1] L n bnd G1 by (auto intro: fsx_ok_ret)
  moreover have "fsx_ok cfg data past (s\<lparr>fsys := f2\<rparr>)
      (if flush cfg then doflush sys cfg offset n (s\<lparr>fsys := f2\<rparr>) else ret (s\<lparr>fsys := f2\<rparr>))"
    using doflush_ok [OF P C G2] L n bnd G2 by (auto intro: fsx_ok_ret)
  moreover have "write_out sys cfg offset n fl s =
      (let s' = (if do_fsync cfg then s\<lparr>fsys := f2\<rparr> else ?s1) in if flush cfg then doflush sys cfg offset n s' else ret s')"
    using f1(1) f2(1) b(1) by (simp add: write_out_def Let_def)
  ultimately show ?thesis unfolding fsx_ok_def by (auto simp: Let_def)
qed

lemma slice_grow_gap:
  "off + length b \<le> length g \<Longrightarrow> slice (grow_gap (put_at g off b) n off) off (length b) = b"
  by (rule nth_equalityI) (auto simp: buf_simps)

text \<open>The state after the good buffer and the tracked size have been brought up to date for a write.\<close>

definition written :: "'f sys \<Rightarrow> fsx_cfg \<Rightarrow> nat \<Rightarrow> bytes \<Rightarrow> 'f fsx \<Rightarrow> 'f fsx" where
  "written sys cfg off b s =
     (let s1 = s\<lparr>good_buf := put_at (good_buf s) off b\<rparr>
      in if off + length b > file_size s then update_file_size sys cfg off (length b) s1 else s1)"

lemma written_effect:
  assumes P: "posix_fs sys cfg data past" and C: "cfg_ok cfg" and G: "good_state cfg data past s"
    and bnd: "off + length b \<le> maxfilelen cfg"
  shows "\<exists>f'. written sys cfg off b s =
      s\<lparr>fsys := f', good_buf := grow_gap (put_at (good_buf s) off b) (file_size s) off, file_size := max (file_size s) (off + length b)\<rparr> \<and>
    data f' = data (fsys s) \<and>
    (if live cfg s then zero_from past f' (max (file_size s) (off + length b)) else f' = fsys s)"
proof (cases "off + length b > file_size s")
  case True
  let ?s1 = "s\<lparr>good_buf := put_at (good_buf s) off b\<rparr>"
  have "\<exists>f'. update_file_size sys cfg off (length b) ?s1 =
      ?s1\<lparr>fsys := f', good_buf := grow_gap (good_buf ?s1) (file_size ?s1) off, file_size := off + length b\<rparr> \<and>
    data f' = data (fsys ?s1) \<and> (if live cfg ?s1 then zero_from past f' (off + length b) else f' = fsys ?s1)"
    by (rule update_size_effect [OF posix_fsD(7) [OF P] cfg_okD(5) [OF C]])
      (use True bnd good_stateD [OF G] cfg_okD(7) [OF C] in auto)
  then show ?thesis using True by (auto simp: written_def Let_def max_def)
next
  case False
  moreover have "zero_from past (fsys s) (file_size s)" if "live cfg s"
    using good_stateD(6,8) [OF G] that by (simp add: cleared_zero_from)
  ultimately show ?thesis
    by (auto simp: written_def Let_def grow_gap_def max_def intro!: exI [of _ "fsys s"])
qed

lemma written_good:
  assumes P: "posix_fs sys cfg data past" and C: "cfg_ok cfg" and G: "good_state cfg data past s"
    and bnd: "off + length b \<le> maxfilelen cfg" and s': "s' = written sys cfg off b s"
  shows "\<not> live cfg s \<Longrightarrow> \<not> (lite cfg \<and> off + length b > file_size s) \<Longrightarrow> good_state cfg data past s'"
    and "live cfg s \<Longrightarrow> becomes data past (fsys s') f'' (file_write (data (fsys s')) off b) \<Longrightarrow>
      good_state cfg data past (s'\<lparr>fsys := f''\<rparr>)"
    and "off + length b \<le> file_size s'" "file_size s' \<le> maxfilelen cfg" "testcalls s' = testcalls s" "replayopsf s' = replayopsf s"
    and "slice (good_buf s') off (length b) = b"
proof -
  obtain f' where f': "s' = s\<lparr>fsys := f', good_buf := grow_gap (put_at (good_buf s) off b) (file_size s) off,
      file_size := max (file_size s) (off + length b)\<rparr>" "data f' = data (fsys s)"
    "if live cfg s then zero_from past f' (max (file_size s) (off + length b)) else f' = fsys s"
    using written_effect [OF P C G bnd] s' by auto
  note g = good_stateD [OF G]
  show "good_state cfg data past s'" if "\<not> live cfg s" "\<not> (lite cfg \<and> off + length b > file_size s)"
    using f' that g bnd by (intro good_stateI) auto
  show "good_state cfg data past (s'\<lparr>fsys := f''\<rparr>)"
    if L: "live cfg s" and B: "becomes data past (fsys s') f'' (file_write (data (fsys s')) off b)"
  proof (rule good_stateI)
    have d: "data f' = take (file_size s) (good_buf s)" using f'(2) g(7) [OF L] by simp
    have e: "data f'' = take (max (file_size s) (off + length b)) (grow_gap (put_at (good_buf s) off b) (file_size s) off)"
      using B f'(1) d write_good [of off b "good_buf s" "file_size s"] bnd g(1,3) by (simp add: becomes_def)
    show "data (fsys (s'\<lparr>fsys := f''\<rparr>)) = take (file_size (s'\<lparr>fsys := f''\<rparr>)) (good_buf (s'\<lparr>fsys := f''\<rparr>))"
      using e f'(1) by simp
    show "cleared data past (fsys (s'\<lparr>fsys := f''\<rparr>))"
      using becomes_cleared [OF B, of "max (file_size s) (off + length b)"] f' L g(8) by simp
    show "lite cfg \<Longrightarrow> file_size (s'\<lparr>fsys := f''\<rparr>) = maxfilelen cfg \<and> length (data (fsys (s'\<lparr>fsys := f''\<rparr>))) = maxfilelen cfg"
      using e f'(1) g(1,4) bnd by (auto simp: max_def)
  qed (use f'(1) g bnd in auto)
  show "off + length b \<le> file_size s'" "file_size s' \<le> maxfilelen cfg" "testcalls s' = testcalls s" "replayopsf s' = replayopsf s"
    "slice (good_buf s') off (length b) = b"
    using f'(1) bnd g slice_grow_gap [of off b "good_buf s" "file_size s"] by auto
qed

lemma scan_pow2_spec: "2 ^ i < n \<or> i = 0 \<or> 2 ^ (i - 1) < n \<Longrightarrow> 
    n \<le> 2 ^ scan_pow2 n i \<and> (scan_pow2 n i = 0 \<or> 2 ^ (scan_pow2 n i - 1) < n)"
proof (induction n i rule: scan_pow2.induct)
  case (1 n i)
  show ?case
  proof (cases "2 ^ i < n")
    case True
    then show ?thesis using 1 by (subst (1 2 3) scan_pow2.simps) simp
  next
    case False
    then show ?thesis using 1(2) by (subst (1 2 3) scan_pow2.simps) auto
  qed
qed

lemma rounddown_pow_of_2_spec:
  assumes "0 < n" and "n < 2 ^ 32"
  shows "\<exists>k. rounddown_pow_of_2 n = 2 ^ k \<and> 2 ^ k \<le> n \<and> n < 2 ^ Suc k"
proof (cases "fsx_is_power_of_2 n")
  case True
  then have "n AND (n - 1) = 0" using assms wrap32_diff [of 1 n] by (simp add: fsx_is_power_of_2_def)
  then obtain k where "n = 2 ^ k" using nat_and_minus_1_pow2 [OF assms(1)] by blast
  then show ?thesis using True by (auto simp: rounddown_pow_of_2_def)
next
  case False
  define i where "i = scan_pow2 n 0"
  have i: "n \<le> 2 ^ i" "i = 0 \<or> 2 ^ (i - 1) < n" using scan_pow2_spec [of 0 n] by (auto simp: i_def)
  have np: "n \<noteq> 2 ^ k" for k
  proof
    assume "n = 2 ^ k"
    moreover have "take_bit k ((2 :: nat) ^ k) = 0" by (simp add: take_bit_eq_mod)
    ultimately have "n AND (n - 1) = 0" by (simp only: take_bit_eq_mask mask_eq_exp_minus_1)
    then show False using False assms wrap32_diff [of 1 n] by (simp add: fsx_is_power_of_2_def)
  qed
  have "i \<noteq> 0" using i(1) assms(1) np [of 0] by (cases "i = 0") auto
  then obtain j where j: "i = Suc j" by (cases i) auto
  then have "2 ^ j < n" "n < 2 ^ Suc j" using i np [of i] by (auto simp: le_less)
  then show ?thesis using False j by (intro exI [of _ j]) (auto simp: rounddown_pow_of_2_def i_def [symmetric])
qed

lemma atomic_size_bounds:
  assumes "0 < awu_min cfg" and "awu_min cfg \<le> awu_max cfg" and "awu_max cfg < 2 ^ 31"
  shows "0 < atomic_size cfg n" and "atomic_size cfg n \<le> awu_max cfg"
proof -
  define m where "m = (let n = (if n < awu_min cfg then awu_min cfg else n) in if n > awu_max cfg then awu_max cfg else n)"
  have m: "0 < m" "m \<le> awu_max cfg" using assms by (auto simp: m_def Let_def)
  then obtain k where "rounddown_pow_of_2 m = 2 ^ k" "2 ^ k \<le> m" using rounddown_pow_of_2_spec [of m] assms(3) by auto
  then show "0 < atomic_size cfg n" "atomic_size cfg n \<le> awu_max cfg"
    using m by (auto simp: atomic_size_def m_def Let_def)
qed

lemma file_size_good_buf: "file_size (s\<lparr>good_buf := g\<rparr>) = file_size s"
  by simp

definition fresh :: "fsx_cfg \<Rightarrow> 'f fsx \<Rightarrow> nat \<Rightarrow> nat \<Rightarrow> bytes" where
  "fresh cfg s off n = map (gen_byte cfg (testcalls s) (original_buf s)) [off..<off + n]"

lemma length_fresh [simp]: "length (fresh cfg s off n) = n"
  by (simp add: fresh_def)

text \<open>The common middle part of the two ways to write, up to the simulation check.\<close>

lemma gendata_written:
  assumes "length (good_buf s) = maxfilelen cfg" and "off + n \<le> maxfilelen cfg" and "maxfilelen cfg < 2 ^ 31"
  shows "(if wrap32 (off + n) > file_size s
      then update_file_size sys cfg off n (s\<lparr>good_buf := gendata cfg (testcalls s) (original_buf s) (good_buf s) off n\<rparr>)
      else s\<lparr>good_buf := gendata cfg (testcalls s) (original_buf s) (good_buf s) off n\<rparr>) = written sys cfg off (fresh cfg s off n) s"
  using assms by (simp add: written_def gendata_eq fresh_def Let_def)

lemma dowrite_core:
  assumes P: "posix_fs sys cfg data past" and C: "cfg_ok cfg" and G: "good_state cfg data past s"
    and bnd: "off + n \<le> maxfilelen cfg" and n: "0 < n"
  defines "s1 \<equiv> written sys cfg off (fresh cfg s off n) s"
  shows "fsx_ok cfg data past s (if testcalls s1 \<le> simulatedopcount cfg then ret s1 else write_out sys cfg off n fl s1)"
proof -
  have b: "off + length (fresh cfg s off n) \<le> maxfilelen cfg" using bnd by simp
  note W = written_good [OF P C G b s1_def [unfolded atomize_eq]]
  show ?thesis
  proof (cases "live cfg s")
    case True
    then have L: "live cfg s1" using W(5) by (simp add: live_def)
    have "fsx_ok cfg data past s1 (write_out sys cfg off n fl s1)"
      using write_out_ok [OF P C L n _ W(4) W(7) [simplified]] W(2) [OF True] W(3) by simp
    then show ?thesis using L True W(5,6) by (simp add: simulated_iff fsx_ok_def)
  next
    case False
    then have "good_state cfg data past s1" using W(1) good_stateD(4) [OF G] bnd by fastforce
    then show ?thesis using False W(5,6) by (simp add: live_def fsx_ok_ret)
  qed
qed

lemma dowrite_ok:
  assumes P: "posix_fs sys cfg data past" and C: "cfg_ok cfg" and G: "good_state cfg data past s"
    and bnd: "offset + n \<le> maxfilelen cfg" and at: "fl = RWF_ATOMIC \<Longrightarrow> do_atomic_writes cfg"
  shows "fsx_ok cfg data past s (dowrite sys cfg offset n fl s)"
proof -
  define off0 where "off0 = offset - offset mod writebdy cfg"
  define n0 where "n0 = (if o_direct cfg then n - n mod writebdy cfg else n)"
  define n1 where "n1 = (if fl = RWF_ATOMIC then atomic_size cfg n0 else n0)"
  define off1 where "off1 = (if fl = RWF_ATOMIC then off0 - off0 mod n1 else off0)"
  have b0: "off0 + n0 \<le> maxfilelen cfg" using bnd diff_le_self [of offset] diff_le_self [of n] 
    by (auto simp: off0_def n0_def intro: order_trans [rotated])
  have small: "maxfilelen cfg < 2 ^ 31" by (rule cfg_okD(7) [OF C])
  have n1: "n1 < 2 ^ 31" using at b0 small cfg_okD(10) [OF C] atomic_size_bounds(2) [of cfg n0] by (force simp: n1_def)
  have off1: "off1 \<le> off0" by (simp add: off1_def)
  have w: "wrap32 (off1 + n1) = off1 + n1" using n1 off1 b0 small by simp
  let ?op = "if fl = RWF_ATOMIC then OP_WRITE_ATOMIC else OP_WRITE"
  define s0 where "s0 = log4 ?op (c_int off1) (c_int n1) FL_NONE s"
  define s1 where "s1 = written sys cfg off1 (fresh cfg s0 off1 n1) s0"
  have G0: "good_state cfg data past s0" using G by (simp add: s0_def)
  note unfolded = dowrite_def Let_def off0_def [symmetric] n0_def [symmetric] n1_def [symmetric] off1_def [symmetric]
  consider (atomic) "fl = RWF_ATOMIC" "off1 + n1 > maxfilelen cfg"
    | (empty) "\<not> (fl = RWF_ATOMIC \<and> off1 + n1 > maxfilelen cfg)" "n1 = 0"
    | (go) "off1 + n1 \<le> maxfilelen cfg" "0 < n1"
    using b0 off1 by (cases "n1 = 0"; cases "fl = RWF_ATOMIC"; cases "off1 + n1 \<le> maxfilelen cfg")
      (auto simp: not_le n1_def off1_def [symmetric])
  then show ?thesis
  proof cases
    case go
    have lite: "\<not> (file_size s0 < off1 + n1 \<and> lite cfg)" using good_stateD(4) [OF G0] go by auto
    have skip: "\<not> (fl = RWF_ATOMIC \<and> maxfilelen cfg < off1 + n1)" "n1 \<noteq> 0" using go by auto
    have "dowrite sys cfg offset n fl s = (if testcalls s1 \<le> simulatedopcount cfg then ret s1 else write_out sys cfg off1 n1 fl s1)"
      unfolding unfolded s0_def [symmetric] s1_def gendata_written [OF good_stateD(1) [OF G0] go(1) small, of sys, symmetric]
      by (simp only: w skip lite file_size_good_buf if_False simp_thms)
    moreover have "fsx_ok cfg data past s0 (if testcalls s1 \<le> simulatedopcount cfg then ret s1 else write_out sys cfg off1 n1 fl s1)"
      unfolding s1_def by (rule dowrite_core [OF P C G0 go])
    ultimately show ?thesis by (simp add: fsx_ok_def s0_def)
  next
    case atomic
    then have "dowrite sys cfg offset n fl s = ret (log4 OP_WRITE_ATOMIC (c_int off1) (c_int n1) {FL_SKIPPED} s)"
      unfolding unfolded by (simp only: w simp_thms if_True)
    then show ?thesis using G by (simp add: fsx_ok_ret)
  next
    case empty
    have "dowrite sys cfg offset n fl s = ret (log4 OP_WRITE (c_int off1) (c_int n1) {FL_SKIPPED} s)"
      unfolding unfolded w using empty by auto
    then show ?thesis using G by (simp add: fsx_ok_ret)
  qed
qed

lemma fsx_ok_frame:
  "testcalls s' = testcalls s \<Longrightarrow> replayopsf s' = replayopsf s \<Longrightarrow> fsx_ok cfg data past s r = fsx_ok cfg data past s' r"
  by (simp add: fsx_ok_def)

lemma store_becomes:
  assumes M: "maps_ok sys ps data past" and bnd: "off + length b \<le> length (data f)" and ps: "ps = 2 ^ k"
  shows "data (sys_store sys f off b) = file_write (data f) off b"
    and "becomes data past f (sys_store sys f off b) (file_write (data f) off b)"
proof -
  have st: "off + length b \<le> ROUND_UP (length (data f)) ps" using bnd ROUND_UP_ge [of "length (data f)" k] ps by simp
  show d: "data (sys_store sys f off b) = file_write (data f) off b"
    unfolding maps_okD(5) [OF M st] by (rule nth_equalityI) (use bnd in \<open>auto simp: buf_simps\<close>)
  show "becomes data past f (sys_store sys f off b) (file_write (data f) off b)"
    using bnd by (simp add: becomes_def d maps_okD(6) [OF M st])
qed

lemma map_out_ok:
  assumes P: "posix_fs sys cfg data past" and C: "cfg_ok cfg" and L: "live cfg s"
    and n: "0 < n" and bnd: "offset + n \<le> file_size s" and fs: "file_size s \<le> maxfilelen cfg"
    and len: "length (data (fsys s)) = file_size s"
    and b: "slice (good_buf s) offset n = b" "length b = n"
    and W: "\<And>f'. becomes data past (fsys s) f' (file_write (data (fsys s)) offset b) \<Longrightarrow> good_state cfg data past (s\<lparr>fsys := f'\<rparr>)"
  shows "fsx_ok cfg data past s (map_out sys cfg offset n s)"
proof -
  define m where "m = wrap32 (offset mod page_size cfg + n)"
  define base where "base = offset - offset mod page_size cfg"
  obtain k where k: "page_size cfg = 2 ^ k" using cfg_okD(5) [OF C] by blast
  have m: "0 < m" using map_size_pos [OF C n] bnd fs by (simp add: m_def)
  have off: "offset < file_size s" using n bnd by simp
  have base: "base < length (data (fsys s))" "base mod page_size cfg = 0"
    using off len le_less_trans [OF diff_le_self [of offset]] by (auto simp: base_def)
  note M = posix_fsD(7) [OF P]
  obtain f1 where f1: "sys_mmap sys (fsys s) base m = (f1, True)" "becomes data past (fsys s) f1 (data (fsys s))"
    using maps_okD(1) [OF M base(1) m base(2)] by blast
  define f2 where "f2 = sys_store sys f1 offset b"
  have "becomes data past f1 f2 (file_write (data f1) offset b)"
    unfolding f2_def by (rule store_becomes(2) [OF M _ k]) (use f1(2) b(2) bnd len in \<open>simp add: becomes_def\<close>)
  then have "becomes data past (fsys s) f2 (file_write (data (fsys s)) offset b)"
    using becomes_trans [OF f1(2)] f1(2) by (simp add: becomes_def)
  then have G2: "good_state cfg data past (s\<lparr>fsys := f2\<rparr>)" by (rule W)
  obtain f3 where f3: "sys_msync sys f2 base m = (f3, True)" "good_state cfg data past (s\<lparr>fsys := f3\<rparr>)"
    using map_call_ok(2) [OF P C G2, of offset m] L off m by (auto simp: base_def)
  obtain f4 where f4: "sys_munmap sys f3 base m = (f4, True)" "good_state cfg data past (s\<lparr>fsys := f4\<rparr>)"
    using map_call_ok(3) [OF P C f3(2), of offset m] L off m by (auto simp: base_def)
  have eof: "check_eofpage sys cfg offset base n (s\<lparr>fsys := f3\<rparr>) = ret (s\<lparr>fsys := f3\<rparr>)"
    using good_check_eofpage [OF P C f3(2)] L bnd by (simp add: base_def)
  have "map_out sys cfg offset n s = ret (s\<lparr>fsys := f4\<rparr>)"
    using f1(1) f3(1) f4(1) eof b(1)
    by (simp add: map_out_def Let_def page_offset(1) [OF cfg_okD(5) [OF C]] m_def [symmetric] base_def [symmetric] f2_def [symmetric])
  then show ?thesis using f4(2) by (auto intro: fsx_ok_ret)
qed

lemma file_write_resize: "off + length b = n \<Longrightarrow> length c \<le> n \<Longrightarrow> file_write (file_resize c n) off b = file_write c off b"
  by (rule nth_equalityI) (auto simp: buf_simps)

lemma domapwrite_core:
  assumes P: "posix_fs sys cfg data past" and C: "cfg_ok cfg" and G: "good_state cfg data past s"
    and bnd: "off + n \<le> maxfilelen cfg" and n: "0 < n" and L: "live cfg s"
  defines "s1 \<equiv> written sys cfg off (fresh cfg s off n) s"
  shows "fsx_ok cfg data past s1 (if file_size s1 > file_size s
    then let (f, ok) = sys_ftruncate sys (fsys s1) (file_size s1); s = s1\<lparr>fsys := f\<rparr>
         in if \<not> ok then exit_with 201 s else map_out sys cfg off n s
    else map_out sys cfg off n s1)"
proof -
  let ?b = "fresh cfg s off n"
  have b: "off + length ?b \<le> maxfilelen cfg" using bnd by simp
  note W = written_good [OF P C G b s1_def [unfolded atomize_eq]]
  have L1: "live cfg s1" using W(5) L by (simp add: live_def)
  obtain f' where s1: "fsys s1 = f'" "data f' = data (fsys s)" "file_size s1 = max (file_size s) (off + n)"
    using written_effect [OF P C G b] by (auto simp: s1_def)
  have len: "length (data (fsys s1)) = file_size s" using s1(1,2) good_stateD(8) [OF G L] by simp
  show ?thesis
  proof (cases "file_size s1 > file_size s")
    case True
    obtain ft where ft: "sys_ftruncate sys (fsys s1) (file_size s1) = (ft, True)"
      "becomes data past (fsys s1) ft (file_resize (data (fsys s1)) (file_size s1))"
      using truncates_okD [OF posix_fsD(4) [OF P] W(4)] by blast
    let ?s2 = "s1\<lparr>fsys := ft\<rparr>"
    have sz: "off + length ?b = file_size s1" using True s1(3) by simp
    have dt: "data ft = file_resize (data (fsys s1)) (file_size s1)" using ft(2) by (rule becomes_data)
    have W2: "good_state cfg data past (?s2\<lparr>fsys := f''\<rparr>)"
      if "becomes data past (fsys ?s2) f'' (file_write (data (fsys ?s2)) off ?b)" for f''
    proof -
      have "becomes data past ft f'' (file_write (data (fsys s1)) off ?b)"
        using that dt file_write_resize [OF sz] len True by simp
      then have "becomes data past (fsys s1) f'' (file_write (data (fsys s1)) off ?b)"
        by (rule becomes_trans [OF ft(2)]) (use sz in simp)
      then show ?thesis using W(2) [OF L] by simp
    qed
    have "fsx_ok cfg data past ?s2 (map_out sys cfg off n ?s2)"
      by (rule map_out_ok [OF P C _ n _ _ _ _ _ W2]) (use L1 W(3,4,7) dt in auto)
    then show ?thesis using True ft(1) by (simp add: fsx_ok_def)
  next
    case False
    then have "file_size s1 = file_size s" using s1(3) by simp
    then have "fsx_ok cfg data past s1 (map_out sys cfg off n s1)"
      using map_out_ok [OF P C L1 n _ W(4) _ W(7) [simplified]] W(2) [OF L] W(3) len by simp
    then show ?thesis using False by simp
  qed
qed

lemma domapwrite_ok:
  assumes P: "posix_fs sys cfg data past" and C: "cfg_ok cfg" and G: "good_state cfg data past s"
    and bnd: "offset + n \<le> maxfilelen cfg"
  shows "fsx_ok cfg data past s (domapwrite sys cfg offset n s)"
proof -
  define off where "off = offset - offset mod writebdy cfg"
  have b: "off + n \<le> maxfilelen cfg" using bnd diff_le_self [of offset] by (auto simp: off_def intro: order_trans [rotated])
  have small: "maxfilelen cfg < 2 ^ 31" by (rule cfg_okD(7) [OF C])
  have w: "wrap32 (off + n) = off + n" using b small by simp
  note unfolded = domapwrite_def Let_def off_def [symmetric]
  define s0 where "s0 = log4 OP_MAPWRITE (c_int off) (c_int n) FL_NONE s"
  define s1 where "s1 = written sys cfg off (fresh cfg s0 off n) s0"
  have G0: "good_state cfg data past s0" using G by (simp add: s0_def)
  have fs0: "file_size s = file_size s0" by (simp add: s0_def)
  have bl: "off + length (fresh cfg s0 off n) \<le> maxfilelen cfg" using b by simp
  note W = written_good [OF P C G0 bl s1_def [unfolded atomize_eq]]
  show ?thesis
  proof (cases "n = 0")
    case True
    then show ?thesis unfolding unfolded using G by (simp add: fsx_ok_ret)
  next
    case False
    have lite: "\<not> (file_size s0 < off + n \<and> lite cfg)" using good_stateD(4) [OF G0] b by auto
    have eq: "domapwrite sys cfg offset n s = (if testcalls s1 \<le> simulatedopcount cfg then ret s1
       else if file_size s1 > file_size s0
       then let (f, ok) = sys_ftruncate sys (fsys s1) (file_size s1); s = s1\<lparr>fsys := f\<rparr>
         in if \<not> ok then exit_with 201 s else map_out sys cfg off n s
       else map_out sys cfg off n s1)"
      unfolding unfolded s0_def [symmetric] s1_def gendata_written [OF good_stateD(1) [OF G0] b small, of sys, symmetric]
      by (simp only: w False lite file_size_good_buf if_False simp_thms fs0)
    have same: "testcalls s1 = testcalls s" "replayopsf s1 = replayopsf s" using W(5,6) by (auto simp: s0_def)
    show ?thesis
    proof (cases "live cfg s")
      case True
      then have "live cfg s0" "\<not> testcalls s1 \<le> simulatedopcount cfg" using W(5) by (auto simp: s0_def live_def)
      then show ?thesis unfolding eq fsx_ok_frame [OF same]
        using domapwrite_core [OF P C G0 b, folded s1_def] False by (simp only: if_False neq0_conv)
    next
      case False
      then have "\<not> live cfg s0" "testcalls s1 \<le> simulatedopcount cfg" using W(5) by (auto simp: s0_def live_def)
      moreover have "good_state cfg data past s1" using W(1) calculation(1) lite by auto
      ultimately show ?thesis unfolding eq using W(5,6) by (simp add: fsx_ok_ret s0_def)
    qed
  qed
qed

end
