(* ===== verification/Fsx_Ranges.thy ===== *)
theory Fsx_Ranges
  imports Fsx_Reads_Writes
begin

text \<open>
  On a conforming file system truncation and the operations of \<open>src/ltp/fsx.c\<close> on ranges return, and
  leave the good buffer equal to the file.
\<close>

section \<open>Truncation\<close>

lemma good_pollute_effect:
  assumes P: "posix_fs sys cfg data past" and C: "cfg_ok cfg" and G: "good_state cfg data past s"
    and m: "file_size s \<le> m" "m \<le> maxfilelen cfg"
  shows "\<exists>f'. pollute_eofpage sys cfg m s = s\<lparr>fsys := f'\<rparr> \<and> data f' = data (fsys s) \<and>
    (if live cfg s then zero_from past f' m else f' = fsys s)"
  using pollute_effect [OF posix_fsD(7) [OF P] cfg_okD(5) [OF C], where s = s and maxoff = m] good_stateD [OF G] m
    cfg_okD(7) [OF C] by simp

lemma good_update_effect:
  assumes P: "posix_fs sys cfg data past" and C: "cfg_ok cfg" and G: "good_state cfg data past s"
    and n: "file_size s \<le> offset + len" "offset + len \<le> maxfilelen cfg"
  shows "\<exists>f'. update_file_size sys cfg offset len s =
      s\<lparr>fsys := f', good_buf := grow_gap (good_buf s) (file_size s) offset, file_size := offset + len\<rparr> \<and>
    data f' = data (fsys s) \<and> (if live cfg s then zero_from past f' (offset + len) else f' = fsys s)"
  using update_size_effect [OF posix_fsD(7) [OF P] cfg_okD(5) [OF C], where s = s and offset = offset and len = len]
    good_stateD [OF G] n cfg_okD(7) [OF C] by simp

lemma truncated_effect:
  assumes P: "posix_fs sys cfg data past" and C: "cfg_ok cfg" and G: "good_state cfg data past s"
    and n: "n \<le> maxfilelen cfg"
  shows "\<exists>f'. update_file_size sys cfg n 0 (if n < file_size s then pollute_eofpage sys cfg (wrap32 (maxfilelen cfg)) s else s) =
      s\<lparr>fsys := f', good_buf := grow_gap (good_buf s) (file_size s) n, file_size := n\<rparr> \<and> data f' = data (fsys s) \<and>
    (if live cfg s then n < file_size s \<or> zero_from past f' n else f' = fsys s)"
proof (cases "n < file_size s")
  case True
  obtain f' where "pollute_eofpage sys cfg (maxfilelen cfg) s = s\<lparr>fsys := f'\<rparr>" "data f' = data (fsys s)"
    "if live cfg s then zero_from past f' (maxfilelen cfg) else f' = fsys s"
    using good_pollute_effect [OF P C G good_stateD(3) [OF G]] by blast
  then show ?thesis using True n cfg_okD(7) [OF C] by (auto simp: update_file_size_def grow_gap_def)
next
  case False
  then show ?thesis using good_update_effect [OF P C G, of n 0] n by auto
qed

lemma dotruncate_ok:
  assumes P: "posix_fs sys cfg data past" and C: "cfg_ok cfg" and G: "good_state cfg data past s"
    and n: "n \<le> maxfilelen cfg" and lite: "\<not> lite cfg"
  shows "fsx_ok cfg data past s (dotruncate sys cfg n s)"
proof -
  define m where "m = n - n mod truncbdy cfg"
  have m: "m \<le> maxfilelen cfg" using n by (simp add: m_def)
  define s0 where "s0 = log4 OP_TRUNCATE 0 (c_int m) FL_NONE (if m > biggest s then s\<lparr>biggest := m\<rparr> else s)"
  have G0: "good_state cfg data past s0" and same: "testcalls s0 = testcalls s" "replayopsf s0 = replayopsf s" "file_size s0 = file_size s"
    using G by (simp_all add: s0_def)
  define s1 where "s1 = update_file_size sys cfg m 0 (if m < file_size s0 then pollute_eofpage sys cfg (wrap32 (maxfilelen cfg)) s0 else s0)"
  obtain f' where s1: "s1 = s0\<lparr>fsys := f', good_buf := grow_gap (good_buf s0) (file_size s0) m, file_size := m\<rparr>"
    "data f' = data (fsys s0)" "if live cfg s0 then m < file_size s0 \<or> zero_from past f' m else f' = fsys s0"
    using truncated_effect [OF P C G0 m] unfolding s1_def by blast
  note g = good_stateD [OF G0]
  obtain ft where ft: "sys_ftruncate sys f' m = (ft, True)" "becomes data past f' ft (file_resize (data f') m)"
    "m < length (data f') \<longrightarrow> cleared data past ft"
    using truncates_okD [OF posix_fsD(4) [OF P] m] by blast
  have eq: "dotruncate sys cfg n s = (if testcalls s1 \<le> simulatedopcount cfg then ret s1 else ret (s1\<lparr>fsys := ft\<rparr>))"
    using ft(1) s1(1) unfolding dotruncate_def Let_def m_def [symmetric] s0_def [symmetric] s1_def [symmetric] by simp
  show ?thesis
  proof (cases "live cfg s0")
    case True
    have d: "data ft = take m (grow_gap (good_buf s0) (file_size s0) m)"
      using becomes_data [OF ft(2)] resize_good [of m "good_buf s0" "file_size s0"] s1(2) g m True by simp
    have "cleared data past ft" using ft(2,3) s1(2,3) True g(8) becomes_cleared [OF ft(2), of m] by auto
    then have "good_state cfg data past (s1\<lparr>fsys := ft\<rparr>)" using s1(1) d g m lite by (intro good_stateI) auto
    then show ?thesis using True s1(1) same by (simp add: eq simulated_iff fsx_ok_ret live_def)
  next
    case False
    then have "good_state cfg data past s1" using s1 g m lite by (intro good_stateI) auto
    then show ?thesis using False s1(1) same by (simp add: eq simulated_iff fsx_ok_ret live_def)
  qed
qed

section \<open>Operations on ranges\<close>

lemma do_punch_hole_ok:
  assumes P: "posix_fs sys cfg data past" and C: "cfg_ok cfg" and G: "good_state cfg data past s"
    and bnd: "offset + n \<le> maxfilelen cfg"
  shows "fsx_ok cfg data past s (do_punch_hole sys cfg offset n s)"
proof (cases "n = 0 \<or> file_size s \<le> offset \<or> \<not> live cfg s")
  case True
  then show ?thesis using G by (auto simp: do_punch_hole_def Let_def simulated_iff intro: fsx_ok_ret)
next
  case False
  then have L: "live cfg s" and off: "offset < file_size s" and n: "0 < n" by auto
  note g = good_stateD [OF G]
  obtain f' where f': "sys_fallocate sys (fsys s) FALLOC_FL_PUNCH_HOLE offset n = (f', True)"
    "becomes data past (fsys s) f' (file_zero (data (fsys s)) offset n)"
    using fallocates_okD(2) [OF posix_fsD(5) [OF P] n bnd] by blast
  have w: "wrap32 (offset + n) = offset + n" using bnd cfg_okD(7) [OF C] by simp
  define s0 where "s0 = log4 OP_PUNCH_HOLE (c_int offset) (c_int n) FL_NONE s"
  define g' where "g' = memset0 (good_buf s) offset (min n (file_size s - offset))"
  have eq: "do_punch_hole sys cfg offset n s = ret (s0\<lparr>fsys := f', good_buf := g'\<rparr>)"
    using f'(1) off n L by (cases "offset + n \<le> file_size s")
      (auto simp: do_punch_hole_def Let_def simulated_iff w s0_def g'_def min_def)
  have "data f' = take (file_size s) g'"
    using becomes_data [OF f'(2)] g(7) [OF L] punch_good [of offset "file_size s" "good_buf s" n] off g(1,3) by (simp add: g'_def)
  moreover have "length g' = maxfilelen cfg" using off g(1,3) by (simp add: g'_def)
  moreover have "cleared data past f'"
    using becomes_cleared [OF f'(2), of "length (data (fsys s))"] g(6) by (simp add: cleared_zero_from)
  ultimately have "good_state cfg data past (s0\<lparr>fsys := f', good_buf := g'\<rparr>)"
    using g by (intro good_stateI) (auto simp: s0_def)
  then show ?thesis unfolding eq by (rule fsx_ok_ret) (simp_all add: s0_def)
qed

definition extended :: "'f sys \<Rightarrow> fsx_cfg \<Rightarrow> nat \<Rightarrow> nat \<Rightarrow> 'f fsx \<Rightarrow> 'f fsx" where
  "extended sys cfg off n s = (if off + n > file_size s then update_file_size sys cfg off n s else s)"

lemma extended_effect:
  assumes P: "posix_fs sys cfg data past" and C: "cfg_ok cfg" and G: "good_state cfg data past s"
    and bnd: "off + n \<le> maxfilelen cfg"
  shows "\<exists>f'. extended sys cfg off n s =
      s\<lparr>fsys := f', good_buf := grow_gap (good_buf s) (file_size s) off, file_size := max (file_size s) (off + n)\<rparr> \<and>
    data f' = data (fsys s) \<and> (if live cfg s then zero_from past f' (max (file_size s) (off + n)) else f' = fsys s)"
proof (cases "off + n > file_size s")
  case True
  then show ?thesis using good_update_effect [OF P C G, of off n] bnd by (auto simp: extended_def max_def)
next
  case False
  moreover have "zero_from past (fsys s) (file_size s)" if "live cfg s"
    using good_stateD(6,8) [OF G] that by (simp add: cleared_zero_from)
  ultimately show ?thesis by (auto simp: extended_def grow_gap_def max_def intro!: exI [of _ "fsys s"])
qed

text \<open>
  A call on the extended state: in the simulated part of a run the state is good as it is, otherwise it becomes
  good with the new contents.
\<close>

lemma extended_good:
  assumes P: "posix_fs sys cfg data past" and C: "cfg_ok cfg" and G: "good_state cfg data past s"
    and bnd: "off + n \<le> maxfilelen cfg" and lite: "\<not> lite cfg" and s': "s' = extended sys cfg off n s"
  shows "\<not> live cfg s \<Longrightarrow> good_state cfg data past s'"
    and "live cfg s \<Longrightarrow> becomes data past (fsys s') f'' c \<Longrightarrow> c = take (file_size s') g' \<Longrightarrow> length g' = maxfilelen cfg \<Longrightarrow>
      good_state cfg data past (s'\<lparr>fsys := f'', good_buf := g'\<rparr>)"
    and "testcalls s' = testcalls s" "replayopsf s' = replayopsf s" "data (fsys s') = data (fsys s)"
    and "good_buf s' = grow_gap (good_buf s) (file_size s) off" "file_size s' = max (file_size s) (off + n)"
    and "length (good_buf s') = maxfilelen cfg"
proof -
  obtain f' where f': "s' = s\<lparr>fsys := f', good_buf := grow_gap (good_buf s) (file_size s) off, file_size := max (file_size s) (off + n)\<rparr>"
    "data f' = data (fsys s)" "if live cfg s then zero_from past f' (max (file_size s) (off + n)) else f' = fsys s"
    using extended_effect [OF P C G bnd] s' by blast
  note g = good_stateD [OF G]
  show "good_state cfg data past s'" if "\<not> live cfg s"
    using f' g bnd lite that by (intro good_stateI) auto
  show "good_state cfg data past (s'\<lparr>fsys := f'', good_buf := g'\<rparr>)"
    if L: "live cfg s" and B: "becomes data past (fsys s') f'' c" and c: "c = take (file_size s') g'" and g': "length g' = maxfilelen cfg"
  proof (rule good_stateI)
    have "max (file_size s) (off + n) \<le> length c" using c g' f'(1) g(3) bnd by simp
    then show "cleared data past (fsys (s'\<lparr>fsys := f'', good_buf := g'\<rparr>))"
      using becomes_cleared [OF B, of "max (file_size s) (off + n)"] f'(1,3) L by simp
    show "data (fsys (s'\<lparr>fsys := f'', good_buf := g'\<rparr>)) =
        take (file_size (s'\<lparr>fsys := f'', good_buf := g'\<rparr>)) (good_buf (s'\<lparr>fsys := f'', good_buf := g'\<rparr>))"
      using becomes_data [OF B] c by simp
  qed (use f'(1) g g' bnd lite in auto)
qed (use extended_effect [OF P C G bnd] s' good_stateD [OF G] bnd in auto)

lemma do_zero_range_ok:
  assumes P: "posix_fs sys cfg data past" and C: "cfg_ok cfg" and G: "good_state cfg data past s"
    and bnd: "offset + n \<le> maxfilelen cfg" and lite: "\<not> lite cfg"
  shows "fsx_ok cfg data past s (do_zero_range sys cfg offset n keep s)"
proof (cases "n = 0")
  case True
  then show ?thesis using G by (auto simp: do_zero_range_def Let_def intro: fsx_ok_ret)
next
  case False
  then have n: "0 < n" by simp
  define e where "e = (if keep then 0 else offset + n)"
  define s0 where "s0 = log4 OP_ZERO_RANGE (c_int offset) (c_int n) (if keep then {FL_KEEP_SIZE} else FL_NONE)
    (if e > biggest s then s\<lparr>biggest := e\<rparr> else s)"
  have G0: "good_state cfg data past s0" and same: "testcalls s0 = testcalls s" "replayopsf s0 = replayopsf s" "file_size s0 = file_size s"
    using G by (simp_all add: s0_def)
  define s1 where "s1 = (if keep then s0 else extended sys cfg offset n s0)"
  note g = good_stateD [OF G0]
  obtain f' where f': "sys_fallocate sys (fsys s1) (FALLOC_FL_ZERO_RANGE keep) offset n = (f', True)"
    "becomes data past (fsys s1) f' (file_zero (if keep then data (fsys s1)
       else file_resize (data (fsys s1)) (max (length (data (fsys s1))) (offset + n))) offset n)"
    using fallocates_okD(3) [OF posix_fsD(5) [OF P] n bnd] by blast
  define g' where "g' = memset0 (good_buf s1) offset n"
  have w: "wrap32 (offset + n) = offset + n" using bnd cfg_okD(7) [OF C] by simp
  have eq: "do_zero_range sys cfg offset n keep s =
      (if testcalls s1 \<le> simulatedopcount cfg then ret s1 else ret (s1\<lparr>fsys := f', good_buf := g'\<rparr>))"
    using n f'(1) unfolding do_zero_range_def Let_def w e_def [symmetric] s0_def [symmetric]
    by (cases keep) (simp_all add: s1_def e_def extended_def g'_def)
  show ?thesis
  proof (cases keep)
    case True
    have "file_zero (data (fsys s0)) offset n = take (file_size s0) g'" if "live cfg s0"
      using g(7) [OF that] zero_good_keep [of offset n "good_buf s0" "file_size s0"] g(1,3) bnd True by (simp add: g'_def s1_def)
    then have "good_state cfg data past (s0\<lparr>fsys := f', good_buf := g'\<rparr>)" if "live cfg s0"
      using f'(2) True g that lite bnd becomes_cleared [OF f'(2), of "length (data (fsys s0))"]
      by (intro good_stateI) (auto simp: s1_def becomes_def g'_def cleared_zero_from)
    then show ?thesis unfolding eq using G0 True same by (auto simp: s1_def live_def intro: fsx_ok_ret)
  next
    case False
    note E = extended_good [OF P C G0 bnd lite, of s1]
    have s1: "s1 = extended sys cfg offset n s0" using False by (simp add: s1_def)
    have "good_state cfg data past (s1\<lparr>fsys := f', good_buf := g'\<rparr>)" if L: "live cfg s0"
      using E(2) [OF s1 L f'(2)] E(5-8) [OF s1] g(1,3,7) L zero_good_grow [of offset n "good_buf s0" "file_size s0"] bnd False
      by (simp add: g'_def)
    then show ?thesis unfolding eq using E(1,3,4) [OF s1] same by (auto simp: live_def intro: fsx_ok_ret)
  qed
qed

lemma do_collapse_range_ok:
  assumes P: "posix_fs sys cfg data past" and C: "cfg_ok cfg" and G: "good_state cfg data past s"
    and bnd: "offset + n \<le> maxfilelen cfg" and al: "offset mod block_size cfg = 0" "n mod block_size cfg = 0"
    and lite: "\<not> lite cfg"
  shows "fsx_ok cfg data past s (do_collapse_range sys cfg offset n s)"
proof -
  have w: "wrap32 (offset + n) = offset + n" "wrap32 (maxfilelen cfg) = maxfilelen cfg" using bnd cfg_okD(7) [OF C] by simp_all
  define s0 where "s0 = log4 OP_COLLAPSE_RANGE (c_int offset) (c_int n) FL_NONE s"
  have G0: "good_state cfg data past s0" and same: "testcalls s0 = testcalls s" "replayopsf s0 = replayopsf s" "file_size s0 = file_size s"
    using G by (simp_all add: s0_def)
  note g = good_stateD [OF G0]
  obtain f1 where f1: "pollute_eofpage sys cfg (maxfilelen cfg) s0 = s0\<lparr>fsys := f1\<rparr>" "data f1 = data (fsys s0)"
    "if live cfg s0 then zero_from past f1 (maxfilelen cfg) else f1 = fsys s0"
    using good_pollute_effect [OF P C G0 g(3)] by blast
  consider (skip) "n = 0 \<or> offset + n \<ge> file_size s" | (sim) "0 < n" "offset + n < file_size s" "\<not> live cfg s0"
    | (run) "0 < n" "offset + n < file_size s" "live cfg s0" by linarith
  then show ?thesis
  proof cases
    case skip
    then show ?thesis using G by (auto simp: do_collapse_range_def Let_def w intro: fsx_ok_ret)
  next
    case sim
    then have "do_collapse_range sys cfg offset n s = ret s0"
      using f1 by (simp add: do_collapse_range_def Let_def w s0_def [symmetric] live_def)
    then show ?thesis using G0 same by (auto intro: fsx_ok_ret)
  next
    case run
    obtain f2 where f2: "sys_fallocate sys f1 FALLOC_FL_COLLAPSE_RANGE offset n = (f2, True)"
      "data f2 = file_collapse (data f1) offset n" "cleared data past f2"
      using fallocates_okD(4) [OF posix_fsD(5) [OF P] run(1) bnd al, of f1] run f1(2) g(8) same by auto
    define g' where "g' = put_at (good_buf s0) offset (slice (good_buf s0) (offset + n) (file_size s - (offset + n)))"
    have eq: "do_collapse_range sys cfg offset n s = ret (s0\<lparr>fsys := f2, good_buf := g', file_size := file_size s - n\<rparr>)"
      using run f1(1) f2(1) same by (simp add: do_collapse_range_def Let_def w s0_def [symmetric] live_def g'_def)
    have "data f2 = take (file_size s - n) g'"
      using f2(2) f1(2) g(7) [OF run(3)] collapse_good [of offset n "file_size s" "good_buf s0"] run(2) g(1,3) same
      by (simp add: g'_def)
    moreover have "length g' = maxfilelen cfg" using run(2) g(1,3) same by (simp add: g'_def)
    ultimately have "good_state cfg data past (s0\<lparr>fsys := f2, good_buf := g', file_size := file_size s - n\<rparr>)"
      using g f2(3) lite same by (intro good_stateI) auto
    then show ?thesis unfolding eq by (rule fsx_ok_ret) (simp_all add: same)
  qed
qed

lemma do_insert_range_ok:
  assumes P: "posix_fs sys cfg data past" and C: "cfg_ok cfg" and G: "good_state cfg data past s"
    and bnd: "file_size s + n \<le> maxfilelen cfg" and al: "offset mod block_size cfg = 0" "n mod block_size cfg = 0"
    and lite: "\<not> lite cfg"
  shows "fsx_ok cfg data past s (do_insert_range sys cfg offset n s)"
proof -
  define s0 where "s0 = log4 OP_INSERT_RANGE (c_int offset) (c_int n) FL_NONE s"
  have G0: "good_state cfg data past s0" and same: "testcalls s0 = testcalls s" "replayopsf s0 = replayopsf s" "file_size s0 = file_size s"
    using G by (simp_all add: s0_def)
  note g = good_stateD [OF G0]
  obtain f1 where f1: "pollute_eofpage sys cfg (maxfilelen cfg) s0 = s0\<lparr>fsys := f1\<rparr>" "data f1 = data (fsys s0)"
    "if live cfg s0 then zero_from past f1 (maxfilelen cfg) else f1 = fsys s0"
    using good_pollute_effect [OF P C G0 g(3)] by blast
  have wm: "wrap32 (maxfilelen cfg) = maxfilelen cfg" using cfg_okD(7) [OF C] by simp
  consider (skip) "n = 0 \<or> offset \<ge> file_size s" | (sim) "0 < n" "offset < file_size s" "\<not> live cfg s0"
    | (run) "0 < n" "offset < file_size s" "live cfg s0" by linarith
  then show ?thesis
  proof cases
    case skip
    then show ?thesis using G by (auto simp: do_insert_range_def Let_def intro: fsx_ok_ret)
  next
    case sim
    then have "do_insert_range sys cfg offset n s = ret s0"
      using f1 by (simp add: do_insert_range_def Let_def wm s0_def [symmetric] live_def)
    then show ?thesis using G0 same by (auto intro: fsx_ok_ret)
  next
    case run
    have b: "offset + n \<le> maxfilelen cfg" using run(2) bnd by simp
    have w: "wrap32 (offset + n) = offset + n" using b cfg_okD(7) [OF C] by simp
    obtain f2 where f2: "sys_fallocate sys f1 FALLOC_FL_INSERT_RANGE offset n = (f2, True)"
      "data f2 = file_insert (data f1) offset n" "cleared data past f2"
      using fallocates_okD(5) [OF posix_fsD(5) [OF P] run(1) b al, of f1] run f1(2) g(8) same bnd by auto
    define g' where "g' = memset0 (put_at (good_buf s0) (offset + n) (slice (good_buf s0) offset (file_size s - offset))) offset n"
    have eq: "do_insert_range sys cfg offset n s = ret (s0\<lparr>fsys := f2, good_buf := g', file_size := file_size s + n\<rparr>)"
      using run f1(1) f2(1) same by (simp add: do_insert_range_def Let_def w wm s0_def [symmetric] live_def g'_def)
    have "data f2 = take (file_size s + n) g'"
      using f2(2) f1(2) g(7) [OF run(3)] insert_good [of offset "file_size s" n "good_buf s0"] run(2) g(1,3) same bnd
      by (simp add: g'_def)
    moreover have "length g' = maxfilelen cfg" using run(2) g(1,3) same bnd by (simp add: g'_def)
    ultimately have "good_state cfg data past (s0\<lparr>fsys := f2, good_buf := g', file_size := file_size s + n\<rparr>)"
      using g f2(3) lite same bnd by (intro good_stateI) auto
    then show ?thesis unfolding eq by (rule fsx_ok_ret) (simp_all add: same)
  qed
qed

lemma slice_file_write:
  "off + m \<le> length c \<Longrightarrow> off + m \<le> o2 \<or> o2 + length b \<le> off \<Longrightarrow> slice (file_write c o2 b) off m = slice c off m"
  by (rule nth_equalityI) (auto simp: buf_simps)

lemma copy_stream:
  assumes R: "ranges_ok sys limit bs data past" and "o1 + l \<le> length (data (fsys s))" and "o2 + l \<le> limit"
    and "disjoint_ranges o1 o2 l" and "0 < l"
  shows "\<exists>f'. copy_loop sys o1 o2 l tries s = ret (s\<lparr>fsys := f'\<rparr>) \<and>
    becomes data past (fsys s) f' (file_write (data (fsys s)) o2 (slice (data (fsys s)) o1 l))"
  using assms(2-5)
proof (induction l arbitrary: o1 o2 s rule: less_induct)
  case (less l)
  obtain f1 n where n: "0 < n" "n \<le> l" "sys_copy_file_range sys (fsys s) o1 o2 l = (f1, Copied n)"
    "becomes data past (fsys s) f1 (file_write (data (fsys s)) o2 (slice (data (fsys s)) o1 n))"
    using ranges_okD(1) [OF R less.prems(4,1-3)] by blast
  have step: "copy_loop sys o1 o2 l tries s = copy_loop sys (o1 + n) (o2 + n) (l - n) tries (s\<lparr>fsys := f1\<rparr>)"
    using n(1-3) less.prems(4) by (subst copy_loop.simps) simp
  let ?d = "data (fsys s)"
  have d1: "data f1 = file_write ?d o2 (slice ?d o1 n)" using n(4) by (rule becomes_data)
  show ?case
  proof (cases "n = l")
    case True
    then show ?thesis using step n(4) by (subst (asm) (2) copy_loop.simps) auto
  next
    case False
    have len: "length (slice ?d o1 n) = n" using less.prems(1) n(2) by simp
    have rest: "slice (data f1) (o1 + n) (l - n) = slice ?d (o1 + n) (l - n)"
      unfolding d1 by (rule slice_file_write) (use less.prems n(2) len in \<open>auto simp: disjoint_ranges_def\<close>)
    obtain f2 where f2: "copy_loop sys (o1 + n) (o2 + n) (l - n) tries (s\<lparr>fsys := f1\<rparr>) = ret (s\<lparr>fsys := f2\<rparr>)"
      "becomes data past f1 f2 (file_write (data f1) (o2 + n) (slice (data f1) (o1 + n) (l - n)))"
    proof -
      have pre: "l - n < l" "o1 + n + (l - n) \<le> length (data (fsys (s\<lparr>fsys := f1\<rparr>)))" "o2 + n + (l - n) \<le> limit"
        "disjoint_ranges (o1 + n) (o2 + n) (l - n)" "0 < l - n"
        using less.prems n(1,2) False len d1 by (auto simp: disjoint_ranges_def)
      show ?thesis using less.IH [OF pre] that by auto
    qed
    have "file_write (data f1) (o2 + n) (slice (data f1) (o1 + n) (l - n)) = file_write ?d o2 (slice ?d o1 l)"
      unfolding rest using file_write_append [of ?d o2 "slice ?d o1 n"] slice_slice [of ?d o1 n "l - n"] n(2) len
      by (simp add: d1)
    then show ?thesis using step f2 becomes_trans [OF n(4) f2(2)] less.prems(1) n(2) by auto
  qed
qed

text \<open>A copy of a range within the file, by whatever call, keeps the state good.\<close>

lemma copied_range_ok:
  assumes P: "posix_fs sys cfg data past" and C: "cfg_ok cfg" and G: "good_state cfg data past s"
    and src: "off + n \<le> file_size s" and dst: "dst + n \<le> maxfilelen cfg" and lite: "\<not> lite cfg"
    and s1: "s1 = extended sys cfg dst n s" and sim: "\<not> live cfg s \<Longrightarrow> r = ret s1"
    and run: "live cfg s \<Longrightarrow> length (data (fsys s1)) = file_size s \<Longrightarrow>
      \<exists>f'. r = ret (s1\<lparr>fsys := f', good_buf := put_at (good_buf s1) dst (slice (good_buf s1) off n)\<rparr>) \<and>
        becomes data past (fsys s1) f' (file_write (data (fsys s1)) dst (slice (data (fsys s1)) off n))"
  shows "fsx_ok cfg data past s r"
proof -
  note g = good_stateD [OF G] and E = extended_good [OF P C G dst lite s1]
  let ?g = "put_at (good_buf s1) dst (slice (good_buf s1) off n)"
  show ?thesis
  proof (cases "live cfg s")
    case True
    obtain f' where f': "r = ret (s1\<lparr>fsys := f', good_buf := ?g\<rparr>)"
      "becomes data past (fsys s1) f' (file_write (data (fsys s1)) dst (slice (data (fsys s1)) off n))"
      using run [OF True] E(5) g(8) [OF True] by auto
    have "good_state cfg data past (s1\<lparr>fsys := f', good_buf := ?g\<rparr>)"
      by (rule E(2) [OF True f'(2)])
        (use copy_good [of off n "file_size s" dst "good_buf s"] src dst g E(5-8) True in simp_all)
    then show ?thesis using f'(1) E(3,4) by (auto intro: fsx_ok_ret)
  qed (use sim E(1,3,4) in \<open>auto intro: fsx_ok_ret\<close>)
qed

lemma do_clone_range_ok:
  assumes P: "posix_fs sys cfg data past" and C: "cfg_ok cfg" and G: "good_state cfg data past s"
    and src: "offset + n \<le> file_size s" and dst: "dest + n \<le> maxfilelen cfg" and dis: "disjoint_ranges offset dest n"
    and al: "offset mod block_size cfg = 0" "n mod block_size cfg = 0" "dest mod block_size cfg = 0" and lite: "\<not> lite cfg"
  shows "fsx_ok cfg data past s (do_clone_range sys cfg offset n dest s)"
proof (cases "n = 0")
  case True
  then show ?thesis using G by (auto simp: do_clone_range_def Let_def intro: fsx_ok_ret)
next
  case False
  then have n: "0 < n" by simp
  have w: "wrap32 (dest + n) = dest + n" using dst cfg_okD(7) [OF C] by simp
  define s0 where "s0 = log5 OP_CLONE_RANGE (c_int offset) (c_int n) (c_int dest) FL_NONE
    (if dest + n > biggest s then s\<lparr>biggest := dest + n\<rparr> else s)"
  have G0: "good_state cfg data past s0" and same: "testcalls s0 = testcalls s" "replayopsf s0 = replayopsf s" "file_size s0 = file_size s"
    using G by (simp_all add: s0_def)
  define s1 where "s1 = extended sys cfg dest n s0"
  note E = extended_good [OF P C G0 dst lite s1_def]
  have eq: "do_clone_range sys cfg offset n dest s = (if \<not> live cfg s0 then ret s1
      else check_call s1 (sys_clone_range sys (fsys s1) offset n dest) 161 (\<lambda>s.
        ret (s\<lparr>good_buf := put_at (good_buf s) dest (slice (good_buf s) offset n)\<rparr>)))"
    using n src E(3) unfolding do_clone_range_def Let_def w s0_def [symmetric] by (simp add: s1_def extended_def live_def)
  have "fsx_ok cfg data past s0 (do_clone_range sys cfg offset n dest s)"
    by (rule copied_range_ok [OF P C G0 _ dst lite s1_def])
      (use ranges_okD(2) [OF posix_fsD(6) [OF P] n _ dst dis al, of "fsys s1"] src same in \<open>auto simp: eq\<close>)
  then show ?thesis using same by (simp add: fsx_ok_def)
qed

lemma do_copy_range_ok:
  assumes P: "posix_fs sys cfg data past" and C: "cfg_ok cfg" and G: "good_state cfg data past s"
    and src: "offset + n \<le> file_size s" and dst: "dest + n \<le> maxfilelen cfg" and dis: "disjoint_ranges offset dest n"
    and lite: "\<not> lite cfg"
  shows "fsx_ok cfg data past s (do_copy_range sys cfg offset n dest s)"
proof (cases "n = 0")
  case True
  then show ?thesis using G by (auto simp: do_copy_range_def Let_def intro: fsx_ok_ret)
next
  case False
  then have n: "0 < n" by simp
  have w: "wrap32 (dest + n) = dest + n" using dst cfg_okD(7) [OF C] by simp
  define s0 where "s0 = log5 OP_COPY_RANGE (c_int offset) (c_int n) (c_int dest) FL_NONE
    (if dest + n > biggest s then s\<lparr>biggest := dest + n\<rparr> else s)"
  have G0: "good_state cfg data past s0" and same: "testcalls s0 = testcalls s" "replayopsf s0 = replayopsf s" "file_size s0 = file_size s"
    using G by (simp_all add: s0_def)
  define s1 where "s1 = extended sys cfg dest n s0"
  note E = extended_good [OF P C G0 dst lite s1_def]
  have eq: "do_copy_range sys cfg offset n dest s = (if \<not> live cfg s0 then ret s1
      else andthen (copy_loop sys offset dest n 0 s1) (\<lambda>s.
        ret (s\<lparr>good_buf := put_at (good_buf s) dest (slice (good_buf s) offset n)\<rparr>)))"
    using n src E(3) unfolding do_copy_range_def Let_def w s0_def [symmetric] by (simp add: s1_def extended_def live_def)
  have "fsx_ok cfg data past s0 (do_copy_range sys cfg offset n dest s)"
    by (rule copied_range_ok [OF P C G0 _ dst lite s1_def])
      (use copy_stream [OF posix_fsD(6) [OF P] _ dst dis n, of s1 0] src same in \<open>auto simp: eq\<close>)
  then show ?thesis using same by (simp add: fsx_ok_def)
qed

lemma do_dedupe_range_ok:
  assumes P: "posix_fs sys cfg data past" and G: "good_state cfg data past s"
    and src: "offset + n \<le> file_size s" and dst: "dest + n \<le> file_size s" and dis: "disjoint_ranges offset dest n"
    and al: "offset mod block_size cfg = 0" "n mod block_size cfg = 0" "dest mod block_size cfg = 0"
  shows "fsx_ok cfg data past s (do_dedupe_range sys cfg offset n dest s)"
proof (cases "n = 0 \<or> offset \<ge> file_size s \<or> \<not> live cfg s")
  case True
  then show ?thesis using G by (auto simp: do_dedupe_range_def Let_def simulated_iff intro: fsx_ok_ret)
next
  case False
  then have n: "0 < n" and L: "live cfg s" by auto
  note g = good_stateD [OF G]
  have src': "offset + n \<le> length (data (fsys s))" and dst': "dest + n \<le> maxfilelen cfg" "dest + n \<le> length (data (fsys s))"
    using src dst g(3,8) L by auto
  obtain f' where f': "sys_dedupe_range sys (fsys s) offset n dest = (f', Deduped)" "becomes data past (fsys s) f' (data (fsys s))"
    using ranges_okD(3) [OF posix_fsD(6) [OF P] n src' dst'(1) dis al dst'(2)] by blast
  then have "do_dedupe_range sys cfg offset n dest s =
      ret (log5 OP_DEDUPE_RANGE (c_int offset) (c_int n) (c_int dest) FL_NONE s\<lparr>fsys := f'\<rparr>)"
    using False by (simp add: do_dedupe_range_def Let_def simulated_iff)
  then show ?thesis using good_state_unchanged [of cfg data past "log5 OP_DEDUPE_RANGE (c_int offset) (c_int n) (c_int dest) FL_NONE s"] f'(2) G
    by (auto intro: fsx_ok_ret)
qed

lemma do_exchange_range_ok:
  assumes P: "posix_fs sys cfg data past" and G: "good_state cfg data past s"
    and src: "offset + n \<le> file_size s" and dst: "dest + n \<le> file_size s" and dis: "disjoint_ranges offset dest n"
    and al: "offset mod block_size cfg = 0" "n mod block_size cfg = 0" "dest mod block_size cfg = 0"
  shows "fsx_ok cfg data past s (do_exchange_range sys cfg offset n dest s)"
proof (cases "n = 0 \<or> offset \<ge> file_size s \<or> dest \<ge> file_size s \<or> \<not> live cfg s")
  case True
  then show ?thesis using G by (auto simp: do_exchange_range_def Let_def simulated_iff intro: fsx_ok_ret)
next
  case False
  then have n: "0 < n" and L: "live cfg s" by auto
  note g = good_stateD [OF G]
  have src': "offset + n \<le> length (data (fsys s))" and dst': "dest + n \<le> maxfilelen cfg" "dest + n \<le> length (data (fsys s))"
    using src dst g(3,8) L by auto
  obtain f' where f': "sys_exchange_range sys (fsys s) offset n dest = (f', True)"
      "becomes data past (fsys s) f' (file_exchange (data (fsys s)) offset n dest)"
    using ranges_okD(4) [OF posix_fsD(6) [OF P] n src' dst'(1) dis al dst'(2)] by blast
  define s0 where "s0 = log5 OP_EXCHANGE_RANGE (c_int offset) (c_int n) (c_int dest) FL_NONE s"
  define g' where "g' = put_at (put_at (good_buf s) offset (slice (good_buf s) dest n)) dest (slice (good_buf s) offset n)"
  have eq: "do_exchange_range sys cfg offset n dest s = ret (s0\<lparr>fsys := f', good_buf := g'\<rparr>)"
    using False f'(1) by (simp add: do_exchange_range_def Let_def simulated_iff g'_def s0_def)
  have d: "data f' = take (file_size s) g'"
    using becomes_data [OF f'(2)] g(1,3,7) L exchange_good [OF src dst, of "good_buf s"] by (simp add: g'_def)
  have len: "length g' = maxfilelen cfg" using src dst g(1,3) by (simp add: g'_def)
  have "becomes data past (fsys s) f' (data f')" using f'(2) becomes_data [OF f'(2)] by simp
  from becomes_cleared [OF this, of "file_size s"] have "cleared data past f'"
    using g(3,6,8) L d len by (simp add: cleared_zero_from)
  then have "good_state cfg data past (s0\<lparr>fsys := f', good_buf := g'\<rparr>)"
    using d len g by (intro good_stateI) (auto simp: s0_def)
  then show ?thesis unfolding eq by (rule fsx_ok_ret) (simp_all add: s0_def)
qed

lemma do_preallocate_ok:
  assumes P: "posix_fs sys cfg data past" and C: "cfg_ok cfg" and G: "good_state cfg data past s"
    and bnd: "offset + n \<le> maxfilelen cfg" and lite: "\<not> lite cfg"
  shows "fsx_ok cfg data past s (do_preallocate sys cfg offset n keep unshare s)"
proof (cases "n = 0")
  case True
  then show ?thesis using G by (auto simp: do_preallocate_def Let_def intro: fsx_ok_ret)
next
  case False
  then have n: "0 < n" by simp
  define e where "e = (if keep then 0 else offset + n)"
  define s0 where "s0 = log4 OP_FALLOCATE (c_int offset) (c_int n)
    ((if keep then {FL_KEEP_SIZE} else FL_NONE) \<union> (if unshare then {FL_UNSHARE} else FL_NONE))
    (if e > biggest s then s\<lparr>biggest := e\<rparr> else s)"
  have G0: "good_state cfg data past s0" and same: "testcalls s0 = testcalls s" "replayopsf s0 = replayopsf s" "file_size s0 = file_size s"
    using G by (simp_all add: s0_def)
  note g = good_stateD [OF G0]
  have w: "wrap32 (offset + n) = offset + n" using bnd cfg_okD(7) [OF C] by simp
  define g1 where "g1 = memset0 (good_buf s0) (file_size s0) (e - file_size s0)"
  define s1 where "s1 = (if e > file_size s0 then update_file_size sys cfg offset n (s0\<lparr>good_buf := g1\<rparr>) else s0)"
  obtain f' where f': "sys_fallocate sys (fsys s1) (FALLOC_DEFAULT keep unshare) offset n = (f', True)"
    "becomes data past (fsys s1) f' (if keep then data (fsys s1) else file_resize (data (fsys s1)) (max (length (data (fsys s1))) (offset + n)))"
    using fallocates_okD(1) [OF posix_fsD(5) [OF P] n bnd] by blast
  have eq: "do_preallocate sys cfg offset n keep unshare s =
      (if testcalls s1 \<le> simulatedopcount cfg then ret s1 else ret (s1\<lparr>fsys := f'\<rparr>))"
    using n f'(1) unfolding do_preallocate_def Let_def w e_def [symmetric] s0_def [symmetric] g1_def [symmetric] s1_def [symmetric]
    by simp
  show ?thesis
  proof (cases "e > file_size s0")
    case False
    then have s1: "s1 = s0" by (simp add: s1_def)
    have "file_resize (data (fsys s0)) (length (data (fsys s0))) = data (fsys s0)" by (simp add: file_resize_def)
    then have "becomes data past (fsys s0) f' (data (fsys s0))" if "live cfg s0"
      using f'(2) False g(8) [OF that] by (auto simp: e_def s1 max_def split: if_splits)
    then show ?thesis unfolding eq s1 using G0 same good_state_unchanged [OF G0] by (auto simp: live_def intro: fsx_ok_ret)
  next
    case True
    then have k: "\<not> keep" and e: "e = offset + n" by (auto simp: e_def split: if_splits)
    have g1: "length g1 = maxfilelen cfg" "take (file_size s0) g1 = take (file_size s0) (good_buf s0)"
      using True bnd g(1) by (auto simp: g1_def e memset0_def put_at_def)
    have G1: "good_state cfg data past (s0\<lparr>good_buf := g1\<rparr>)" using g g1 by (intro good_stateI) auto
    have s1: "s1 = extended sys cfg offset n (s0\<lparr>good_buf := g1\<rparr>)" using True by (simp add: s1_def extended_def e)
    note E = extended_good [OF P C G1 bnd lite s1]
    have "good_state cfg data past (s1\<lparr>fsys := f'\<rparr>)" if L: "live cfg s0"
    proof -
      have "file_resize (take (file_size s0) g1) (offset + n) = take (offset + n) (grow_gap g1 (file_size s0) offset)"
        by (rule nth_equalityI) (use True bnd g(1,3) g1(1) in \<open>auto simp: buf_simps e g1_def\<close>)
      then have "good_state cfg data past (s1\<lparr>fsys := f', good_buf := good_buf s1\<rparr>)"
        using L f'(2) k E(5-8) g(7,8) True g1 by (intro E(2)) (auto simp: e max_def)
      then show ?thesis by simp
    qed
    then show ?thesis unfolding eq using E(1,3,4) same by (auto simp: live_def intro: fsx_ok_ret)
  qed
qed

end
