(* ===== verification/Fsx_Run.thy ===== *)
theory Fsx_Run
  imports Fsx_Ranges
begin

text \<open>
  On a conforming file system the checks of \<open>src/ltp/fsx.c\<close> pass after every operation, the operation
  chosen at random is within bounds, one call of \<open>test\<close> returns, and so does the loop of \<open>main\<close>.
\<close>

section \<open>Syncing, reopening and the checks after an operation\<close>

lemma good_state_marks [simp]:
  "good_state cfg data past (s\<lparr>mark_nr := n\<rparr>) = good_state cfg data past s"
  by (simp add: good_state_def)

lemma dofsync_ok:
  assumes P: "posix_fs sys cfg data past" and G: "good_state cfg data past s"
  shows "fsx_ok cfg data past s (dofsync sys cfg s)"
proof (cases "live cfg s")
  case False
  then show ?thesis using G by (simp add: dofsync_def simulated_iff fsx_ok_ret)
next
  case True
  note Y = syncs_okD [OF posix_fsD(8) [OF P]]
  define s0 where "s0 = log4 OP_FSYNC 0 0 FL_NONE s"
  have G0: "good_state cfg data past s0" using G by (simp add: s0_def)
  obtain f1 where f1: "sys_fsync sys (fsys s0) = (f1, True)" "becomes data past (fsys s0) f1 (data (fsys s0))" using Y(1) by blast
  have G1: "good_state cfg data past (s0\<lparr>fsys := f1\<rparr>)" by (rule good_state_unchanged [OF G0 f1(2)])
  obtain f2 where f2: "sys_mark_log sys f1 (mark_nr s0) = (f2, True)" "becomes data past f1 f2 (data f1)" using Y(5) by blast
  have G2: "good_state cfg data past (s0\<lparr>fsys := f2\<rparr>)" using good_state_unchanged [OF G1, of f2] f2(2) by simp
  obtain f3 where f3: "sys_dump_buffer sys f2 (mark_nr s0) (take (file_size s0) (good_buf s0)) = (f3, True)"
    "becomes data past f2 f3 (data f2)" using Y(6) by blast
  have G3: "good_state cfg data past (s0\<lparr>fsys := f3\<rparr>)" using good_state_unchanged [OF G2, of f3] f3(2) by simp
  have "dofsync sys cfg s = ret (s0\<lparr>fsys := f3, mark_nr := mark_nr s0 + 1\<rparr>)"
    using True f1(1) f2(1) f3(1)
    by (simp add: dofsync_def simulated_iff s0_def [symmetric] mark_log_def dump_fsync_buffer_def)
  then show ?thesis using G3 by (auto simp: s0_def intro: fsx_ok_ret)
qed

lemma docloseopen_ok:
  assumes P: "posix_fs sys cfg data past" and G: "good_state cfg data past s"
  shows "fsx_ok cfg data past s (docloseopen sys cfg s)"
proof (cases "live cfg s")
  case False
  then show ?thesis using G by (simp add: docloseopen_def simulated_iff fsx_ok_ret)
next
  case True
  note Y = syncs_okD [OF posix_fsD(8) [OF P]]
  obtain f1 where f1: "sys_close sys (fsys s) = (f1, True)" "becomes data past (fsys s) f1 (data (fsys s))" using Y(2) by blast
  have G1: "good_state cfg data past (s\<lparr>fsys := f1\<rparr>)" by (rule good_state_unchanged [OF G f1(2)])
  obtain f2 where f2: "sys_drop_caches sys f1 = (f2, True)" "becomes data past f1 f2 (data f1)" using Y(3) by blast
  have G2: "good_state cfg data past (s\<lparr>fsys := f2\<rparr>)" using good_state_unchanged [OF G1, of f2] f2(2) by simp
  obtain f3 where f3: "sys_open sys f2 = (f3, True)" "becomes data past f2 f3 (data f2)" using Y(4) by blast
  have G3: "good_state cfg data past (s\<lparr>fsys := f3\<rparr>)" using good_state_unchanged [OF G2, of f3] f3(2) by simp
  have "docloseopen sys cfg s = ret (s\<lparr>fsys := f3\<rparr>)"
    using True f1(1) f2(1) f3(1) by (simp add: docloseopen_def simulated_iff)
  then show ?thesis using G3 by (auto intro: fsx_ok_ret)
qed

lemma check_size_ok:
  assumes "posix_fs sys cfg data past" and "good_state cfg data past s" and "live cfg s"
  shows "check_size sys s = ret s"
  using syncs_okD(7,8) [OF posix_fsD(8) [OF assms(1)]] good_stateD(8) [OF assms(2,3)] by (simp add: check_size_def)

lemma last_map_offset:
  assumes "0 < sz" and "0 < (ps :: nat)" and "m = (if sz - sz mod ps = sz then sz - sz mod ps - ps else sz - sz mod ps)"
  shows "m < sz" "m mod ps = 0"
proof -
  have "sz mod ps = 0 \<Longrightarrow> ps \<le> sz" using assms(1) by (simp add: mod_eq_0_iff_dvd dvd_imp_le)
  moreover have "sz mod ps \<le> sz" by simp
  ultimately show "m < sz" using assms by (auto simp: assms(3))
  have sub: "(x - ps) mod ps = 0" if "x mod ps = 0" for x
    using that by (cases "ps \<le> x") (auto simp: mod_if [of x] le_mod_geq)
  have "(sz - sz mod ps) mod ps = 0" by simp
  then show "m mod ps = 0" unfolding assms(3) using sub [of "sz - sz mod ps"] by (simp only: split: if_splits) blast
qed

lemma check_contents_ok:
  assumes P: "posix_fs sys cfg data past" and C: "cfg_ok cfg" and G: "good_state cfg data past s" and L: "live cfg s"
  shows "fsx_ok cfg data past s (check_contents sys cfg s)"
proof -
  note g = good_stateD [OF G] and pg = cfg_okD(5) [OF C]
  have small: "file_size s < 2 ^ 31" using g(3) cfg_okD(7) [OF C] by simp
  define sz where "sz = (if o_direct cfg then file_size s - file_size s mod readbdy cfg else file_size s)"
  have sz: "sz \<le> file_size s" by (simp add: sz_def)
  have w: "wrap32 (file_size s) = file_size s" using small by simp
  show ?thesis
  proof (cases "sz = 0")
    case True
    then show ?thesis using G by (simp add: check_contents_def Let_def w sz_def [symmetric] fsx_ok_ret)
  next
    case False
    define m where "m = (if sz - sz mod page_size cfg = sz then sz - sz mod page_size cfg - page_size cfg else sz - sz mod page_size cfg)"
    have m: "m < sz" "m mod page_size cfg = 0" using last_map_offset [OF _ page_offset(3) [OF pg] m_def] False by auto
    obtain f1 where f1: "fsxread sys cfg (fsys s) sz 0 RWF_NONE = Some (f1, Some (slice (data (fsys s)) 0 sz))"
        "becomes data past (fsys s) f1 (data (fsys s))"
      using fsxread_ok [OF posix_fsD(1) [OF P], of sz 0 "fsys s" cfg RWF_NONE] False sz g(8) [OF L] small by auto
    have G1: "good_state cfg data past (s\<lparr>fsys := f1\<rparr>)" by (rule good_state_unchanged [OF G f1(2)])
    have buf: "slice (data (fsys s)) 0 sz = slice (good_buf s) 0 sz" using g(7) [OF L] sz by (simp add: slice_take)
    have len: "length (slice (good_buf s) 0 sz) = sz" using sz g(1,3) by simp
    obtain f2 where f2: "sys_mmap sys f1 m (sz - m) = (f2, True)" "good_state cfg data past (s\<lparr>fsys := f2\<rparr>)"
      using map_call_ok(1) [OF P C G1, of m "sz - m"] L m sz by auto
    have eof: "check_eofpage sys cfg m m (sz - m) (s\<lparr>fsys := f2\<rparr>) = ret (s\<lparr>fsys := f2\<rparr>)"
      using good_check_eofpage [OF P C f2(2), of m "sz - m" m] L m sz by simp
    obtain f3 where f3: "sys_munmap sys f2 m (sz - m) = (f3, True)" "good_state cfg data past (s\<lparr>fsys := f3\<rparr>)"
      using map_call_ok(3) [OF P C f2(2), of m "sz - m"] L m sz by auto
    have "check_contents sys cfg s = ret (s\<lparr>fsys := f3\<rparr>)"
      using False f1(1) f2(1) f3(1) eof buf len check_buffers_ok [of "s\<lparr>fsys := f1\<rparr>" 0 sz]
      by (simp add: check_contents_def Let_def w sz_def [symmetric] page_offset(1) [OF pg] m_def [symmetric])
    then show ?thesis using f3(2) by (auto intro: fsx_ok_ret)
  qed
qed

lemma after_op_ok:
  assumes P: "posix_fs sys cfg data past" and C: "cfg_ok cfg" and G: "good_state cfg data past s"
  shows "fsx_ok cfg data past s (after_op sys cfg check s)"
  unfolding after_op_def
proof (rule fsx_ok_andthen, goal_cases)
  case 1
  then show ?case using check_contents_ok [OF P C G] G by (auto simp: live_def intro: fsx_ok_ret)
next
  case (2 s1)
  show ?case
  proof (rule fsx_ok_andthen, goal_cases)
    case 1
    then show ?case using docloseopen_ok [OF P 2(1)] 2(1) by (auto intro: fsx_ok_ret)
  next
    case (2 s2)
    then show ?case using check_size_ok [OF P 2(1)] by (auto simp: live_def intro: fsx_ok_ret)
  qed
qed

text \<open>The image written at the end of the simulated part of a run makes the file what the good buffer says.\<close>

lemma writefileimage_ok:
  assumes P: "posix_fs sys cfg data past" and G: "good_state cfg data past s"
  shows "\<exists>f'. writefileimage sys cfg s = ret (s\<lparr>fsys := f'\<rparr>) \<and> data f' = take (file_size s) (good_buf s) \<and> cleared data past f'"
proof -
  note g = good_stateD [OF G]
  let ?b = "take (file_size s) (good_buf s)"
  have len: "length ?b = file_size s" using g(1,3) by simp
  obtain f1 f2 where f1: "sys_lseek_set sys (fsys s) = (f1, True)" "becomes data past (fsys s) f1 (data (fsys s))"
    and f2: "sys_write sys f1 ?b = (f2, Some (file_size s))" "becomes data past f1 f2 (file_write (data f1) 0 ?b)"
    using image_okD [OF posix_fsD(3) [OF P], of "fsys s"] len g(3) by (metis (no_types, lifting))
  have d2: "data f2 = ?b @ drop (file_size s) (data (fsys s))"
    using becomes_data [OF f1(2)] becomes_data [OF f2(2)] len by (simp add: file_write_def)
  have c1: "cleared data past f1" using becomes_cleared [OF f1(2), of "length (data (fsys s))"] g(6) by (simp add: cleared_zero_from)
  have c2: "cleared data past f2"
    using becomes_cleared [OF f2(2), of "length (data f1)"] c1 by (simp add: cleared_zero_from)
  show ?thesis
  proof (cases "lite cfg")
    case True
    then have "data f2 = ?b" using d2 g(4,5) by simp
    then show ?thesis using True f1(1) f2(1) c2 by (auto simp: writefileimage_def)
  next
    case False
    obtain f3 where f3: "sys_ftruncate sys f2 (file_size s) = (f3, True)" "becomes data past f2 f3 (file_resize (data f2) (file_size s))"
      "file_size s < length (data f2) \<longrightarrow> cleared data past f3"
      using truncates_okD [OF posix_fsD(4) [OF P] g(3)] by blast
    have "data f3 = ?b" using becomes_data [OF f3(2)] d2 len by (simp add: file_resize_def)
    moreover have "cleared data past f3"
      using f3(3) becomes_cleared [OF f3(2), of "length (data f2)"] c2 d2 len
      by (cases "file_size s < length (data f2)") (simp_all add: cleared_zero_from)
    ultimately show ?thesis using False f1(1) f2(1) f3(1) by (auto simp: writefileimage_def)
  qed
qed

section \<open>Ranges\<close>

lemma TRIM_OFF_less: "0 < n \<Longrightarrow> TRIM_OFF off n < n"
  by (simp add: TRIM_OFF_def)

lemma TRIM_OFF_le: "TRIM_OFF off n \<le> n"
  by (cases "n = 0") (simp_all add: TRIM_OFF_def less_imp_le)

lemma TRIM_range:
  assumes "off \<le> m" and "m < 2 ^ 63" and "n < 2 ^ 63"
  shows "off + TRIM_LEN off n m \<le> m" and "TRIM_LEN off n m \<le> n"
  using assms by (auto simp: TRIM_LEN_def)

lemma rounddown_64_le: "rounddown_64 x y \<le> x"
  by (simp add: rounddown_64_def)

lemma rounddown_64_mod [simp]: "rounddown_64 x y mod y = 0"
  by (simp add: rounddown_64_def)

lemma range_overlaps_iff:
  assumes "a < 2 ^ 63" and "b < 2 ^ 63"
  shows "range_overlaps a b n \<longleftrightarrow> \<not> disjoint_ranges a b n \<and> 0 < n"
proof (cases "a \<le> b")
  case True
  then show ?thesis using assms by (auto simp: range_overlaps_def Let_def disjoint_ranges_def)
next
  case False
  then have "sub64 b a = 2 ^ 64 - (a - b)" using assms by (simp add: sub64_def wrap64_def)
  then show ?thesis using assms False by (auto simp: range_overlaps_def Let_def disjoint_ranges_def)
qed

lemma next_random_frame [simp]:
  "fst (next_random sys s) = sys_random sys (random_ix s)" "snd (next_random sys s) = s\<lparr>random_ix := random_ix s + 1\<rparr>"
  by (simp_all add: next_random_def)

lemma random_ix_same: "\<exists>k. s = s\<lparr>random_ix := k\<rparr>"
  by (rule exI [of _ "random_ix s"]) simp

lemma dest_loop_spec:
  assumes "dest_loop sys al lim src n dst tries s = (n', dst', s')" and "lim < 2 ^ 63" and "src < 2 ^ 63" and "n < 2 ^ 63"
  shows "\<exists>k. s' = s\<lparr>random_ix := k\<rparr>"
    and "n' = 0 \<or> (n' = n \<and> dst' mod al = 0 \<and> dst' + n \<le> lim \<and> disjoint_ranges src dst' n)"
proof -
  have "(\<exists>k. s' = s\<lparr>random_ix := k\<rparr>) \<and> (n' = 0 \<or> (n' = n \<and> dst' mod al = 0 \<and> dst' + n \<le> lim \<and> disjoint_ranges src dst' n))"
    using assms
  proof (induction sys al lim src n dst tries s rule: dest_loop.induct)
    case (1 sys al lim src n dst tries s)
    define d where "d = rounddown_64 (TRIM_OFF (sys_random sys (random_ix s)) lim) al"
    have d: "d \<le> lim" "d mod al = 0" using order_trans [OF rounddown_64_le TRIM_OFF_le] by (auto simp: d_def)
    have w: "wrap64 (d + n) = d + n" using d(1) 1(3,5) by simp
    show ?case
    proof (cases "tries < 30 \<and> (range_overlaps src d n \<or> d + n > lim)")
      case True
      then show ?thesis using 1(1) [OF _ d_def [unfolded next_random_frame(1) [symmetric]] refl] 1(2-5)
        by (subst (asm) (2) dest_loop.simps) (auto simp: Let_def d_def [symmetric] w)
    next
      case False
      then show ?thesis using 1(2) range_overlaps_iff [of src d n] 1(3-5) d
        by (subst (asm) dest_loop.simps) (auto simp: Let_def d_def [symmetric] w random_ix_same split: if_splits)
    qed
  qed
  then show "\<exists>k. s' = s\<lparr>random_ix := k\<rparr>"
    and "n' = 0 \<or> (n' = n \<and> dst' mod al = 0 \<and> dst' + n \<le> lim \<and> disjoint_ranges src dst' n)" by blast+
qed

text \<open>What a destination search delivers: nothing to do, or a destination apart from the source and in bounds.\<close>

lemma generate_dest_range_spec:
  assumes run: "generate_dest_range sys cfg bdy lim src n dst s = (src', n', dst', s')"
    and "lim < 2 ^ 31" and "file_size s < 2 ^ 31" and "n < 2 ^ 63"
  shows "\<exists>k. s' = s\<lparr>random_ix := k\<rparr>"
    and "n' = 0 \<or> (src' + n' \<le> file_size s \<and> n' \<le> n \<and> dst' + n' \<le> lim \<and> disjoint_ranges src' dst' n' \<and>
      (if bdy then src' mod readbdy cfg = 0 \<and> dst' mod writebdy cfg = 0
       else src' mod block_size cfg = 0 \<and> n' mod block_size cfg = 0 \<and> dst' mod block_size cfg = 0))"
proof -
  define s0 where "s0 = TRIM_OFF src (file_size s)"
  define n0 where "n0 = TRIM_LEN s0 n (file_size s)"
  define s1 where "s1 = rounddown_64 s0 (if bdy then readbdy cfg else block_size cfg)"
  define n1 where "n1 = (if bdy then if o_direct cfg then rounddown_64 n0 (readbdy cfg) else n0 else rounddown_64 n0 (block_size cfg))"
  have b0: "s0 + n0 \<le> file_size s" "n0 \<le> n" using TRIM_range [of s0 "file_size s" n] TRIM_OFF_le [of src "file_size s"] assms(3,4)
    by (auto simp: s0_def n0_def)
  have b1: "s1 \<le> s0" "n1 \<le> n0" using rounddown_64_le by (auto simp: s1_def n1_def)
  have loop: "src' = s1" "dest_loop sys (if bdy then writebdy cfg else block_size cfg) lim s1 n1 dst 0 s = (n', dst', s')"
    using run unfolding generate_dest_range_def Let_def s0_def [symmetric] n0_def [symmetric] s1_def [symmetric] n1_def [symmetric]
    by (auto split: prod.splits)
  have small: "lim < 2 ^ 63" "s1 < 2 ^ 63" "n1 < 2 ^ 63" using b0 b1 assms(2-4) by auto
  note D = dest_loop_spec [OF loop(2) small]
  show "\<exists>k. s' = s\<lparr>random_ix := k\<rparr>" by (rule D(1))
  show "n' = 0 \<or> (src' + n' \<le> file_size s \<and> n' \<le> n \<and> dst' + n' \<le> lim \<and> disjoint_ranges src' dst' n' \<and>
      (if bdy then src' mod readbdy cfg = 0 \<and> dst' mod writebdy cfg = 0
       else src' mod block_size cfg = 0 \<and> n' mod block_size cfg = 0 \<and> dst' mod block_size cfg = 0))"
    using D(2) b0 b1 loop(1) by (auto simp: s1_def n1_def split: if_splits)
qed

section \<open>The chosen operation\<close>

definition two_ranges_ok :: "nat \<Rightarrow> nat \<Rightarrow> test_op \<Rightarrow> bool" where
  "two_ranges_ok src_end dst_end t \<longleftrightarrow> t_size t = 0 \<or>
     (t_offset t + t_size t \<le> src_end \<and> t_offset2 t + t_size t \<le> dst_end \<and> disjoint_ranges (t_offset t) (t_offset2 t) (t_size t))"

definition blocks_ok :: "fsx_cfg \<Rightarrow> test_op \<Rightarrow> bool" where
  "blocks_ok cfg t \<longleftrightarrow> t_size t = 0 \<or>
     (t_offset t mod block_size cfg = 0 \<and> t_size t mod block_size cfg = 0 \<and> t_offset2 t mod block_size cfg = 0)"

definition lite_op :: "fsx_op \<Rightarrow> bool" where
  "lite_op op \<longleftrightarrow> op \<in> {OP_READ, OP_READ_DONTCACHE, OP_WRITE, OP_WRITE_DONTCACHE, OP_WRITE_ATOMIC, OP_MAPREAD, OP_MAPWRITE}"

definition op_fits :: "fsx_cfg \<Rightarrow> nat \<Rightarrow> test_op \<Rightarrow> bool" where
  "op_fits cfg fsz t \<longleftrightarrow> t_size t < 2 ^ 31 \<and> (lite cfg \<longrightarrow> lite_op (t_op t)) \<and>
     (case t_op t of
        OP_TRUNCATE \<Rightarrow> t_size t \<le> maxfilelen cfg
      | OP_CLONE_RANGE \<Rightarrow> two_ranges_ok fsz (maxfilelen cfg) t \<and> blocks_ok cfg t
      | OP_COPY_RANGE \<Rightarrow> two_ranges_ok fsz (maxfilelen cfg) t
      | OP_DEDUPE_RANGE \<Rightarrow> two_ranges_ok fsz fsz t \<and> blocks_ok cfg t
      | OP_EXCHANGE_RANGE \<Rightarrow> two_ranges_ok fsz fsz t \<and> blocks_ok cfg t
      | _ \<Rightarrow> True)"

lemma lite_op_nth: "i < 7 \<Longrightarrow> lite_op (fsx_ops ! i)"
proof -
  assume "i < 7"
  then have "fsx_ops ! i = take 7 fsx_ops ! i" by simp
  moreover have "i < length (take 7 fsx_ops)" using \<open>i < 7\<close> by (simp add: fsx_ops_def)
  ultimately have "fsx_ops ! i \<in> set (take 7 fsx_ops)" using nth_mem by metis
  moreover have "set (take 7 fsx_ops) \<subseteq> {op. lite_op op}" by (auto simp: fsx_ops_def lite_op_def)
  ultimately show ?thesis by blast
qed

lemma choose_op_lite: "lite cfg \<Longrightarrow> lite_op (choose_op cfg rv)"
  by (simp add: choose_op_def OP_MAX_LITE_def lite_op_nth)

definition random_frame :: "'f fsx \<Rightarrow> 'f fsx \<Rightarrow> bool" where
  "random_frame s s' \<longleftrightarrow> s' = s\<lparr>random_ix := random_ix s', closeopen := closeopen s'\<rparr>"

lemma random_frame_simps:
  assumes "random_frame s s'"
  shows "good_state cfg data past s' = good_state cfg data past s" "file_size s' = file_size s" "testcalls s' = testcalls s"
    "replayopsf s' = replayopsf s"
  using assms by (cases s; cases s'; simp add: random_frame_def good_state_def)+

lemma random_frame_intros:
  "random_frame s s" "random_frame s0 s \<Longrightarrow> random_frame s0 (s\<lparr>random_ix := k\<rparr>)"
  "random_frame s0 s \<Longrightarrow> random_frame s0 (s\<lparr>closeopen := c\<rparr>)"
  by (cases s; cases s0; simp add: random_frame_def)+

lemma dest_range_op_fits:
  assumes run: "dest_range_op sys cfg bdy lim t s = (t', s')"
    and "lim < 2 ^ 31" and "file_size s < 2 ^ 31" and "t_size t < 2 ^ 31"
  shows "\<exists>k. s' = s\<lparr>random_ix := k\<rparr>" and "t_op t' = t_op t" and "t_size t' < 2 ^ 31"
    and "two_ranges_ok (file_size s) lim t'" and "\<not> bdy \<Longrightarrow> blocks_ok cfg t'"
proof -
  obtain src n dst where g: "generate_dest_range sys cfg bdy lim (t_offset t) (t_size t) (t_offset2 t) s = (src, n, dst, s')"
    "t' = t\<lparr>t_offset := src, t_size := n, t_offset2 := dst\<rparr>"
    using run by (auto simp: dest_range_op_def split: prod.splits)
  have "t_size t < 2 ^ 63" using assms(4) by simp
  note R = generate_dest_range_spec [OF g(1) assms(2,3) this]
  show "\<exists>k. s' = s\<lparr>random_ix := k\<rparr>" by (rule R(1))
  show "t_op t' = t_op t" "t_size t' < 2 ^ 31" "two_ranges_ok (file_size s) lim t'" "\<not> bdy \<Longrightarrow> blocks_ok cfg t'"
    using R(2) g(2) assms(4) by (auto simp: two_ranges_ok_def blocks_ok_def)
qed

lemma next_random_eq: "next_random sys s = (sys_random sys (random_ix s), s\<lparr>random_ix := random_ix s + 1\<rparr>)"
  by (simp add: next_random_def)

lemma random_args_fits:
  assumes run: "random_args sys cfg t s = (t', s')" and C: "cfg_ok cfg" and fs: "file_size s \<le> maxfilelen cfg"
    and sz: "t_size t < 2 ^ 31" and lite: "lite cfg \<Longrightarrow> lite_op (t_op t)" and fr: "random_frame s0 s"
  shows "op_fits cfg (file_size s) t' \<and> random_frame s0 s'"
proof -
  have small: "maxfilelen cfg < 2 ^ 31" "file_size s < 2 ^ 31" and st: "\<not> style cfg" "0 < maxfilelen cfg"
    using cfg_okD [OF C] fs by auto
  have range: "op_fits cfg (file_size s) t' \<and> random_frame s0 s'"
    if "dest_range_op sys cfg (t_op t = OP_COPY_RANGE) (if t_op t \<in> {OP_CLONE_RANGE, OP_COPY_RANGE} then maxfilelen cfg else file_size s) t s = (t', s')"
      "t_op t \<in> {OP_CLONE_RANGE, OP_COPY_RANGE, OP_DEDUPE_RANGE, OP_EXCHANGE_RANGE}"
  proof -
    have "(if t_op t \<in> {OP_CLONE_RANGE, OP_COPY_RANGE} then maxfilelen cfg else file_size s) < 2 ^ 31" using small by simp
    note D = dest_range_op_fits [OF that(1) this small(2) sz]
    obtain k where "s' = s\<lparr>random_ix := k\<rparr>" using D(1) by blast
    then show ?thesis using D(2-5) that(2) lite fr by (auto simp: op_fits_def random_frame_intros)
  qed
  show ?thesis
  proof (cases "t_op t \<in> {OP_CLONE_RANGE, OP_COPY_RANGE, OP_DEDUPE_RANGE, OP_EXCHANGE_RANGE}")
    case True
    then show ?thesis using run range by (auto simp: random_args_def)
  next
    case False
    then show ?thesis using run sz lite fr small st
      by (auto simp: random_args_def op_fits_def next_random_eq Let_def random_frame_intros less_imp_le
          intro: less_trans [OF mod_less_divisor] split: fsx_op.splits if_splits)
  qed
qed

lemma random_op_fits:
  assumes run: "random_op sys cfg s = (t, s')" and C: "cfg_ok cfg" and fs: "file_size s \<le> maxfilelen cfg"
  shows "op_fits cfg (file_size s) t \<and> random_frame s s'"
proof -
  obtain rv off sz s1 where r: "random_args sys cfg \<lparr>t_op = choose_op cfg rv, t_offset = off, t_size = sz, t_offset2 = 0,
      t_keep_size = False, t_unshare = False\<rparr> s1 = (t, s')" "random_frame s s1" "sz < 2 ^ 31"
  proof -
    have "r mod Suc (maxoplen cfg) < 2147483648" for r
      using cfg_okD(8) [OF C] le_less_trans [OF less_Suc_eq_le [THEN iffD1, OF mod_less_divisor]] by auto
    then show ?thesis using run that cfg_okD(8) [OF C]
      by (fastforce simp: random_op_def next_random_eq Let_def random_frame_intros split: if_splits)
  qed
  then show ?thesis using random_args_fits [OF r(1) C _ _ _ r(2)] random_frame_simps(2) [OF r(2)] fs choose_op_lite by simp
qed

section \<open>One call of test\<close>

definition op_ok :: "fsx_cfg \<Rightarrow> ('f \<Rightarrow> bytes) \<Rightarrow> ('f \<Rightarrow> nat \<Rightarrow> u8) \<Rightarrow> 'f fsx \<Rightarrow> ('f, bool \<times> 'f fsx) fsx_result \<Rightarrow> bool" where
  "op_ok cfg data past s r \<longleftrightarrow> (\<exists>c s'. r = ret (c, s') \<and> fsx_ok cfg data past s (ret s'))"

lemma ret_inject [simp]: "ret x = ret y \<longleftrightarrow> x = y"
  by (simp add: ret_def)

lemma op_ok_go_on: "fsx_ok cfg data past s r \<Longrightarrow> op_ok cfg data past s (go_on r)"
  by (auto simp: fsx_ok_def op_ok_def go_on_def)

lemma op_ok_skip:
  "good_state cfg data past s \<Longrightarrow> op_ok cfg data past s (ret (c, log4 op a b fl s))"
  "good_state cfg data past s \<Longrightarrow> op_ok cfg data past s (ret (c, log_skipped op off n off2 s))"
  by (auto simp: op_ok_def log_skipped_def intro: fsx_ok_ret)

lemma trimmed:
  assumes "m < 2 ^ 31" and "n < 2 ^ 31" and "off = TRIM_OFF x m" and "len = TRIM_LEN off n m"
  shows "off + len \<le> m" "wrap32 off = off" "wrap32 len = len"
proof -
  have o: "off \<le> m" using TRIM_OFF_le by (simp add: assms(3))
  have small: "m < 2 ^ 63" "n < 2 ^ 63" using assms(1,2) by auto
  show "off + len \<le> m" unfolding assms(4) by (rule TRIM_range(1) [OF o small])
  have "len \<le> n" unfolding assms(4) by (rule TRIM_range(2) [OF o small])
  then show "wrap32 off = off" "wrap32 len = len" using o assms(1,2) by auto
qed

lemma two_range_op_ok:
  assumes G: "good_state cfg data past s" and m: "maxfilelen cfg < 2 ^ 31" and t: "two_ranges_ok (file_size s) lim t" "lim \<le> maxfilelen cfg"
    and run: "\<And>off n off2. off = t_offset t \<Longrightarrow> n = t_size t \<Longrightarrow> off2 = t_offset2 t \<Longrightarrow> off + n \<le> file_size s \<Longrightarrow>
      off2 + n \<le> lim \<Longrightarrow> disjoint_ranges off off2 n \<Longrightarrow> 0 < n \<Longrightarrow> fsx_ok cfg data past s (f off n off2 s)"
  shows "op_ok cfg data past s (two_range_op cfg op f (t_offset t) (t_size t) (t_offset2 t) s)"
proof (cases "t_size t = 0")
  case True
  then show ?thesis by (simp add: two_range_op_def op_ok_skip G)
next
  case False
  then have r: "t_offset t + t_size t \<le> file_size s" "t_offset2 t + t_size t \<le> lim" "disjoint_ranges (t_offset t) (t_offset2 t) (t_size t)"
    using t(1) by (auto simp: two_ranges_ok_def)
  have "wrap64 (t_offset2 t + t_size t) = t_offset2 t + t_size t" "wrap32 (t_offset t) = t_offset t" "wrap32 (t_size t) = t_size t"
    "wrap32 (t_offset2 t) = t_offset2 t" using r(1,2) m t(2) good_stateD(3) [OF G] by auto
  then show ?thesis using False r t(2) run [OF refl refl refl r] by (simp add: two_range_op_def op_ok_go_on)
qed

lemma run_op_collapse_ok:
  assumes P: "posix_fs sys cfg data past" and C: "cfg_ok cfg" and G: "good_state cfg data past s"
    and sz: "t_size t < 2 ^ 31" and lite: "\<not> lite cfg"
  shows "op_ok cfg data past s (run_op sys cfg OP_COLLAPSE_RANGE t s)"
proof -
  have fs: "file_size s \<le> maxfilelen cfg" "maxfilelen cfg < 2 ^ 31" using good_stateD(3) [OF G] cfg_okD(7) [OF C] by auto
  define lim where "lim = sub64 (file_size s) 1"
  define off where "off = rounddown_64 (TRIM_OFF (t_offset t) lim) (block_size cfg)"
  define n where "n = rounddown_64 (TRIM_LEN (TRIM_OFF (t_offset t) lim) (t_size t) lim) (block_size cfg)"
  have run: "run_op sys cfg OP_COLLAPSE_RANGE t s = (if n = 0 then ret (False, log4 OP_COLLAPSE_RANGE (c_int off) (c_int n) {FL_SKIPPED} s)
      else go_on (do_collapse_range sys cfg (wrap32 off) (wrap32 n) s))"
    by (simp add: run_op_def Let_def lim_def n_def off_def)
  show ?thesis
  proof (cases "n = 0 \<or> file_size s = 0")
    case True
    have "op_ok cfg data past s (go_on (do_collapse_range sys cfg (wrap32 off) (wrap32 n) s))" if "file_size s = 0"
      using G that by (auto simp: do_collapse_range_def Let_def intro!: op_ok_go_on fsx_ok_ret)
    then show ?thesis using True G by (auto simp: run op_ok_skip)
  next
    case False
    then have lim: "lim < 2 ^ 31" "lim \<le> maxfilelen cfg" using fs by (auto simp: lim_def)
    have "TRIM_OFF (t_offset t) lim + TRIM_LEN (TRIM_OFF (t_offset t) lim) (t_size t) lim \<le> lim"
      by (rule trimmed(1) [OF lim(1) sz refl refl])
    then have b: "off + n \<le> lim" unfolding off_def n_def by (rule order_trans [OF add_mono [OF rounddown_64_le rounddown_64_le]])
    have al: "off mod block_size cfg = 0" "n mod block_size cfg = 0" by (simp_all add: off_def n_def)
    have "wrap32 off = off" "wrap32 n = n" using b lim by auto
    then show ?thesis using False b lim(2) do_collapse_range_ok [OF P C G _ al lite]
      by (simp add: run op_ok_go_on)
  qed
qed

lemma run_op_insert_ok:
  assumes P: "posix_fs sys cfg data past" and C: "cfg_ok cfg" and G: "good_state cfg data past s"
    and sz: "t_size t < 2 ^ 31" and lite: "\<not> lite cfg"
  shows "op_ok cfg data past s (run_op sys cfg OP_INSERT_RANGE t s)"
proof -
  have fs: "file_size s \<le> maxfilelen cfg" "maxfilelen cfg < 2 ^ 31" using good_stateD(3) [OF G] cfg_okD(7) [OF C] by auto
  define off where "off = rounddown_64 (TRIM_OFF (t_offset t) (file_size s)) (block_size cfg)"
  define n where "n = rounddown_64 (TRIM_LEN (file_size s) (t_size t) (maxfilelen cfg)) (block_size cfg)"
  have "file_size s + TRIM_LEN (file_size s) (t_size t) (maxfilelen cfg) \<le> maxfilelen cfg"
    by (rule TRIM_range(1)) (use fs sz in auto)
  then have b: "file_size s + n \<le> maxfilelen cfg" using rounddown_64_le [of "TRIM_LEN (file_size s) (t_size t) (maxfilelen cfg)"] 
    unfolding n_def by (meson add_le_cancel_left le_trans)
  have o: "off \<le> file_size s" unfolding off_def by (rule order_trans [OF rounddown_64_le TRIM_OFF_le])
  have w: "wrap64 (file_size s + n) = file_size s + n" "wrap32 off = off" "wrap32 n = n" using b o fs by auto
  have "run_op sys cfg OP_INSERT_RANGE t s = (if n = 0 \<or> wrap64 (file_size s + n) > maxfilelen cfg
      then ret (False, log4 OP_INSERT_RANGE (c_int off) (c_int n) {FL_SKIPPED} s)
      else go_on (do_insert_range sys cfg (wrap32 off) (wrap32 n) s))"
    by (simp add: run_op_def Let_def n_def off_def)
  moreover have "off mod block_size cfg = 0" "n mod block_size cfg = 0" by (simp_all add: off_def n_def)
  ultimately show ?thesis using b G do_insert_range_ok [OF P C G b _ _ lite] by (simp add: w op_ok_skip op_ok_go_on)
qed

lemma run_op_ok:
  assumes P: "posix_fs sys cfg data past" and C: "cfg_ok cfg" and G: "good_state cfg data past s"
    and fit: "op_fits cfg (file_size s) t" and op: "t_op t = op \<or> (op = OP_READ \<and> t_op t = OP_MAPREAD) \<or> (op = OP_WRITE \<and> t_op t = OP_MAPWRITE)"
    and en: "\<not> disabled_op cfg op"
  shows "op_ok cfg data past s (run_op sys cfg op t s)"
proof -
  have fs: "file_size s \<le> maxfilelen cfg" and m: "maxfilelen cfg < 2 ^ 31" and sz: "t_size t < 2 ^ 31"
    using good_stateD(3) [OF G] cfg_okD(7) [OF C] fit by (auto simp: op_fits_def)
  have fm: "file_size s < 2 ^ 31" using fs m by simp
  note F = trimmed [OF fm sz refl refl, of "t_offset t"] and M = trimmed [OF m sz refl refl, of "t_offset t"]
  have Fm: "TRIM_OFF (t_offset t) (file_size s) + TRIM_LEN (TRIM_OFF (t_offset t) (file_size s)) (t_size t) (file_size s) \<le> maxfilelen cfg"
    using F(1) fs by simp
  note [simp] = F(2,3) M(2,3)
  show ?thesis
  proof (cases op)
    case OP_WRITE_ATOMIC
    then have "do_atomic_writes cfg" using en by (simp add: disabled_op_def)
    then show ?thesis using OP_WRITE_ATOMIC dowrite_ok [OF P C G M(1)] by (simp add: run_op_def Let_def op_ok_go_on)
  next
    case OP_TRUNCATE
    then show ?thesis using fit op dotruncate_ok [OF P C G, of "t_size t"] m
      by (auto simp: run_op_def Let_def op_fits_def lite_op_def intro!: op_ok_go_on)
  next
    case OP_COLLAPSE_RANGE
    then show ?thesis using fit op run_op_collapse_ok [OF P C G sz] by (auto simp: op_fits_def lite_op_def)
  next
    case OP_INSERT_RANGE
    then show ?thesis using fit op run_op_insert_ok [OF P C G sz] by (auto simp: op_fits_def lite_op_def)
  next
    case OP_CLONE_RANGE
    then have "two_ranges_ok (file_size s) (maxfilelen cfg) t" "blocks_ok cfg t" "\<not> lite cfg" using fit op by (auto simp: op_fits_def lite_op_def)
    then show ?thesis using OP_CLONE_RANGE unfolding run_op_def Let_def
      by (auto simp: blocks_ok_def intro!: two_range_op_ok [OF G m] do_clone_range_ok [OF P C G])
  next
    case OP_COPY_RANGE
    then have "two_ranges_ok (file_size s) (maxfilelen cfg) t" "\<not> lite cfg" using fit op by (auto simp: op_fits_def lite_op_def)
    then show ?thesis using OP_COPY_RANGE unfolding run_op_def Let_def
      by (auto intro!: two_range_op_ok [OF G m] do_copy_range_ok [OF P C G])
  next
    case OP_DEDUPE_RANGE
    then have "two_ranges_ok (file_size s) (file_size s) t" "blocks_ok cfg t" using fit op by (auto simp: op_fits_def lite_op_def)
    then show ?thesis using OP_DEDUPE_RANGE fs unfolding run_op_def Let_def
      by (auto simp: blocks_ok_def intro!: two_range_op_ok [OF G m] do_dedupe_range_ok [OF P G])
  next
    case OP_EXCHANGE_RANGE
    then have "two_ranges_ok (file_size s) (file_size s) t" "blocks_ok cfg t" using fit op by (auto simp: op_fits_def lite_op_def)
    then show ?thesis using OP_EXCHANGE_RANGE fs unfolding run_op_def Let_def
      by (auto simp: blocks_ok_def intro!: two_range_op_ok [OF G m] do_exchange_range_ok [OF P G])
  next
    case OP_FALLOCATE
    then show ?thesis using fit op do_preallocate_ok [OF P C G M(1)] by (auto simp: run_op_def Let_def op_fits_def lite_op_def intro!: op_ok_go_on)
  next
    case OP_ZERO_RANGE
    then show ?thesis using fit op do_zero_range_ok [OF P C G M(1)] by (auto simp: run_op_def Let_def op_fits_def lite_op_def intro!: op_ok_go_on)
  qed (use doread_ok [OF P C G Fm] dowrite_ok [OF P C G M(1)] domapread_ok [OF P C G Fm] domapwrite_ok [OF P C G M(1)]
      do_punch_hole_ok [OF P C G Fm] dofsync_ok [OF P G] in \<open>auto simp: run_op_def Let_def intro!: op_ok_go_on\<close>)
qed

lemma have_op_ok:
  assumes P: "posix_fs sys cfg data past" and C: "cfg_ok cfg" and G: "good_state cfg data past s"
    and fit: "op_fits cfg (file_size s) t"
  shows "fsx_ok cfg data past s (have_op sys cfg t s)"
proof -
  let ?op = "mapped_op cfg (t_op t)"
  let ?r = "if disabled_op cfg ?op then ret (False, log_skipped ?op (t_offset t) (t_size t) (t_offset2 t) s) else run_op sys cfg ?op t s"
  have "op_ok cfg data past s ?r"
    using op_ok_skip(2) [OF G] run_op_ok [OF P C G fit, of ?op] by (auto simp: mapped_op_def)
  then obtain c s' where r: "?r = ret (c, s')" "good_state cfg data past s'" "testcalls s' = testcalls s" "replayopsf s' = replayopsf s"
    by (auto simp: op_ok_def fsx_ok_def)
  have "have_op sys cfg t s = after_op sys cfg c s'" unfolding have_op_def Let_def r(1) by simp
  then show ?thesis using after_op_ok [OF P C r(2)] r(3,4) by (simp add: fsx_ok_def)
qed

text \<open>The state between two calls of \<open>test\<close>: without a simulated part the file agrees from the start.\<close>

definition test_inv :: "fsx_cfg \<Rightarrow> ('f \<Rightarrow> bytes) \<Rightarrow> ('f \<Rightarrow> nat \<Rightarrow> u8) \<Rightarrow> 'f fsx \<Rightarrow> bool" where
  "test_inv cfg data past s \<longleftrightarrow> good_state cfg data past s \<and>
     (simulatedopcount cfg = 0 \<longrightarrow> data (fsys s) = take (file_size s) (good_buf s))"

lemma test_entry_ok:
  assumes P: "posix_fs sys cfg data past" and I: "test_inv cfg data past s"
  shows "\<exists>s1. (if simulatedopcount cfg > 0 \<and> testcalls s = simulatedopcount cfg then writefileimage sys cfg s else ret s) = ret s1 \<and>
    good_state cfg data past (s1\<lparr>testcalls := testcalls s1 + 1\<rparr>) \<and> testcalls s1 = testcalls s \<and> replayopsf s1 = replayopsf s"
proof -
  have G: "good_state cfg data past s" using I by (simp add: test_inv_def)
  note g = good_stateD [OF G]
  show ?thesis
  proof (cases "simulatedopcount cfg > 0 \<and> testcalls s = simulatedopcount cfg")
    case True
    obtain f' where f': "writefileimage sys cfg s = ret (s\<lparr>fsys := f'\<rparr>)" "data f' = take (file_size s) (good_buf s)" "cleared data past f'"
      using writefileimage_ok [OF P G] by blast
    have "good_state cfg data past (s\<lparr>fsys := f', testcalls := testcalls s + 1\<rparr>)"
      using f' g by (intro good_stateI) auto
    then show ?thesis using True f'(1) by simp
  next
    case False
    have "data (fsys s) = take (file_size s) (good_buf s)" if "simulatedopcount cfg \<le> testcalls s"
      using I False that g(7) by (cases "simulatedopcount cfg = 0") (auto simp: test_inv_def live_def)
    then have "good_state cfg data past (s\<lparr>testcalls := testcalls s + 1\<rparr>)"
      using g by (intro good_stateI) (auto simp: live_def)
    then show ?thesis using False by auto
  qed
qed

lemma test_ok:
  assumes P: "posix_fs sys cfg data past" and C: "cfg_ok cfg" and I: "test_inv cfg data past s" and R: "replayopsf s = None"
  shows "\<exists>s'. test sys cfg s = ret (True, s') \<and> test_inv cfg data past s' \<and> testcalls s' = testcalls s + 1 \<and> replayopsf s' = None"
proof -
  obtain s1 where s1: "(if simulatedopcount cfg > 0 \<and> testcalls s = simulatedopcount cfg then writefileimage sys cfg s else ret s) = ret s1"
    "good_state cfg data past (s1\<lparr>testcalls := testcalls s1 + 1\<rparr>)" "testcalls s1 = testcalls s" "replayopsf s1 = replayopsf s"
    using test_entry_ok [OF P I] by blast
  let ?s2 = "s1\<lparr>testcalls := testcalls s1 + 1\<rparr>"
  obtain t s3 where t: "random_op sys cfg ?s2 = (t, s3)" by (cases "random_op sys cfg ?s2")
  have fit: "op_fits cfg (file_size ?s2) t" and fr: "random_frame ?s2 s3"
    using random_op_fits [OF t C good_stateD(3) [OF s1(2)]] by auto
  note fr' = random_frame_simps [OF fr]
  have G3: "good_state cfg data past s3" using s1(2) fr'(1) by blast
  have "op_fits cfg (file_size s3) t" using fit fr'(2) by simp
  from have_op_ok [OF P C G3 this] obtain s' where s': "have_op sys cfg t s3 = ret s'" "good_state cfg data past s'"
    "testcalls s' = testcalls s3" "replayopsf s' = replayopsf s3" by (auto simp: fsx_ok_def)
  have "test sys cfg s = ret (True, s')"
    using s1(1,4) t s'(1) R unfolding test_def by (simp add: go_on_def)
  moreover have "test_inv cfg data past s'"
    using s'(2,3) fr'(3) good_stateD(7) [OF s'(2)] by (auto simp: test_inv_def live_def)
  ultimately show ?thesis using s'(3,4) fr'(3,4) s1(3,4) R by auto
qed

lemma test_loop_ok:
  assumes P: "posix_fs sys cfg data past" and C: "cfg_ok cfg" and "test_inv cfg data past s" and "replayopsf s = None"
  shows "\<exists>s'. test_loop sys cfg (int n) s = ret s' \<and> test_inv cfg data past s' \<and> testcalls s' = testcalls s + n"
  using assms(3,4)
proof (induction n arbitrary: s)
  case 0
  then show ?case by (subst test_loop.simps) (simp add: keep_running_def)
next
  case (Suc n)
  obtain s1 where s1: "test sys cfg s = ret (True, s1)" "test_inv cfg data past s1" "testcalls s1 = testcalls s + 1" "replayopsf s1 = None"
    using test_ok [OF P C Suc.prems] by blast
  have "test_loop sys cfg (int (Suc n)) s = test_loop sys cfg (int n) s1"
    by (subst test_loop.simps) (simp add: keep_running_def s1(1) [unfolded ret_def])
  then show ?case using Suc.IH [OF s1(2,4)] s1(3) by simp
qed

section \<open>Properties\<close>

text \<open>A configuration and the state of a run that starts on an empty file, for the instances below.\<close>

definition demo_cfg :: fsx_cfg where
  "demo_cfg =
     \<lparr>block_size = 4, page_size = 8, simulatedopcount = 2, closeprob = 3, filldata = 0, flush = True, do_fsync = True,
      maxfilelen = 32, sizechecks = True, maxoplen = 12, readbdy = 1, style = False, truncbdy = 1, writebdy = 1,
      lite = False, randomoplen = True, mapped_writes = True, fallocate_calls = True, keep_size_calls = True,
      unshare_range_calls = True, punch_hole_calls = True, zero_range_calls = True, collapse_range_calls = True,
      insert_range_calls = True, mapped_reads = True, check_file = True, clone_range_calls = True,
      dedupe_range_calls = True, copy_range_calls = True, exchange_range_calls = True, integrity = True,
      pollute_eof = True, o_direct = False, aio = False, uring = True, dontcache_io = True, do_atomic_writes = True,
      awu_min = 4, awu_max = 8\<rparr>"

definition demo_state :: "memfs fsx" where
  "demo_state =
     \<lparr>fsys = \<lparr>mem_data = [], mem_past = (\<lambda>_. 0)\<rparr>, original_buf = replicate 32 1, good_buf = replicate 32 0, file_size = 0,
      biggest = 0, testcalls = 0, oplog = (\<lambda>_. \<lparr>operation = OP_READ, nr_args = 0, args = [0, 0, 0, 0], flags = {}\<rparr>),
      logptr = 0, logcount = 0, badoff = - 1, closeopen = False, mark_nr = 0, random_ix = 0, replayopsf = None\<rparr>"

lemma demo_ok: "cfg_ok demo_cfg" "test_inv demo_cfg mem_data mem_past demo_state" "replayopsf demo_state = None"
proof -
  have "\<exists>k \<le> 30. (8 :: nat) = 2 ^ k" by (rule exI [of _ 3]) simp
  then show "cfg_ok demo_cfg" by (simp add: cfg_ok_def demo_cfg_def)
  show "test_inv demo_cfg mem_data mem_past demo_state" "replayopsf demo_state = None"
    by (simp_all add: test_inv_def good_state_def cleared_def demo_cfg_def demo_state_def)
qed

text \<open>
  C2. A run of \<open>n\<close> random operations on a file system that keeps its promises ends normally: whatever
  \<open>random()\<close> delivers and whatever options are set, no operation and no check reports a failure, every call of
  \<open>test\<close> is counted, and after the simulated part the file holds exactly the first \<open>file_size\<close> bytes of the
  good buffer.
\<close>

theorem run_completes_without_false_alarm:
  assumes "posix_fs sys cfg data past" and "cfg_ok cfg" and "test_inv cfg data past s" and "replayopsf s = None"
  shows "\<exists>s'. test_loop sys cfg (int n) s = ret s' \<and> testcalls s' = testcalls s + n \<and>
    (simulatedopcount cfg < testcalls s' \<longrightarrow> data (fsys s') = take (file_size s') (good_buf s'))"
proof -
  obtain s' where "test_loop sys cfg (int n) s = ret s'" "test_inv cfg data past s'" "testcalls s' = testcalls s + n"
    using test_loop_ok [OF assms] by blast
  then show ?thesis using good_stateD(7) [of cfg data past s'] by (auto simp: test_inv_def live_def)
qed

theorem run_completes_without_false_alarm_witness:
  "\<exists>s'. test_loop (mem_sys (\<lambda>i. 7 * i)) demo_cfg (int 9) demo_state = ret s' \<and> testcalls s' = testcalls demo_state + 9 \<and>
    (simulatedopcount demo_cfg < testcalls s' \<longrightarrow> mem_data (fsys s') = take (file_size s') (good_buf s'))"
  by (rule run_completes_without_false_alarm [OF mem_sys_conforms demo_ok])

text \<open>
  C8. On a file system that keeps its promises, one call of \<open>test\<close> with a random operation keeps the invariant of the
  run: it returns 1, the good buffer still has its full length and the file size its bound, nothing but zeros lies
  past the end of the file, and the file agrees with the good buffer.
\<close>

theorem test_keeps_invariant:
  assumes "posix_fs sys cfg data past" and "cfg_ok cfg" and "test_inv cfg data past s" and "replayopsf s = None"
  shows "\<exists>s'. test sys cfg s = ret (True, s') \<and> test_inv cfg data past s' \<and> testcalls s' = testcalls s + 1 \<and> replayopsf s' = None"
  by (rule test_ok [OF assms])

theorem test_keeps_invariant_witness:
  "\<exists>s'. test (mem_sys (\<lambda>i. i * i)) demo_cfg demo_state = ret (True, s') \<and> test_inv demo_cfg mem_data mem_past s' \<and>
    testcalls s' = testcalls demo_state + 1 \<and> replayopsf s' = None"
  by (rule test_keeps_invariant [OF mem_sys_conforms demo_ok])

text \<open>Without a limit the loop has no result: only a failure or a signal ends it.\<close>

definition endless :: "('f \<Rightarrow> bytes) \<Rightarrow> ('f \<Rightarrow> nat \<Rightarrow> u8) \<Rightarrow> 'f sys \<Rightarrow> fsx_cfg \<Rightarrow> int \<Rightarrow> 'f fsx \<Rightarrow> bool" where
  "endless data past sys cfg numops s \<longleftrightarrow>
     numops = - 1 \<and> posix_fs sys cfg data past \<and> cfg_ok cfg \<and> test_inv cfg data past s \<and> replayopsf s = None"

lemma test_loop_unlimited:
  assumes run: "test_loop sys cfg numops s = Some r"
  shows "\<not> endless data past sys cfg numops s"
proof (rule test_loop.raw_induct [OF _ run, where P = "\<lambda>sys cfg numops s r. \<not> endless data past sys cfg numops s"], rule notI, goal_cases)
  case (1 loop sys cfg numops s r)
  then have A: "numops = - 1" "posix_fs sys cfg data past" "cfg_ok cfg" "test_inv cfg data past s" "replayopsf s = None"
    by (auto simp: endless_def)
  obtain s1 where s1: "test sys cfg s = ret (True, s1)" "test_inv cfg data past s1" "replayopsf s1 = None"
    using test_ok [OF A(2-5)] by blast
  then have "loop sys cfg numops s1 = Some r" using 1(2) A(1) by (simp add: keep_running_def ret_def)
  then show False using 1(1) A s1(2,3) unfolding endless_def by blast
qed

text \<open>
  C30. With no limit on the number of operations the loop of \<open>main\<close> never ends by itself on a file system that keeps
  its promises: it has no result.
\<close>

theorem unlimited_run_goes_on:
  assumes "posix_fs sys cfg data past" and "cfg_ok cfg" and "test_inv cfg data past s" and "replayopsf s = None"
  shows "test_loop sys cfg (- 1) s = None"
  using test_loop_unlimited [of sys cfg "- 1" s _ data past] assms unfolding endless_def by (cases "test_loop sys cfg (- 1) s") auto

theorem unlimited_run_goes_on_witness: "test_loop (mem_sys (\<lambda>i. i + 3)) demo_cfg (- 1) demo_state = None"
  by (rule unlimited_run_goes_on [OF mem_sys_conforms demo_ok])

end
