(* ===== verification/Fsx_Detect.thy ===== *)
theory Fsx_Detect
  imports Fsx_Run
begin

text \<open>
  What the checks of \<open>src/ltp/fsx.c\<close> catch: data that differ from the good buffer end the program with a
  failure status, and the offset it reports is a differing one.
\<close>

lemma c_int_small: "n < 2 ^ 31 \<Longrightarrow> c_int n = int n"
  by (simp add: c_int_def)

lemma scan_bad_last:
  "\<exists>j < sz. good ! (offset + j) \<noteq> buf ! (i + j) \<Longrightarrow>
    \<exists>j < sz. scan_bad good buf offset i sz bad = c_int (offset + j) \<and> good ! (offset + j) \<noteq> buf ! (i + j) \<and>
      (\<forall>k. j < k \<longrightarrow> k < sz \<longrightarrow> good ! (offset + k) = buf ! (i + k))"
proof (induction sz arbitrary: offset i bad)
  case 0
  then show ?case by simp
next
  case (Suc sz)
  let ?bad = "if good ! offset \<noteq> buf ! i then c_int offset else bad"
  have shift: "good ! (offset + k) = buf ! (i + k)" if "\<forall>k. j < k \<longrightarrow> k < sz \<longrightarrow> good ! (Suc offset + k) = buf ! (Suc i + k)" "Suc j < k" "k < Suc sz" for j k
    using that by (cases k) auto
  show ?case
  proof (cases "\<exists>j < sz. good ! (Suc offset + j) \<noteq> buf ! (Suc i + j)")
    case True
    from Suc.IH [OF this, of ?bad] obtain j where j: "j < sz" "scan_bad good buf (Suc offset) (Suc i) sz ?bad = c_int (Suc offset + j)"
      "good ! (Suc offset + j) \<noteq> buf ! (Suc i + j)" "\<forall>k. j < k \<longrightarrow> k < sz \<longrightarrow> good ! (Suc offset + k) = buf ! (Suc i + k)" by blast
    then show ?thesis using shift [OF j(4)] by (intro exI [of _ "Suc j"]) auto
  next
    case False
    then have eq: "good ! (offset + k) = buf ! (i + k)" if "0 < k" "k < Suc sz" for k using that by (cases k) auto
    have none: "scan_bad good buf off i' n b = b" if "\<forall>j < n. good ! (off + j) = buf ! (i' + j)" for off i' n b
      using that
    proof (induction n arbitrary: off i' b)
      case (Suc n)
      have "good ! off = buf ! i'" "\<forall>j < n. good ! (Suc off + j) = buf ! (Suc i' + j)"
        using Suc.prems by (force, metis Suc_less_eq add_Suc_shift)
      then show ?case using Suc.IH by simp
    qed simp
    have "good ! offset \<noteq> buf ! i" using Suc.prems eq by (metis add.right_neutral gr0I)
    then show ?thesis using none [of sz "Suc offset" "Suc i"] False eq by (intro exI [of _ 0]) auto
  qed
qed

lemma check_buffers_differ:
  assumes "length buf = sz" and "offset + sz \<le> length (good_buf s)" and "slice (good_buf s) offset sz \<noteq> buf" and "offset + sz \<le> 2 ^ 31"
  shows "\<exists>j < sz. check_buffers buf offset sz s = report_failure 110 (s\<lparr>badoff := int (offset + j)\<rparr>) \<and>
    good_buf s ! (offset + j) \<noteq> buf ! j \<and> (\<forall>k. j < k \<longrightarrow> k < sz \<longrightarrow> good_buf s ! (offset + k) = buf ! k)"
proof -
  have "\<exists>j < sz. good_buf s ! (offset + j) \<noteq> buf ! (0 + j)"
    using assms(1-3) nth_slice [OF assms(2)] by (auto simp: list_eq_iff_nth_eq)
  from scan_bad_last [OF this, of "badoff s"] obtain j where j: "j < sz" "scan_bad (good_buf s) buf offset 0 sz (badoff s) = c_int (offset + j)"
    "good_buf s ! (offset + j) \<noteq> buf ! j" "\<forall>k. j < k \<longrightarrow> k < sz \<longrightarrow> good_buf s ! (offset + k) = buf ! k" by auto
  moreover have "c_int (offset + j) = int (offset + j)" by (rule c_int_small) (use j(1) assms(4) in simp)
  ultimately show ?thesis using assms(1,3) by (auto simp: check_buffers_def)
qed

text \<open>What the check of the whole file compares: with \<open>O_DIRECT\<close> it stops at the last multiple of \<open>readbdy\<close>.\<close>

definition compared_size :: "fsx_cfg \<Rightarrow> 'f fsx \<Rightarrow> nat" where
  "compared_size cfg s = (if o_direct cfg then file_size s - file_size s mod readbdy cfg else file_size s)"

text \<open>
  C7. Corrupted contents do not pass the check of the whole file: when the file system reads back what the file
  holds, the file has the expected size, and its bytes differ from the good buffer, \<open>check_contents\<close> ends the
  program with the failure status 110, and \<open>badoff\<close> is the last offset at which they differ.  With \<open>O_DIRECT\<close> the
  bytes after the last multiple of \<open>readbdy\<close> are not compared, so there the difference has to be in front of it.
\<close>

theorem corrupted_contents_are_reported:
  assumes "reads_ok sys data past"
    and "length (data (fsys s)) = file_size s" and "file_size s \<le> length (good_buf s)" and "file_size s < 2 ^ 31"
    and "take (compared_size cfg s) (data (fsys s)) \<noteq> take (compared_size cfg s) (good_buf s)"
  shows "\<exists>s' i. check_contents sys cfg s = report_failure 110 s' \<and> badoff s' = int i \<and> i < compared_size cfg s \<and>
    data (fsys s) ! i \<noteq> good_buf s ! i \<and>
    (\<forall>k. i < k \<longrightarrow> k < compared_size cfg s \<longrightarrow> data (fsys s) ! k = good_buf s ! k)"
proof -
  define sz where "sz = compared_size cfg s"
  have le: "sz \<le> file_size s" by (simp add: sz_def compared_size_def)
  have pos: "0 < sz" using assms(5) by (cases sz) (auto simp: sz_def)
  have part: "slice (data (fsys s)) 0 sz = take sz (data (fsys s))" by (simp add: slice_def)
  obtain f where f: "fsxread sys cfg (fsys s) sz 0 RWF_NONE = Some (f, Some (take sz (data (fsys s))))"
  proof -
    have "0 + sz \<le> length (data (fsys s))" "length (data (fsys s)) < 2 ^ 32" using assms(2,4) le by auto
    from fsxread_ok [OF assms(1) pos this] show ?thesis using that part by auto
  qed
  let ?s = "s\<lparr>fsys := f\<rparr>" and ?buf = "take sz (data (fsys s))"
  have len: "length ?buf = sz" using assms(2) le by simp
  have "slice (good_buf ?s) 0 sz \<noteq> ?buf" using assms(5) by (auto simp: slice_def sz_def)
  from check_buffers_differ [OF len _ this] obtain j where j: "j < sz"
    "check_buffers ?buf 0 sz ?s = report_failure 110 (?s\<lparr>badoff := int j\<rparr>)"
    "good_buf s ! j \<noteq> ?buf ! j" "\<forall>k. j < k \<longrightarrow> k < sz \<longrightarrow> good_buf s ! k = ?buf ! k"
    using assms(3,4) le by auto
  have sz: "(if o_direct cfg then file_size s - file_size s mod readbdy cfg else file_size s) = sz"
    by (simp add: sz_def compared_size_def)
  have w: "wrap32 (file_size s) = file_size s" using assms(4) by simp
  have "check_contents sys cfg s = report_failure 110 (?s\<lparr>badoff := int j\<rparr>)"
    unfolding check_contents_def Let_def w sz using pos f j(2) len by simp
  then show ?thesis unfolding sz_def [symmetric]
    using j by (intro exI [of _ "?s\<lparr>badoff := int j\<rparr>"] exI [of _ j]) auto
qed

theorem corrupted_contents_are_reported_witness:
  "let s = demo_state\<lparr>fsys := \<lparr>mem_data = [0, 5, 0, 7, 0], mem_past = (\<lambda>_. 0)\<rparr>, file_size := 5\<rparr>; cfg = demo_cfg\<lparr>o_direct := True, readbdy := 2\<rparr> in
    \<exists>s' i. check_contents (mem_sys (\<lambda>i. i)) cfg s = report_failure 110 s' \<and> badoff s' = int i \<and> i < compared_size cfg s \<and>
    mem_data (fsys s) ! i \<noteq> good_buf s ! i \<and>
    (\<forall>k. i < k \<longrightarrow> k < compared_size cfg s \<longrightarrow> mem_data (fsys s) ! k = good_buf s ! k)"
  unfolding Let_def
proof (rule corrupted_contents_are_reported [where past = mem_past])
  show "reads_ok (mem_sys (\<lambda>i. i)) mem_data mem_past"
    by (rule posix_fsD(1) [OF mem_sys_conforms])
  let ?s = "demo_state\<lparr>fsys := \<lparr>mem_data = [0, 5, 0, 7, 0], mem_past = (\<lambda>_. 0)\<rparr>, file_size := 5\<rparr>"
    and ?cfg = "demo_cfg\<lparr>o_direct := True, readbdy := 2\<rparr>"
  have "take 4 [0, 5, 0, 7, 0 :: u8] \<noteq> replicate 4 0" by code_simp
  then show "take (compared_size ?cfg ?s) (mem_data (fsys ?s)) \<noteq> take (compared_size ?cfg ?s) (good_buf ?s)"
    by (simp add: demo_state_def compared_size_def)
qed (simp_all add: demo_state_def)

text \<open>
  C17. A read that \<open>test\<close> issues outside the simulated part passes exactly when the file system delivers the bytes
  of the good buffer; an error or a short read ends the program with status 141, other bytes with status 110.  The read
  lies inside the file, at an offset that is a multiple of \<open>readbdy\<close>, and is not done with \<open>O_DIRECT\<close>.
\<close>

theorem doread_passes_only_good_data:
  assumes "0 < n" and "offset + n \<le> file_size s" and "file_size s < 2 ^ 31" and "file_size s \<le> length (good_buf s)"
    and "simulatedopcount cfg < testcalls s" and "\<not> o_direct cfg" and "offset mod readbdy cfg = 0"
    and "fsxread sys cfg (fsys s) n offset fl = Some (f, r)"
  shows "doread sys cfg offset n fl s =
      (let s1 = (log4 OP_READ (c_int offset) (c_int n) FL_NONE s)\<lparr>fsys := f\<rparr> in
       if r = Some (slice (good_buf s) offset n) then ret s1
       else case r of
          None \<Rightarrow> report_failure 141 s1
        | Some buf \<Rightarrow> if length buf \<noteq> n then report_failure 141 s1
            else report_failure 110 (s1\<lparr>badoff := scan_bad (good_buf s) buf offset 0 n (badoff s)\<rparr>))"
proof -
  have w: "wrap32 (n + offset) = offset + n" using assms(2,3) by (simp add: add.commute)
  have "\<not> testcalls s \<le> simulatedopcount cfg" "\<not> file_size s < offset + n" using assms(2,5) by auto
  then have "doread sys cfg offset n fl s =
      (let s1 = (log4 OP_READ (c_int offset) (c_int n) FL_NONE s)\<lparr>fsys := f\<rparr> in
       case r of None \<Rightarrow> report_failure 141 s1
        | Some buf \<Rightarrow> if length buf \<noteq> n then report_failure 141 s1 else check_buffers buf offset n s1)"
    using assms(1,6-8) by (simp add: doread_def w Let_def)
  moreover have "length (slice (good_buf s) offset n) = n" using assms(2,4) by simp
  ultimately show ?thesis by (cases r) (auto simp: check_buffers_def Let_def)
qed

lemma doread_passes_only_good_data_witness:
  "let s = demo_state\<lparr>fsys := \<lparr>mem_data = [0, 5, 0, 7, 0], mem_past = (\<lambda>_. 0)\<rparr>, file_size := 5, testcalls := 3\<rparr>;
       s1 = (log4 OP_READ (c_int 1) (c_int 3) FL_NONE s)\<lparr>fsys := fsys s\<rparr>
   in doread (mem_sys (\<lambda>i. i)) (demo_cfg\<lparr>uring := False\<rparr>) 1 3 RWF_NONE s =
        report_failure 110 (s1\<lparr>badoff := scan_bad (good_buf s) [5, 0, 7] 1 0 3 (badoff s)\<rparr>)"
proof -
  let ?s = "demo_state\<lparr>fsys := \<lparr>mem_data = [0, 5, 0, 7, 0], mem_past = (\<lambda>_. 0)\<rparr>, file_size := 5, testcalls := 3\<rparr>"
  have "fsxread (mem_sys (\<lambda>i. i)) (demo_cfg\<lparr>uring := False\<rparr>) (fsys ?s) 3 1 RWF_NONE = Some (fsys ?s, Some [5, 0, 7])"
    by (simp add: fsxread_def mem_sys_def demo_cfg_def slice_def eval_nat_numeral)
  moreover have "slice (good_buf ?s) 1 3 \<noteq> [5, 0, 7]"
    by code_simp
  ultimately show ?thesis
    using doread_passes_only_good_data [of 3 1 ?s "demo_cfg\<lparr>uring := False\<rparr>" "mem_sys (\<lambda>i. i)" RWF_NONE "fsys ?s" "Some [5, 0, 7]"]
    by (simp add: demo_cfg_def demo_state_def Let_def)
qed

end
