(* ===== verification/Fsx_Safety.thy ===== *)
theory Fsx_Safety
  imports Fsx_Run
begin

text \<open>
  The bounds of the buffers of \<open>src/ltp/fsx.c\<close>, on a file system that answers anything.
\<close>

section \<open>Memory bounds on any file system\<close>

text \<open>
  Whatever the system calls answer, the two buffers keep their length and the tracked size stays within it.  The
  stores into the buffers are made with \<open>put_at\<close>, which makes the list longer when it stores past the end, so the
  length is the absence of an overrun.
\<close>

definition bufs_ok :: "fsx_cfg \<Rightarrow> 'f fsx \<Rightarrow> bool" where
  "bufs_ok cfg s \<longleftrightarrow>
     length (good_buf s) = maxfilelen cfg \<and> length (original_buf s) = maxfilelen cfg \<and> file_size s \<le> maxfilelen cfg"

definition outcome :: "('a \<Rightarrow> 'f fsx) \<Rightarrow> ('f fsx \<Rightarrow> bool) \<Rightarrow> ('f, 'a) fsx_result \<Rightarrow> bool" where
  "outcome st P r = (case r of None \<Rightarrow> True | Some (Inl (e, s)) \<Rightarrow> P s | Some (Inr x) \<Rightarrow> P (st x))"

abbreviation safe :: "fsx_cfg \<Rightarrow> ('f, 'f fsx) fsx_result \<Rightarrow> bool" where
  "safe cfg \<equiv> outcome (\<lambda>s. s) (bufs_ok cfg)"

named_theorems safe_intros

lemma bufs_ok_simps [simp]:
  "bufs_ok cfg (s\<lparr>fsys := f\<rparr>) = bufs_ok cfg s" "bufs_ok cfg (s\<lparr>biggest := b\<rparr>) = bufs_ok cfg s"
  "bufs_ok cfg (s\<lparr>badoff := i\<rparr>) = bufs_ok cfg s" "bufs_ok cfg (s\<lparr>mark_nr := b\<rparr>) = bufs_ok cfg s"
  "bufs_ok cfg (s\<lparr>testcalls := b\<rparr>) = bufs_ok cfg s"
  "bufs_ok cfg (log4 op a b' fl s) = bufs_ok cfg s" "bufs_ok cfg (log5 op a b' c fl s) = bufs_ok cfg s"
  by (simp_all add: bufs_ok_def)

lemma outcome_ends [safe_intros]:
  "P (st x) \<Longrightarrow> outcome st P (ret x)" "P s \<Longrightarrow> outcome st P (report_failure n s)" "P s \<Longrightarrow> outcome st P (exit_with n s)"
  by (simp_all add: outcome_def ret_def report_failure_def exit_with_def)

lemma outcome_if [safe_intros]:
  "(b \<Longrightarrow> outcome st P x) \<Longrightarrow> (\<not> b \<Longrightarrow> outcome st P y) \<Longrightarrow> outcome st P (if b then x else y)"
  by simp

lemma bufs_ok_if [safe_intros]:
  "(b \<Longrightarrow> bufs_ok cfg x) \<Longrightarrow> (\<not> b \<Longrightarrow> bufs_ok cfg y) \<Longrightarrow> bufs_ok cfg (if b then x else y)"
  by simp

lemma outcome_check_call [safe_intros]:
  assumes "\<And>f. P (s\<lparr>fsys := f\<rparr>)" and "\<And>f. outcome st P (k (s\<lparr>fsys := f\<rparr>))"
  shows "outcome st P (check_call s r n k)"
  using assms by (simp add: check_call_def Let_def outcome_ends)

lemma outcome_andthen_weaken:
  assumes "outcome st P r" and "\<And>x. P (st x) \<Longrightarrow> outcome st' Q (k x)" and "\<And>s. P s \<Longrightarrow> Q s"
  shows "outcome st' Q (andthen r k)"
proof (cases r)
  case (Some y)
  then show ?thesis
  proof (cases y)
    case (Inr x)
    then show ?thesis using assms Some by (simp add: andthen_def outcome_def [of st])
  qed (use assms(1,3) in \<open>auto simp: andthen_def outcome_def\<close>)
qed (simp add: andthen_def outcome_def)

lemmas outcome_andthen = outcome_andthen_weaken [where P = P and Q = P for P, OF _ _ , simplified]

lemma outcome_bind [safe_intros]:
  assumes "\<And>f x. outcome st P (k f x)"
  shows "outcome st P (Option.bind r (\<lambda>(f, x). k f x))"
  using assms by (cases r) (auto simp: outcome_def)

lemma outcome_let_pair [safe_intros]:
  assumes "\<And>f ok. outcome st P (k f ok)"
  shows "outcome st P (case r of (f, ok) \<Rightarrow> k f ok)"
  using assms by (cases r) simp

lemma check_buffers_safe [safe_intros]: "bufs_ok cfg s \<Longrightarrow> safe cfg (check_buffers buf off n s)"
  by (simp add: check_buffers_def outcome_ends)

lemma check_eofpage_safe [safe_intros]: "bufs_ok cfg s \<Longrightarrow> safe cfg (check_eofpage sys cfg off m n s)"
  by (simp add: check_eofpage_def Let_def outcome_ends)

lemma doflush_safe [safe_intros]: "bufs_ok cfg s \<Longrightarrow> safe cfg (doflush sys cfg off n s)"
  by (auto simp: doflush_def Let_def intro!: safe_intros)

lemma doread_safe [safe_intros]: "bufs_ok cfg s \<Longrightarrow> safe cfg (doread sys cfg off n fl s)"
  by (auto simp: doread_def Let_def intro!: safe_intros split: option.splits)

lemma domapread_safe [safe_intros]: "bufs_ok cfg s \<Longrightarrow> safe cfg (domapread sys cfg off n s)"
  by (auto simp: domapread_def Let_def intro!: safe_intros intro: outcome_andthen [OF check_eofpage_safe])

lemma check_contents_safe [safe_intros]: "bufs_ok cfg s \<Longrightarrow> safe cfg (check_contents sys cfg s)"
  by (auto simp: check_contents_def Let_def intro!: safe_intros outcome_andthen [OF check_buffers_safe]
      outcome_andthen [OF check_eofpage_safe] split: option.splits)

lemma pollute_frame: "\<exists>f. pollute_eofpage sys cfg m s = s\<lparr>fsys := f\<rparr>"
proof -
  have "\<exists>f. s = s\<lparr>fsys := f\<rparr>" by (rule exI [of _ "fsys s"]) simp
  then show ?thesis by (auto simp: pollute_eofpage_def Let_def split: prod.splits)
qed

lemma pollute_bufs_ok [simp]: "bufs_ok cfg' (pollute_eofpage sys cfg m s) = bufs_ok cfg' s"
  "good_buf (pollute_eofpage sys cfg m s) = good_buf s" "file_size (pollute_eofpage sys cfg m s) = file_size s"
  "testcalls (pollute_eofpage sys cfg m s) = testcalls s" "original_buf (pollute_eofpage sys cfg m s) = original_buf s"
  using pollute_frame [of sys cfg m s] by (auto simp: bufs_ok_def)

lemma update_bufs_ok [simp]:
  "bufs_ok cfg s \<Longrightarrow> offset + n \<le> maxfilelen cfg \<Longrightarrow> maxfilelen cfg < 2 ^ 31 \<Longrightarrow> bufs_ok cfg (update_file_size sys cfg offset n s)"
  using pollute_frame [of sys cfg "wrap32 (offset + n)" s] by (auto simp: update_file_size_def Let_def bufs_ok_def)

lemma good_buf_bufs_ok: "bufs_ok cfg s \<Longrightarrow> length g = maxfilelen cfg \<Longrightarrow> bufs_ok cfg (s\<lparr>good_buf := g\<rparr>)"
  by (simp add: bufs_ok_def)

lemma length_gendata: "offset + n \<le> length g \<Longrightarrow> length (gendata cfg tc orig g offset n) = length g"
  by (simp add: gendata_eq buf_simps)

lemma write_out_safe [safe_intros]: "bufs_ok cfg s \<Longrightarrow> safe cfg (write_out sys cfg off n fl s)"
  by (auto simp: write_out_def Let_def intro!: safe_intros)

lemma map_out_safe [safe_intros]: "bufs_ok cfg s \<Longrightarrow> safe cfg (map_out sys cfg off n s)"
  by (auto simp: map_out_def Let_def intro!: safe_intros outcome_andthen [OF check_eofpage_safe])

lemma gendata_bufs_ok:
  assumes "bufs_ok cfg s" and "off + n \<le> maxfilelen cfg" and "maxfilelen cfg < 2 ^ 31"
  defines "g \<equiv> gendata cfg (testcalls s) (original_buf s) (good_buf s) off n"
  shows "bufs_ok cfg (if wrap32 (off + n) > file_size s then update_file_size sys cfg off n (s\<lparr>good_buf := g\<rparr>) else s\<lparr>good_buf := g\<rparr>)"
proof -
  have "bufs_ok cfg (s\<lparr>good_buf := g\<rparr>)" using assms(1,2) by (simp add: bufs_ok_def g_def length_gendata)
  then show ?thesis using assms(2,3) by simp
qed

lemma dowrite_safe [safe_intros]:
  assumes C: "cfg_ok cfg" and B: "bufs_ok cfg s" and bnd: "off + n \<le> maxfilelen cfg" and at: "fl = RWF_ATOMIC \<Longrightarrow> do_atomic_writes cfg"
  shows "safe cfg (dowrite sys cfg off n fl s)"
proof -
  define n0 where "n0 = (if o_direct cfg then n - n mod writebdy cfg else n)"
  define n1 where "n1 = (if fl = RWF_ATOMIC then atomic_size cfg n0 else n0)"
  define off0 where "off0 = off - off mod writebdy cfg"
  define off1 where "off1 = (if fl = RWF_ATOMIC then off0 - off0 mod n1 else off0)"
  define s0 where "s0 = log4 (if fl = RWF_ATOMIC then OP_WRITE_ATOMIC else OP_WRITE) (c_int off1) (c_int n1) FL_NONE s"
  have o: "off0 \<le> off" "n0 \<le> n" "off1 \<le> off0" by (auto simp: off0_def n0_def off1_def)
  have small: "maxfilelen cfg < 2 ^ 31" by (rule cfg_okD(7) [OF C])
  have "n1 < 2 ^ 31" using at o bnd small cfg_okD(10) [OF C] atomic_size_bounds(2) [of cfg n0] by (force simp: n1_def)
  then have w: "wrap32 (off1 + n1) = off1 + n1" using o bnd small by simp
  have B0: "bufs_ok cfg s0" using B by (simp add: s0_def)
  have le: "off1 + n1 \<le> maxfilelen cfg" if "\<not> (fl = RWF_ATOMIC \<and> maxfilelen cfg < off1 + n1)"
    using that o bnd by (cases "fl = RWF_ATOMIC") (auto simp: n1_def off1_def)
  define s1 where "s1 = (if wrap32 (off1 + n1) > file_size s0
     then update_file_size sys cfg off1 n1 (s0\<lparr>good_buf := gendata cfg (testcalls s0) (original_buf s0) (good_buf s0) off1 n1\<rparr>)
     else s0\<lparr>good_buf := gendata cfg (testcalls s0) (original_buf s0) (good_buf s0) off1 n1\<rparr>)"
  note B1 = gendata_bufs_ok [OF B0 le small, of sys, folded s1_def]
  show ?thesis
    unfolding dowrite_def Let_def off0_def [symmetric] n0_def [symmetric] n1_def [symmetric] off1_def [symmetric] s0_def [symmetric]
      file_size_good_buf s1_def [symmetric]
    unfolding w by (intro safe_intros) (use B B1 in simp_all)
qed

lemma domapwrite_safe [safe_intros]:
  assumes C: "cfg_ok cfg" and B: "bufs_ok cfg s" and bnd: "off + n \<le> maxfilelen cfg"
  shows "safe cfg (domapwrite sys cfg off n s)"
proof -
  define off0 where "off0 = off - off mod writebdy cfg"
  define s0 where "s0 = log4 OP_MAPWRITE (c_int off0) (c_int n) FL_NONE s"
  have o: "off0 + n \<le> maxfilelen cfg" using bnd diff_le_self [of off] by (auto simp: off0_def intro: order_trans [rotated])
  have small: "maxfilelen cfg < 2 ^ 31" by (rule cfg_okD(7) [OF C])
  have B0: "bufs_ok cfg s0" using B by (simp add: s0_def)
  define s1 where "s1 = (if wrap32 (off0 + n) > file_size s0 
     then update_file_size sys cfg off0 n (s0\<lparr>good_buf := gendata cfg (testcalls s0) (original_buf s0) (good_buf s0) off0 n\<rparr>)
     else s0\<lparr>good_buf := gendata cfg (testcalls s0) (original_buf s0) (good_buf s0) off0 n\<rparr>)"
  have B1: "bufs_ok cfg s1" unfolding s1_def by (rule gendata_bufs_ok [OF B0 o small])
  show ?thesis
    unfolding domapwrite_def Let_def off0_def [symmetric] s0_def [symmetric] file_size_good_buf s1_def [symmetric]
    by (intro safe_intros) (use B B1 in simp_all)
qed

lemma dotruncate_safe [safe_intros]:
  assumes C: "cfg_ok cfg" and B: "bufs_ok cfg s" and bnd: "n \<le> maxfilelen cfg"
  shows "safe cfg (dotruncate sys cfg n s)"
proof -
  define m where "m = n - n mod truncbdy cfg"
  define s0 where "s0 = log4 OP_TRUNCATE 0 (c_int m) FL_NONE (if m > biggest s then s\<lparr>biggest := m\<rparr> else s)"
  define s1 where "s1 = update_file_size sys cfg m 0 (if m < file_size s0 then pollute_eofpage sys cfg (wrap32 (maxfilelen cfg)) s0 else s0)"
  have "m + 0 \<le> maxfilelen cfg" using bnd by (simp add: m_def)
  then have B1: "bufs_ok cfg s1" using B cfg_okD(7) [OF C] by (simp add: s1_def s0_def)
  show ?thesis unfolding dotruncate_def Let_def m_def [symmetric] s0_def [symmetric] s1_def [symmetric]
    by (intro safe_intros) (use B1 in simp_all)
qed

lemma extended_bufs_ok:
  "bufs_ok cfg s \<Longrightarrow> off + n \<le> maxfilelen cfg \<Longrightarrow> maxfilelen cfg < 2 ^ 31 \<Longrightarrow>
    bufs_ok cfg (if off + n > file_size s then update_file_size sys cfg off n s else s)"
  by simp

lemma do_punch_hole_safe [safe_intros]:
  assumes B: "bufs_ok cfg s" and bnd: "off + n \<le> maxfilelen cfg" and C: "cfg_ok cfg"
  shows "safe cfg (do_punch_hole sys cfg off n s)"
proof -
  have w: "wrap32 (off + n) = off + n" using bnd cfg_okD(7) [OF C] by simp
  show ?thesis
  proof (cases "file_size s \<le> off")
    case True
    then show ?thesis using B by (simp add: do_punch_hole_def outcome_ends)
  next
    case False
    then have "off + (if off + n \<le> file_size s then n else file_size s - off) \<le> maxfilelen cfg" using B by (auto simp: bufs_ok_def)
    then show ?thesis using B False unfolding do_punch_hole_def Let_def
      by (intro safe_intros) (auto simp: w bufs_ok_def)
  qed
qed

lemma do_zero_range_safe [safe_intros]:
  assumes B: "bufs_ok cfg s" and bnd: "off + n \<le> maxfilelen cfg" and C: "cfg_ok cfg"
  shows "safe cfg (do_zero_range sys cfg off n keep s)"
proof -
  have w: "wrap32 (off + n) = off + n" using bnd cfg_okD(7) [OF C] by simp
  define e where "e = (if keep then 0 else off + n)"
  define s0 where "s0 = log4 OP_ZERO_RANGE (c_int off) (c_int n) (if keep then {FL_KEEP_SIZE} else FL_NONE)
    (if e > biggest s then s\<lparr>biggest := e\<rparr> else s)"
  define s1 where "s1 = (if \<not> keep \<and> e > file_size s0 then update_file_size sys cfg off n s0 else s0)"
  have B1: "bufs_ok cfg s1" using B bnd cfg_okD(7) [OF C] by (simp add: s1_def s0_def)
  then have "bufs_ok cfg (s1\<lparr>good_buf := memset0 (good_buf s1) off n\<rparr>)" using bnd by (simp add: bufs_ok_def)
  then show ?thesis unfolding do_zero_range_def Let_def w e_def [symmetric] s0_def [symmetric] s1_def [symmetric]
    by (intro safe_intros) (use B B1 in \<open>auto simp: bufs_ok_def\<close>)
qed

lemma do_collapse_range_safe [safe_intros]:
  assumes B: "bufs_ok cfg s" and bnd: "off + n \<le> maxfilelen cfg" and C: "cfg_ok cfg"
  shows "safe cfg (do_collapse_range sys cfg off n s)"
proof -
  have w: "wrap32 (off + n) = off + n" using bnd cfg_okD(7) [OF C] by simp
  show ?thesis
  proof (cases "off + n \<ge> file_size s")
    case True
    then show ?thesis using B by (simp add: do_collapse_range_def Let_def w outcome_ends)
  next
    case False
    then show ?thesis using B unfolding do_collapse_range_def Let_def w
      by (intro safe_intros) (auto simp: bufs_ok_def)
  qed
qed

lemma do_insert_range_safe [safe_intros]:
  assumes B: "bufs_ok cfg s" and bnd: "file_size s + n \<le> maxfilelen cfg" and C: "cfg_ok cfg"
  shows "safe cfg (do_insert_range sys cfg off n s)"
proof (cases "off \<ge> file_size s")
  case True
  then show ?thesis using B by (simp add: do_insert_range_def Let_def outcome_ends)
next
  case False
  then have w: "wrap32 (off + n) = off + n" using bnd cfg_okD(7) [OF C] by simp
  show ?thesis using B False bnd unfolding do_insert_range_def Let_def w
    by (intro safe_intros) (auto simp: bufs_ok_def)
qed

lemma do_exchange_range_safe [safe_intros]:
  assumes B: "bufs_ok cfg s" and bnd: "off + n \<le> maxfilelen cfg" "dst + n \<le> maxfilelen cfg"
  shows "safe cfg (do_exchange_range sys cfg off n dst s)"
  unfolding do_exchange_range_def Let_def by (intro safe_intros) (use B bnd in \<open>auto simp: bufs_ok_def\<close>)

lemma do_dedupe_range_safe [safe_intros]: "bufs_ok cfg s \<Longrightarrow> safe cfg (do_dedupe_range sys cfg off n dst s)"
  by (auto simp: do_dedupe_range_def Let_def outcome_ends split: dedupe_result.splits prod.splits)

lemma do_clone_range_safe [safe_intros]:
  assumes B: "bufs_ok cfg s" and bnd: "off + n \<le> maxfilelen cfg" "dst + n \<le> maxfilelen cfg" and C: "cfg_ok cfg"
  shows "safe cfg (do_clone_range sys cfg off n dst s)"
proof -
  have w: "wrap32 (dst + n) = dst + n" using bnd cfg_okD(7) [OF C] by simp
  define s0 where "s0 = log5 OP_CLONE_RANGE (c_int off) (c_int n) (c_int dst) FL_NONE
    (if dst + n > biggest s then s\<lparr>biggest := dst + n\<rparr> else s)"
  define s1 where "s1 = (if dst + n > file_size s0 then update_file_size sys cfg dst n s0 else s0)"
  have B1: "bufs_ok cfg s1" using B bnd cfg_okD(7) [OF C] by (simp add: s1_def s0_def)
  show ?thesis unfolding do_clone_range_def Let_def w s0_def [symmetric] s1_def [symmetric]
    by (intro safe_intros) (use B B1 bnd in \<open>auto simp: bufs_ok_def\<close>)
qed

lemma copy_loop_frame:
  assumes run: "copy_loop sys o1 o2 l tries s = Some r"
  shows "\<exists>f e. r = Inr (s\<lparr>fsys := f\<rparr>) \<or> r = Inl (e, s\<lparr>fsys := f\<rparr>)"
proof (rule copy_loop.raw_induct [OF _ run, where P = "\<lambda>sys o1 o2 l tries s r. \<exists>f e. r = Inr (s\<lparr>fsys := f\<rparr>) \<or> r = Inl (e, s\<lparr>fsys := f\<rparr>)"], goal_cases)
  case (1 loop sys o1 o2 l tries s r)
  have same: "\<exists>f. s = s\<lparr>fsys := f\<rparr>" by (rule exI [of _ "fsys s"]) simp
  obtain f c where c: "sys_copy_file_range sys (fsys s) o1 o2 l = (f, c)" by (cases "sys_copy_file_range sys (fsys s) o1 o2 l")
  show ?case
  proof (cases "l = 0")
    case True
    then show ?thesis using 1(2) same by (auto simp: ret_def)
  next
    case False
    then show ?thesis using 1(2) 1(1) [of sys _ _ _ _ "s\<lparr>fsys := f\<rparr>" r] c
      by (fastforce simp: report_failure_def split: copy_result.splits if_splits)
  qed
qed

lemma copy_loop_safe [safe_intros]: "bufs_ok cfg s \<Longrightarrow> safe cfg (copy_loop sys o1 o2 l tries s)"
  using copy_loop_frame [of sys o1 o2 l tries s] by (cases "copy_loop sys o1 o2 l tries s") (auto simp: outcome_def)

lemma do_copy_range_safe [safe_intros]:
  assumes B: "bufs_ok cfg s" and bnd: "off + n \<le> maxfilelen cfg" "dst + n \<le> maxfilelen cfg" and C: "cfg_ok cfg"
  shows "safe cfg (do_copy_range sys cfg off n dst s)"
proof -
  have w: "wrap32 (dst + n) = dst + n" using bnd cfg_okD(7) [OF C] by simp
  define s0 where "s0 = log5 OP_COPY_RANGE (c_int off) (c_int n) (c_int dst) FL_NONE
    (if dst + n > biggest s then s\<lparr>biggest := dst + n\<rparr> else s)"
  define s1 where "s1 = (if dst + n > file_size s0 then update_file_size sys cfg dst n s0 else s0)"
  have B1: "bufs_ok cfg s1" using B bnd cfg_okD(7) [OF C] by (simp add: s1_def s0_def)
  show ?thesis unfolding do_copy_range_def Let_def w s0_def [symmetric] s1_def [symmetric]
    by (intro safe_intros outcome_andthen [OF copy_loop_safe]) (use B B1 bnd in \<open>auto simp: bufs_ok_def\<close>)
qed

lemma do_preallocate_safe [safe_intros]:
  assumes B: "bufs_ok cfg s" and bnd: "off + n \<le> maxfilelen cfg" and C: "cfg_ok cfg"
  shows "safe cfg (do_preallocate sys cfg off n keep unshare s)"
proof -
  have w: "wrap32 (off + n) = off + n" using bnd cfg_okD(7) [OF C] by simp
  define e where "e = (if keep then 0 else off + n)"
  define s0 where "s0 = log4 OP_FALLOCATE (c_int off) (c_int n)
    ((if keep then {FL_KEEP_SIZE} else FL_NONE) \<union> (if unshare then {FL_UNSHARE} else FL_NONE))
    (if e > biggest s then s\<lparr>biggest := e\<rparr> else s)"
  define s1 where "s1 = (if e > file_size s0
    then update_file_size sys cfg off n (s0\<lparr>good_buf := memset0 (good_buf s0) (file_size s0) (e - file_size s0)\<rparr>) else s0)"
  have B0: "bufs_ok cfg s0" using B by (simp add: s0_def)
  have "e \<le> maxfilelen cfg" using bnd by (simp add: e_def)
  then have "bufs_ok cfg (s0\<lparr>good_buf := memset0 (good_buf s0) (file_size s0) (e - file_size s0)\<rparr>)" if "e > file_size s0"
    using B0 that by (simp add: bufs_ok_def)
  then have B1: "bufs_ok cfg s1" using B0 bnd cfg_okD(7) [OF C] by (simp add: s1_def)
  show ?thesis unfolding do_preallocate_def Let_def w e_def [symmetric] s0_def [symmetric] s1_def [symmetric]
    by (intro safe_intros) (use B B1 in simp_all)
qed

lemma dofsync_safe [safe_intros]: "bufs_ok cfg s \<Longrightarrow> safe cfg (dofsync sys cfg s)"
  unfolding dofsync_def mark_log_def dump_fsync_buffer_def Let_def
  by (intro safe_intros outcome_andthen [where st = "\<lambda>s. s"]) auto

lemma docloseopen_safe [safe_intros]: "bufs_ok cfg s \<Longrightarrow> safe cfg (docloseopen sys cfg s)"
  unfolding docloseopen_def by (intro safe_intros) auto

lemma check_size_safe [safe_intros]: "bufs_ok cfg s \<Longrightarrow> safe cfg (check_size sys s)"
  by (simp add: check_size_def outcome_ends)

lemma writefileimage_safe [safe_intros]: "bufs_ok cfg s \<Longrightarrow> safe cfg (writefileimage sys cfg s)"
  unfolding writefileimage_def Let_def by (intro safe_intros) auto

lemma after_op_safe [safe_intros]: "bufs_ok cfg s \<Longrightarrow> safe cfg (after_op sys cfg check s)"
  unfolding after_op_def by (intro safe_intros outcome_andthen [where st = "\<lambda>s. s"]) auto

lemma go_on_safe: "safe cfg r \<Longrightarrow> outcome snd (bufs_ok cfg) (go_on r)"
  unfolding go_on_def by (rule outcome_andthen [where st = "\<lambda>s. s"]) (auto intro: outcome_ends)

lemma two_range_op_safe:
  assumes B: "bufs_ok cfg s" and m: "maxfilelen cfg < 2 ^ 31" and t: "two_ranges_ok (file_size s) lim t" "lim \<le> maxfilelen cfg"
    and run: "\<And>off n dst. off + n \<le> maxfilelen cfg \<Longrightarrow> dst + n \<le> maxfilelen cfg \<Longrightarrow> safe cfg (f off n dst s)"
  shows "outcome snd (bufs_ok cfg) (two_range_op cfg op f (t_offset t) (t_size t) (t_offset2 t) s)"
proof (cases "t_size t = 0")
  case True
  then show ?thesis using B by (auto simp: two_range_op_def log_skipped_def intro: outcome_ends)
next
  case False
  then have r: "t_offset t + t_size t \<le> maxfilelen cfg" "t_offset2 t + t_size t \<le> maxfilelen cfg"
    using t B by (auto simp: two_ranges_ok_def bufs_ok_def)
  then have "wrap32 (t_offset t) = t_offset t" "wrap32 (t_size t) = t_size t" "wrap32 (t_offset2 t) = t_offset2 t"
    "wrap64 (t_offset2 t + t_size t) = t_offset2 t + t_size t" using m by auto
  then show ?thesis using False r run [OF r] by (simp add: two_range_op_def go_on_safe)
qed

lemma run_op_collapse_safe:
  assumes B: "bufs_ok cfg s" and C: "cfg_ok cfg" and sz: "t_size t < 2 ^ 31"
  shows "outcome snd (bufs_ok cfg) (run_op sys cfg OP_COLLAPSE_RANGE t s)"
proof -
  define lim where "lim = sub64 (file_size s) 1"
  define off where "off = rounddown_64 (TRIM_OFF (t_offset t) lim) (block_size cfg)"
  define n where "n = rounddown_64 (TRIM_LEN (TRIM_OFF (t_offset t) lim) (t_size t) lim) (block_size cfg)"
  have "safe cfg (do_collapse_range sys cfg (wrap32 off) (wrap32 n) s)"
  proof (cases "file_size s = 0")
    case True
    then show ?thesis using B by (simp add: do_collapse_range_def Let_def outcome_ends)
  next
    case False
    then have lim: "lim < 2 ^ 31" "lim \<le> maxfilelen cfg" using B cfg_okD(7) [OF C] by (auto simp: lim_def bufs_ok_def)
    have "off + n \<le> TRIM_OFF (t_offset t) lim + TRIM_LEN (TRIM_OFF (t_offset t) lim) (t_size t) lim"
      unfolding off_def n_def by (rule add_mono [OF rounddown_64_le rounddown_64_le])
    also have "\<dots> \<le> lim" by (rule trimmed(1) [OF lim(1) sz refl refl])
    finally have b: "off + n \<le> lim" .
    then have "wrap32 off = off" "wrap32 n = n" using lim by auto
    then show ?thesis using do_collapse_range_safe [OF B _ C, of off n] b lim(2) by simp
  qed
  then show ?thesis using B unfolding lim_def off_def n_def by (simp add: run_op_def Let_def go_on_safe outcome_ends)
qed

lemma run_op_insert_safe:
  assumes B: "bufs_ok cfg s" and C: "cfg_ok cfg" and sz: "t_size t < 2 ^ 31"
  shows "outcome snd (bufs_ok cfg) (run_op sys cfg OP_INSERT_RANGE t s)"
proof -
  have fs: "file_size s \<le> maxfilelen cfg" "maxfilelen cfg < 2 ^ 31" using B cfg_okD(7) [OF C] by (auto simp: bufs_ok_def)
  define n where "n = rounddown_64 (TRIM_LEN (file_size s) (t_size t) (maxfilelen cfg)) (block_size cfg)"
  have "n \<le> TRIM_LEN (file_size s) (t_size t) (maxfilelen cfg)" unfolding n_def by (rule rounddown_64_le)
  moreover have "file_size s + TRIM_LEN (file_size s) (t_size t) (maxfilelen cfg) \<le> maxfilelen cfg"
    by (rule TRIM_range(1)) (use fs sz in auto)
  ultimately have b: "file_size s + n \<le> maxfilelen cfg" by simp
  then have "wrap32 n = n" using fs by simp
  then show ?thesis using B do_insert_range_safe [OF B b C]
    by (simp add: run_op_def Let_def n_def [symmetric] go_on_safe outcome_ends)
qed

lemma run_op_safe:
  assumes B: "bufs_ok cfg s" and C: "cfg_ok cfg"
    and fit: "op_fits cfg (file_size s) t" and op: "t_op t = op \<or> (op = OP_READ \<and> t_op t = OP_MAPREAD) \<or> (op = OP_WRITE \<and> t_op t = OP_MAPWRITE)"
    and en: "\<not> disabled_op cfg op"
  shows "outcome snd (bufs_ok cfg) (run_op sys cfg op t s)"
proof -
  have fs: "file_size s \<le> maxfilelen cfg" and m: "maxfilelen cfg < 2 ^ 31" and sz: "t_size t < 2 ^ 31"
    using B cfg_okD(7) [OF C] fit by (auto simp: op_fits_def bufs_ok_def)
  have fm: "file_size s < 2 ^ 31" using fs m by simp
  note F = trimmed [OF fm sz refl refl, of "t_offset t"] and M = trimmed [OF m sz refl refl, of "t_offset t"]
  have Fm: "TRIM_OFF (t_offset t) (file_size s) + TRIM_LEN (TRIM_OFF (t_offset t) (file_size s)) (t_size t) (file_size s) \<le> maxfilelen cfg"
    using F(1) fs by simp
  note [simp] = F(2,3) M(2,3)
  note two = two_range_op_safe [OF B m]
  show ?thesis
  proof (cases op)
    case OP_WRITE_ATOMIC
    then have "do_atomic_writes cfg" using en by (simp add: disabled_op_def)
    then show ?thesis using OP_WRITE_ATOMIC dowrite_safe [OF C B M(1)] by (simp add: run_op_def Let_def go_on_safe)
  next
    case OP_TRUNCATE
    then show ?thesis using fit op dotruncate_safe [OF C B, of "t_size t"] m
      by (auto simp: run_op_def Let_def op_fits_def intro!: go_on_safe)
  next
    case OP_COLLAPSE_RANGE
    then show ?thesis using run_op_collapse_safe [OF B C sz] by simp
  next
    case OP_INSERT_RANGE
    then show ?thesis using run_op_insert_safe [OF B C sz] by simp
  next
    case OP_CLONE_RANGE
    then have "two_ranges_ok (file_size s) (maxfilelen cfg) t" using fit op by (auto simp: op_fits_def)
    then show ?thesis using OP_CLONE_RANGE by (simp add: run_op_def two do_clone_range_safe [OF B _ _ C])
  next
    case OP_COPY_RANGE
    then have "two_ranges_ok (file_size s) (maxfilelen cfg) t" using fit op by (auto simp: op_fits_def)
    then show ?thesis using OP_COPY_RANGE by (simp add: run_op_def two do_copy_range_safe [OF B _ _ C])
  next
    case OP_DEDUPE_RANGE
    then have "two_ranges_ok (file_size s) (file_size s) t" using fit op by (auto simp: op_fits_def)
    then show ?thesis using OP_DEDUPE_RANGE fs by (simp add: run_op_def two do_dedupe_range_safe [OF B])
  next
    case OP_EXCHANGE_RANGE
    then have "two_ranges_ok (file_size s) (file_size s) t" using fit op by (auto simp: op_fits_def)
    then show ?thesis using OP_EXCHANGE_RANGE fs by (simp add: run_op_def two do_exchange_range_safe [OF B])
  qed (use doread_safe [OF B] domapread_safe [OF B] domapwrite_safe [OF C B M(1)]
      do_preallocate_safe [OF B M(1) C] do_zero_range_safe [OF B M(1) C] do_punch_hole_safe [OF B Fm C] dofsync_safe [OF B]
      in \<open>auto simp: run_op_def Let_def intro!: go_on_safe dowrite_safe [OF C B M(1)]\<close>)
qed

lemma have_op_safe:
  assumes "bufs_ok cfg s" and "cfg_ok cfg" and "op_fits cfg (file_size s) t"
  shows "safe cfg (have_op sys cfg t s)"
  unfolding have_op_def Let_def
proof (rule outcome_andthen [where st = snd], goal_cases)
  case 1
  then show ?case using assms run_op_safe [OF assms, of "mapped_op cfg (t_op t)"]
    by (auto simp: mapped_op_def log_skipped_def intro: outcome_ends)
qed (auto intro: after_op_safe)

text \<open>
  C4. No answer of the file system makes the program overrun its buffers: for system calls that return anything
  whatever, every way a call of \<open>test\<close> with a random operation can end leaves the good buffer and the original buffer
  at their allocated length and the tracked file size within it.  Operations taken from a replay file are excluded:
  their sizes are not checked against the buffers.
\<close>

theorem no_kernel_overruns_buffers:
  assumes "cfg_ok cfg" and "bufs_ok cfg s" and "replayopsf s = None"
  shows "outcome snd (bufs_ok cfg) (test sys cfg s)"
  unfolding test_def
proof (rule outcome_andthen_weaken [where st = "\<lambda>s. s" and P = "\<lambda>s. bufs_ok cfg s \<and> replayopsf s = None"], goal_cases)
  case 1
  then show ?case unfolding writefileimage_def Let_def by (intro safe_intros) (use assms(2,3) in auto)
next
  case (2 s1)
  let ?s = "s1\<lparr>testcalls := testcalls s1 + 1\<rparr>"
  obtain t s2 where t: "random_op sys cfg ?s = (t, s2)" by (cases "random_op sys cfg ?s")
  have fit: "op_fits cfg (file_size s2) t" and fr: "random_frame ?s s2"
    using random_op_fits [OF t assms(1)] 2 random_frame_simps(2) [of ?s s2] by (auto simp: bufs_ok_def)
  have "bufs_ok cfg s2" using 2 fr by (cases s2; cases s1) (simp add: random_frame_def bufs_ok_def)
  from have_op_safe [OF this assms(1) fit] show ?case using 2 t by (simp add: go_on_safe)
qed simp

theorem no_kernel_overruns_buffers_witness:
  "outcome snd (bufs_ok demo_cfg) (test ((mem_sys (\<lambda>i. i))\<lparr>sys_preadv2 := \<lambda>f n off fl. (f, Some [])\<rparr>) demo_cfg demo_state)"
  by (rule no_kernel_overruns_buffers) (use demo_ok in \<open>simp_all add: bufs_ok_def demo_cfg_def demo_state_def\<close>)

end
