(* ===== verification/Fsx_Predict.thy ===== *)
theory Fsx_Predict
  imports Fsx_Safety
begin

text \<open>
  The ranges \<open>src/ltp/fsx.c\<close> chooses, the equivalence of its transfer interfaces, and the prediction its good
  buffer makes of the file.
\<close>

section \<open>Choice of ranges and the transfer loops\<close>

text \<open>
  C19. The search for a destination range either gives up with the size zero, or delivers a source inside the file and
  a destination of the same size inside the limit that do not overlap, all aligned as the operation needs it; it draws
  random numbers and changes nothing else.
\<close>

theorem dest_range_apart_and_in_bounds:
  assumes "generate_dest_range sys cfg bdy lim src n dst s = (src', n', dst', s')"
    and "lim < 2 ^ 31" and "file_size s < 2 ^ 31" and "n < 2 ^ 63"
  shows "(\<exists>k. s' = s\<lparr>random_ix := k\<rparr>) \<and>
    (n' = 0 \<or> (src' + n' \<le> file_size s \<and> n' \<le> n \<and> dst' + n' \<le> lim \<and> disjoint_ranges src' dst' n' \<and>
      (if bdy then src' mod readbdy cfg = 0 \<and> dst' mod writebdy cfg = 0
       else src' mod block_size cfg = 0 \<and> n' mod block_size cfg = 0 \<and> dst' mod block_size cfg = 0)))"
  using generate_dest_range_spec [OF assms] by blast

theorem dest_range_apart_and_in_bounds_witness:
  "let s = demo_state\<lparr>file_size := 24\<rparr>;
       (src', n', dst', s') = generate_dest_range (mem_sys (\<lambda>i. 19)) demo_cfg False 32 9 5 0 s
   in n' = 4 \<and> src' = 8 \<and> dst' = 16 \<and> disjoint_ranges src' dst' n'"
proof -
  let ?s = "demo_state\<lparr>file_size := 24\<rparr>"
  have g: "generate_dest_range (mem_sys (\<lambda>i. 19)) demo_cfg False 32 9 5 0 ?s = (8, 4, 16, ?s\<lparr>random_ix := 1\<rparr>)"
    by (simp add: generate_dest_range_def Let_def TRIM_OFF_def TRIM_LEN_def rounddown_64_def demo_cfg_def demo_state_def
        dest_loop.simps range_overlaps_def next_random_def mem_sys_def)
  have "disjoint_ranges 8 16 4"
    using dest_range_apart_and_in_bounds [OF g] by (simp add: demo_state_def)
  then show ?thesis unfolding Let_def g by simp
qed

text \<open>
  C27. The three ways to transfer data are equivalent on a file system that keeps its promises: with \<open>preadv2\<close>, with
  asynchronous I/O and with \<open>io_uring\<close>, whose completions may be short, a read delivers exactly the requested bytes of
  the file, and the \<open>io_uring\<close> loop ends.
\<close>

theorem read_interfaces_agree:
  assumes "reads_ok sys data past" and "0 < len" and "off + len \<le> length (data f)" and "length (data f) < 2 ^ 32"
  shows "\<exists>f1 f2. fsxread sys cfg1 f len off fl = Some (f1, Some (slice (data f) off len)) \<and>
    fsxread sys cfg2 f len off fl = Some (f2, Some (slice (data f) off len)) \<and> data f1 = data f \<and> data f2 = data f"
  using fsxread_ok [OF assms, of cfg1 fl] fsxread_ok [OF assms, of cfg2 fl] by (auto dest: becomes_data)

theorem read_interfaces_agree_witness:
  "let f = \<lparr>mem_data = [1, 2, 3, 4, 5, 6, 7], mem_past = (\<lambda>_. 0)\<rparr> in
    \<exists>f1 f2. fsxread (mem_sys (\<lambda>i. i)) (demo_cfg\<lparr>uring := True\<rparr>) f 5 1 RWF_NONE = Some (f1, Some (slice (mem_data f) 1 5)) \<and>
    fsxread (mem_sys (\<lambda>i. i)) (demo_cfg\<lparr>aio := True\<rparr>) f 5 1 RWF_NONE = Some (f2, Some (slice (mem_data f) 1 5)) \<and>
    mem_data f1 = mem_data f \<and> mem_data f2 = mem_data f"
  unfolding Let_def by (rule read_interfaces_agree [OF posix_fsD(1) [OF mem_sys_conforms]]) simp_all

text \<open>
  C28. The loop of \<open>io_uring\<close> writes through short completions and ends: the file has all the bytes at their place, as
  after one full write.
\<close>

theorem write_interfaces_agree:
  assumes "writes_ok sys limit data past" and "b \<noteq> []" and "off + length b \<le> limit" and "limit < 2 ^ 32"
  shows "\<exists>f1 f2. fsxwrite sys cfg1 f b off fl = Some (f1, Some (length b)) \<and>
    fsxwrite sys cfg2 f b off fl = Some (f2, Some (length b)) \<and>
    data f1 = file_write (data f) off b \<and> data f2 = file_write (data f) off b"
  using fsxwrite_ok [OF assms, of cfg1 f fl] fsxwrite_ok [OF assms, of cfg2 f fl] by (auto dest: becomes_data)

theorem write_interfaces_agree_witness:
  "let f = \<lparr>mem_data = [1, 2, 3], mem_past = (\<lambda>_. 0)\<rparr> in
    \<exists>f1 f2. fsxwrite (mem_sys (\<lambda>i. i)) (demo_cfg\<lparr>uring := True\<rparr>) f [9, 8, 7, 6, 5] 5 RWF_NONE = Some (f1, Some (length [9, 8, 7, 6, 5 :: u8])) \<and>
    fsxwrite (mem_sys (\<lambda>i. i)) (demo_cfg\<lparr>uring := False\<rparr>) f [9, 8, 7, 6, 5] 5 RWF_NONE = Some (f2, Some (length [9, 8, 7, 6, 5 :: u8])) \<and>
    mem_data f1 = file_write (mem_data f) 5 [9, 8, 7, 6, 5] \<and> mem_data f2 = file_write (mem_data f) 5 [9, 8, 7, 6, 5]"
  unfolding Let_def by (rule write_interfaces_agree [OF posix_fsD(2) [OF mem_sys_conforms [where cfg = demo_cfg]]]) (simp_all add: demo_cfg_def)

lemma copy_loop_stuck:
  assumes run: "copy_loop sys o1 o2 l tries s = Some r"
  shows "\<not> (0 < l \<and> (\<forall>f o1 o2 l. \<exists>f'. sys_copy_file_range sys f o1 o2 l = (f', Copied 0)))"
proof (rule copy_loop.raw_induct [OF _ run, where P = "\<lambda>sys o1 o2 l tries s r.
    \<not> (0 < l \<and> (\<forall>f o1 o2 l. \<exists>f'. sys_copy_file_range sys f o1 o2 l = (f', Copied 0)))"], rule notI, goal_cases)
  case (1 loop sys o1 o2 l tries s r)
  then obtain f where "sys_copy_file_range sys (fsys s) o1 o2 l = (f, Copied 0)" by blast
  then have "loop sys o1 o2 l tries (s\<lparr>fsys := f\<rparr>) = Some r" using 1 by simp
  then show False using 1 by blast
qed

text \<open>
  C29. Progress of the copy loop depends on the file system: while every call copies nothing and reports no error,
  \<open>do_copy_range\<close> does not return.
\<close>

theorem copy_of_nothing_never_returns:
  assumes "0 < len" and "offset < file_size s" and "simulatedopcount cfg < testcalls s"
    and "\<And>f o1 o2 l. \<exists>f'. sys_copy_file_range sys f o1 o2 l = (f', Copied 0)"
  shows "do_copy_range sys cfg offset len dest s = None"
proof -
  have stuck: "copy_loop sys o1 o2 len 0 s' = None" for o1 o2 s'
    using copy_loop_stuck [of sys o1 o2 len 0 s'] assms(1,4) by (cases "copy_loop sys o1 o2 len 0 s'") auto
  have tc: "testcalls (update_file_size sys cfg dest len s') = testcalls s'" for s'
    by (simp add: update_file_size_def Let_def)
  show ?thesis using assms(1-3) by (simp add: do_copy_range_def Let_def stuck andthen_def tc)
qed

theorem copy_of_nothing_never_returns_witness:
  "do_copy_range ((mem_sys (\<lambda>i. i))\<lparr>sys_copy_file_range := \<lambda>f o1 o2 l. (f, Copied 0)\<rparr>) demo_cfg 0 4 8
     (demo_state\<lparr>file_size := 8, testcalls := 3\<rparr>) = None"
  by (rule copy_of_nothing_never_returns) (simp_all add: demo_cfg_def demo_state_def)

text \<open>
  The size of an atomic write is the largest power of two not above the requested size clamped between the unit
  sizes the file system announced, so it never exceeds the largest unit.
\<close>

theorem atomic_size_is_power_of_two_in_range:
  assumes "0 < awu_min cfg" and "awu_min cfg \<le> awu_max cfg" and "awu_max cfg < 2 ^ 31"
  shows "\<exists>k. atomic_size cfg n = 2 ^ k \<and> 2 ^ k \<le> min (max n (awu_min cfg)) (awu_max cfg) \<and>
    min (max n (awu_min cfg)) (awu_max cfg) < 2 ^ Suc k"
proof -
  define m where "m = min (max n (awu_min cfg)) (awu_max cfg)"
  have m: "0 < m" "m < 2 ^ 32" using assms by (auto simp: m_def)
  have "(let n = (if n < awu_min cfg then awu_min cfg else n) in if n > awu_max cfg then awu_max cfg else n) = m"
    by (auto simp: m_def Let_def)
  then have "atomic_size cfg n = rounddown_pow_of_2 m" by (simp add: atomic_size_def Let_def)
  then show ?thesis using rounddown_pow_of_2_spec [OF m] unfolding m_def by simp
qed

section \<open>The good buffer as a prediction\<close>

text \<open>
  What \<open>fsx\<close> believes the file to hold, and the effect each operation should have on it.  The equations below hold
  for every file system: they are about the bookkeeping of \<open>fsx\<close> alone.
\<close>

definition contents :: "'f fsx \<Rightarrow> bytes" where
  "contents s = take (file_size s) (good_buf s)"

definition range_effect :: "fsx_op \<Rightarrow> nat \<Rightarrow> nat \<Rightarrow> nat \<Rightarrow> bool \<Rightarrow> bytes \<Rightarrow> bytes" where
  "range_effect op off n dst keep c =
     (case op of
        OP_PUNCH_HOLE \<Rightarrow> file_zero c off n
      | OP_ZERO_RANGE \<Rightarrow> file_zero (if keep then c else file_resize c (max (length c) (off + n))) off n
      | OP_COLLAPSE_RANGE \<Rightarrow> file_collapse c off n
      | OP_INSERT_RANGE \<Rightarrow> file_insert c off n
      | OP_EXCHANGE_RANGE \<Rightarrow> file_exchange c off n dst
      | OP_CLONE_RANGE \<Rightarrow> file_write c dst (slice c off n)
      | OP_COPY_RANGE \<Rightarrow> file_write c dst (slice c off n)
      | OP_FALLOCATE \<Rightarrow> (if keep then c else file_resize c (max (length c) (off + n)))
      | OP_TRUNCATE \<Rightarrow> file_resize c n
      | _ \<Rightarrow> c)"

lemma report_ret [simp]: "report_failure st s \<noteq> ret x" "exit_with st s \<noteq> ret x"
  by (simp_all add: report_failure_def exit_with_def ret_def)

lemma check_call_ret: "check_call s r st k = ret x \<Longrightarrow> \<exists>f. k (s\<lparr>fsys := f\<rparr>) = ret x"
  by (auto simp: check_call_def Let_def split: if_splits)

lemma andthen_ret: "andthen r k = ret x \<Longrightarrow> \<exists>y. r = ret y \<and> k y = ret x"
  by (auto simp: andthen_def ret_def split: option.splits sum.splits)

lemma update_frame:
  assumes "offset + n < 2 ^ 32"
  shows "\<exists>f. update_file_size sys cfg offset n s =
    s\<lparr>fsys := f, good_buf := grow_gap (good_buf s) (file_size s) offset, file_size := offset + n\<rparr>"
proof -
  obtain f where "pollute_eofpage sys cfg (wrap32 (offset + n)) s = s\<lparr>fsys := f\<rparr>" using pollute_frame [of sys cfg _ s] by blast
  then have "update_file_size sys cfg offset n s =
      s\<lparr>fsys := f, good_buf := grow_gap (good_buf s) (file_size s) offset, file_size := offset + n\<rparr>" if "offset > file_size s"
    using that assms by (simp add: update_file_size_def Let_def grow_gap_def)
  moreover have "update_file_size sys cfg offset n s =
      s\<lparr>fsys := fsys s, good_buf := grow_gap (good_buf s) (file_size s) offset, file_size := offset + n\<rparr>" if "\<not> offset > file_size s"
    using that assms by (simp add: update_file_size_def Let_def grow_gap_def)
  ultimately show ?thesis by blast
qed

lemma extended_frame:
  assumes "off + n < 2 ^ 32"
  shows "\<exists>f. extended sys cfg off n s =
    s\<lparr>fsys := f, good_buf := grow_gap (good_buf s) (file_size s) off, file_size := max (file_size s) (off + n)\<rparr>"
proof (cases "off + n > file_size s")
  case True
  then show ?thesis using update_frame [OF assms, of sys cfg s] by (auto simp: extended_def max_def)
next
  case False
  then show ?thesis by (auto simp: extended_def grow_gap_def max_def intro!: exI [of _ "fsys s"])
qed

lemma extended_fields:
  assumes "off + n < 2 ^ 32"
  shows "good_buf (extended sys cfg off n s) = grow_gap (good_buf s) (file_size s) off"
    "file_size (extended sys cfg off n s) = max (file_size s) (off + n)" "testcalls (extended sys cfg off n s) = testcalls s"
  using extended_frame [OF assms, of sys cfg s] by auto

lemma do_punch_hole_contents:
  assumes "do_punch_hole sys cfg off n s = ret s'" and "live cfg s" and "0 < n" and "off < file_size s" and "off + n < 2 ^ 31"
    and "file_size s \<le> length (good_buf s)"
  shows "contents s' = file_zero (contents s) off n"
proof -
  have w: "wrap32 (off + n) = off + n" using assms(5) by simp
  have "file_size s' = file_size s"
    "good_buf s' = memset0 (good_buf s) off (if off + n \<le> file_size s then n else file_size s - off)"
    using assms(1-4) by (auto simp: do_punch_hole_def Let_def w simulated_iff dest!: check_call_ret)
  moreover have "(if off + n \<le> file_size s then n else file_size s - off) = min n (file_size s - off)" using assms(4) by auto
  ultimately show ?thesis using punch_good [of off "file_size s" "good_buf s" n] assms(4,6) by (simp add: contents_def)
qed

lemma do_collapse_range_contents:
  assumes "do_collapse_range sys cfg off n s = ret s'" and "live cfg s" and "0 < n" and "off + n < file_size s" and "file_size s < 2 ^ 31"
    and "file_size s \<le> length (good_buf s)"
  shows "contents s' = file_collapse (contents s) off n"
proof -
  have w: "wrap32 (off + n) = off + n" using assms(4,5) by simp
  have "file_size s' = file_size s - n"
    "good_buf s' = put_at (good_buf s) off (slice (good_buf s) (off + n) (file_size s - (off + n)))"
    using assms(1-4) by (auto simp: do_collapse_range_def Let_def w live_def dest!: check_call_ret)
  then show ?thesis using collapse_good [of off n "file_size s" "good_buf s"] assms(4,6) by (simp add: contents_def)
qed

lemma do_insert_range_contents:
  assumes "do_insert_range sys cfg off n s = ret s'" and "live cfg s" and "0 < n" and "off < file_size s"
    and "file_size s + n \<le> length (good_buf s)" and "file_size s + n < 2 ^ 31"
  shows "contents s' = file_insert (contents s) off n"
proof -
  have w: "wrap32 (off + n) = off + n" using assms(4,6) by simp
  have "file_size s' = file_size s + n"
    "good_buf s' = memset0 (put_at (good_buf s) (off + n) (slice (good_buf s) off (file_size s - off))) off n"
    using assms(1-4) by (auto simp: do_insert_range_def Let_def w live_def dest!: check_call_ret)
  then show ?thesis using insert_good [of off "file_size s" n "good_buf s"] assms(4,5) by (simp add: contents_def)
qed

lemma do_exchange_range_contents:
  assumes "do_exchange_range sys cfg off n dst s = ret s'" and "live cfg s" and "0 < n" and "off + n \<le> file_size s" "dst + n \<le> file_size s"
    and "file_size s \<le> length (good_buf s)"
  shows "contents s' = file_exchange (contents s) off n dst"
proof -
  have "file_size s' = file_size s"
    "good_buf s' = put_at (put_at (good_buf s) off (slice (good_buf s) dst n)) dst (slice (good_buf s) off n)"
    using assms(1-5) by (auto simp: do_exchange_range_def Let_def live_def dest!: check_call_ret split: if_splits)
  then show ?thesis using exchange_good [OF assms(4-6)] by (simp add: contents_def)
qed

lemma do_zero_range_contents:
  assumes "do_zero_range sys cfg off n keep s = ret s'" and "live cfg s" and "0 < n" and "off + n \<le> length (good_buf s)" "off + n < 2 ^ 31"
    and "file_size s \<le> length (good_buf s)"
  shows "contents s' = file_zero (if keep then contents s else file_resize (contents s) (max (length (contents s)) (off + n))) off n"
proof -
  have w: "wrap32 (off + n) = off + n" using assms(5) by simp
  define e where "e = (if keep then 0 else off + n)"
  define s0 where "s0 = log4 OP_ZERO_RANGE (c_int off) (c_int n) (if keep then {FL_KEEP_SIZE} else FL_NONE)
    (if e > biggest s then s\<lparr>biggest := e\<rparr> else s)"
  have same: "good_buf s0 = good_buf s" "file_size s0 = file_size s" "testcalls s0 = testcalls s" by (simp_all add: s0_def)
  define s1 where "s1 = (if \<not> keep \<and> e > file_size s0 then update_file_size sys cfg off n s0 else s0)"
  have s1: "s1 = (if keep then s0 else extended sys cfg off n s0)" by (simp add: s1_def extended_def e_def)
  have b: "off + n < 2 ^ 32" using assms(5) by simp
  note X = extended_fields [OF b, of sys cfg s0]
  have "file_size s' = file_size s1" "good_buf s' = memset0 (good_buf s1) off n"
    using assms(1-3) same X(3) unfolding do_zero_range_def Let_def w e_def [symmetric] s0_def [symmetric] s1_def [symmetric]
    by (auto simp: live_def s1 dest!: check_call_ret split: if_splits)
  then show ?thesis using X(1,2) same zero_good_keep [OF assms(4,6)] zero_good_grow [OF assms(4,6)] assms(6)
    by (cases keep) (simp_all add: contents_def s1)
qed

lemma do_clone_range_contents:
  assumes "do_clone_range sys cfg off n dst s = ret s'" and "live cfg s" and "0 < n" and "off + n \<le> file_size s"
    and "dst + n \<le> length (good_buf s)" "dst + n < 2 ^ 31" and "file_size s \<le> length (good_buf s)"
  shows "contents s' = file_write (contents s) dst (slice (contents s) off n)"
proof -
  have w: "wrap32 (dst + n) = dst + n" and b: "dst + n < 2 ^ 32" using assms(6) by simp_all
  define s0 where "s0 = log5 OP_CLONE_RANGE (c_int off) (c_int n) (c_int dst) FL_NONE (if dst + n > biggest s then s\<lparr>biggest := dst + n\<rparr> else s)"
  have same: "good_buf s0 = good_buf s" "file_size s0 = file_size s" "testcalls s0 = testcalls s" by (simp_all add: s0_def)
  define s1 where "s1 = extended sys cfg dst n s0"
  note X = extended_fields [OF b, of sys cfg s0, folded s1_def]
  have "file_size s' = file_size s1" "good_buf s' = put_at (good_buf s1) dst (slice (good_buf s1) off n)"
    using assms(1-4) same X(3)
    unfolding do_clone_range_def Let_def w s0_def [symmetric] extended_def [symmetric] s1_def [symmetric]
    by (auto simp: live_def dest!: check_call_ret split: if_splits)
  then show ?thesis using X(1,2) same copy_good [OF assms(4,5,7)] by (simp add: contents_def)
qed

lemma do_copy_range_contents:
  assumes "do_copy_range sys cfg off n dst s = ret s'" and "live cfg s" and "0 < n" and "off + n \<le> file_size s"
    and "dst + n \<le> length (good_buf s)" "dst + n < 2 ^ 31" and "file_size s \<le> length (good_buf s)"
  shows "contents s' = file_write (contents s) dst (slice (contents s) off n)"
proof -
  have w: "wrap32 (dst + n) = dst + n" and b: "dst + n < 2 ^ 32" using assms(6) by simp_all
  define s0 where "s0 = log5 OP_COPY_RANGE (c_int off) (c_int n) (c_int dst) FL_NONE (if dst + n > biggest s then s\<lparr>biggest := dst + n\<rparr> else s)"
  have same: "good_buf s0 = good_buf s" "file_size s0 = file_size s" "testcalls s0 = testcalls s" by (simp_all add: s0_def)
  define s1 where "s1 = extended sys cfg dst n s0"
  note X = extended_fields [OF b, of sys cfg s0, folded s1_def]
  have loop: "\<exists>f. s2 = s1\<lparr>fsys := f\<rparr>" if "copy_loop sys off dst n 0 s1 = ret s2" for s2
    using copy_loop_frame [OF that [unfolded ret_def]] by auto
  have "file_size s' = file_size s1" "good_buf s' = put_at (good_buf s1) dst (slice (good_buf s1) off n)"
    using assms(1-4) same X(3)
    unfolding do_copy_range_def Let_def w s0_def [symmetric] extended_def [symmetric] s1_def [symmetric]
    by (auto simp: live_def dest!: andthen_ret loop split: if_splits)
  then show ?thesis using X(1,2) same copy_good [OF assms(4,5,7)] by (simp add: contents_def)
qed

lemma dotruncate_contents:
  assumes "dotruncate sys cfg n s = ret s'" and "n mod truncbdy cfg = 0" and "n \<le> length (good_buf s)" "n < 2 ^ 31"
    and "file_size s \<le> length (good_buf s)"
  shows "contents s' = file_resize (contents s) n"
proof -
  define s0 where "s0 = log4 OP_TRUNCATE 0 (c_int n) FL_NONE (if n > biggest s then s\<lparr>biggest := n\<rparr> else s)"
  define s1 where "s1 = (if n < file_size s0 then pollute_eofpage sys cfg (wrap32 (maxfilelen cfg)) s0 else s0)"
  have n0: "n - n mod truncbdy cfg = n" using assms(2) by simp
  have same: "good_buf s1 = good_buf s" "file_size s1 = file_size s" by (simp_all add: s1_def s0_def)
  have "n + 0 < 2 ^ 32" using assms(4) by simp
  from update_frame [OF this, of sys cfg s1] have "good_buf (update_file_size sys cfg n 0 s1) = grow_gap (good_buf s) (file_size s) n"
    "file_size (update_file_size sys cfg n 0 s1) = n" using same by auto
  then have "good_buf s' = grow_gap (good_buf s) (file_size s) n" "file_size s' = n"
    using assms(1) unfolding dotruncate_def Let_def n0 s0_def [symmetric] s1_def [symmetric]
    by (auto dest!: check_call_ret split: if_splits)
  then show ?thesis using resize_good [OF assms(3,5)] by (simp add: contents_def)
qed

lemma do_preallocate_contents:
  assumes "do_preallocate sys cfg off n keep unshare s = ret s'" and "0 < n" and "off + n \<le> length (good_buf s)" "off + n < 2 ^ 31"
    and "file_size s \<le> length (good_buf s)"
  shows "contents s' = (if keep then contents s else file_resize (contents s) (max (length (contents s)) (off + n)))"
proof -
  have w: "wrap32 (off + n) = off + n" and b: "off + n < 2 ^ 32" using assms(4) by simp_all
  define e where "e = (if keep then 0 else off + n)"
  define s0 where "s0 = log4 OP_FALLOCATE (c_int off) (c_int n)
    ((if keep then {FL_KEEP_SIZE} else FL_NONE) \<union> (if unshare then {FL_UNSHARE} else FL_NONE))
    (if e > biggest s then s\<lparr>biggest := e\<rparr> else s)"
  have same: "good_buf s0 = good_buf s" "file_size s0 = file_size s" by (simp_all add: s0_def)
  define g1 where "g1 = memset0 (good_buf s0) (file_size s0) (e - file_size s0)"
  define s1 where "s1 = (if e > file_size s0 then update_file_size sys cfg off n (s0\<lparr>good_buf := g1\<rparr>) else s0)"
  have ret: "good_buf s' = good_buf s1" "file_size s' = file_size s1"
    using assms(1,2) unfolding do_preallocate_def Let_def w e_def [symmetric] s0_def [symmetric] g1_def [symmetric] s1_def [symmetric]
    by (auto dest!: check_call_ret split: if_splits)
  show ?thesis
  proof (cases "e > file_size s0")
    case True
    then have k: "\<not> keep" and e: "e = off + n" by (auto simp: e_def split: if_splits)
    obtain f where "s1 = s0\<lparr>fsys := f, good_buf := grow_gap g1 (file_size s) off, file_size := off + n\<rparr>"
      using update_frame [OF b, of sys cfg "s0\<lparr>good_buf := g1\<rparr>"] True same by (auto simp: s1_def)
    moreover have "file_resize (take (file_size s) (good_buf s)) (off + n) = take (off + n) (grow_gap g1 (file_size s) off)"
      by (rule nth_equalityI) (use True assms(3,5) same in \<open>auto simp: buf_simps e g1_def\<close>)
    ultimately show ?thesis using ret k True same assms(5) by (simp add: contents_def e max_def)
  next
    case False
    then have "s1 = s0" "keep \<or> off + n \<le> file_size s" using same by (auto simp: s1_def e_def split: if_splits)
    then show ?thesis using ret same assms(5) by (auto simp: contents_def file_resize_def)
  qed
qed

definition range_call ::
  "'f sys \<Rightarrow> fsx_cfg \<Rightarrow> fsx_op \<Rightarrow> nat \<Rightarrow> nat \<Rightarrow> nat \<Rightarrow> bool \<Rightarrow> bool \<Rightarrow> 'f fsx \<Rightarrow> ('f, 'f fsx) fsx_result" where
  "range_call sys cfg op off n dst keep unshare s =
     (case op of
        OP_PUNCH_HOLE \<Rightarrow> do_punch_hole sys cfg off n s
      | OP_ZERO_RANGE \<Rightarrow> do_zero_range sys cfg off n keep s
      | OP_COLLAPSE_RANGE \<Rightarrow> do_collapse_range sys cfg off n s
      | OP_INSERT_RANGE \<Rightarrow> do_insert_range sys cfg off n s
      | OP_EXCHANGE_RANGE \<Rightarrow> do_exchange_range sys cfg off n dst s
      | OP_CLONE_RANGE \<Rightarrow> do_clone_range sys cfg off n dst s
      | OP_COPY_RANGE \<Rightarrow> do_copy_range sys cfg off n dst s
      | OP_FALLOCATE \<Rightarrow> do_preallocate sys cfg off n keep unshare s
      | OP_TRUNCATE \<Rightarrow> dotruncate sys cfg n s
      | _ \<Rightarrow> ret s)"

definition range_fits :: "fsx_cfg \<Rightarrow> fsx_op \<Rightarrow> nat \<Rightarrow> nat \<Rightarrow> nat \<Rightarrow> 'f fsx \<Rightarrow> bool" where
  "range_fits cfg op off n dst s =
     (case op of
        OP_PUNCH_HOLE \<Rightarrow> off < file_size s \<and> off + n \<le> length (good_buf s)
      | OP_COLLAPSE_RANGE \<Rightarrow> off + n < file_size s
      | OP_INSERT_RANGE \<Rightarrow> off < file_size s \<and> file_size s + n \<le> length (good_buf s)
      | OP_EXCHANGE_RANGE \<Rightarrow> off + n \<le> file_size s \<and> dst + n \<le> file_size s
      | OP_CLONE_RANGE \<Rightarrow> off + n \<le> file_size s \<and> dst + n \<le> length (good_buf s)
      | OP_COPY_RANGE \<Rightarrow> off + n \<le> file_size s \<and> dst + n \<le> length (good_buf s)
      | OP_TRUNCATE \<Rightarrow> n \<le> length (good_buf s) \<and> n mod truncbdy cfg = 0
      | _ \<Rightarrow> off + n \<le> length (good_buf s))"

text \<open>
  C5. The bookkeeping refines the file: after every operation on ranges that returns outside the simulated part, on
  whatever file system, the contents \<open>fsx\<close> expects are the effect of the operation on the contents it expected before.
  The operation has a range that is not empty and that \<open>test\<close> would pass to it (\<open>range_fits\<close>), and a truncation is to a
  size that is not zero.
\<close>

theorem range_operations_predict_contents:
  assumes "range_call sys cfg op off n dst keep unshare s = ret s'" and "range_fits cfg op off n dst s" and "0 < n"
    and "simulatedopcount cfg < testcalls s" and "file_size s \<le> length (good_buf s)" and "length (good_buf s) < 2 ^ 31"
  shows "contents s' = range_effect op off n dst keep (contents s)"
proof -
  have L: "live cfg s" using assms(4) by (simp add: live_def)
  show ?thesis using assms(1-3,5,6) L
    by (cases op) (auto simp: range_call_def range_fits_def range_effect_def do_punch_hole_contents do_zero_range_contents
        do_collapse_range_contents do_insert_range_contents do_exchange_range_contents do_clone_range_contents
        do_copy_range_contents do_preallocate_contents dotruncate_contents)
qed

theorem range_operations_predict_contents_witness:
  "let s = demo_state\<lparr>fsys := \<lparr>mem_data = replicate 12 0, mem_past = (\<lambda>_. 0)\<rparr>, file_size := 12, testcalls := 3\<rparr> in
   \<exists>s'. range_call (mem_sys (\<lambda>i. i)) demo_cfg OP_COLLAPSE_RANGE 4 4 0 False False s = ret s' \<and>
     contents s' = range_effect OP_COLLAPSE_RANGE 4 4 0 False (contents s)"
proof -
  let ?s = "demo_state\<lparr>fsys := \<lparr>mem_data = replicate 12 0, mem_past = (\<lambda>_. 0)\<rparr>, file_size := 12, testcalls := 3\<rparr>"
  have G: "good_state demo_cfg mem_data mem_past ?s"
    by (simp add: good_state_def cleared_def demo_cfg_def demo_state_def)
  have "fsx_ok demo_cfg mem_data mem_past ?s (do_collapse_range (mem_sys (\<lambda>i. i)) demo_cfg 4 4 ?s)"
    by (rule do_collapse_range_ok [OF mem_sys_conforms demo_ok(1) G]) (simp_all add: demo_cfg_def)
  then obtain s' where s': "range_call (mem_sys (\<lambda>i. i)) demo_cfg OP_COLLAPSE_RANGE 4 4 0 False False ?s = ret s'"
    by (auto simp: fsx_ok_def range_call_def)
  have "contents s' = range_effect OP_COLLAPSE_RANGE 4 4 0 False (contents ?s)"
    by (rule range_operations_predict_contents [OF s']) (simp_all add: range_fits_def demo_cfg_def demo_state_def)
  then show ?thesis using s' by (auto simp: Let_def)
qed

lemma bind_ret: "Option.bind r (\<lambda>(f, x). k f x) = ret y \<Longrightarrow> \<exists>f x. k f x = ret y"
  by (cases r) (auto simp: ret_def)

lemma doflush_frame: "doflush sys cfg off n s = ret s' \<Longrightarrow> \<exists>f. s' = s\<lparr>fsys := f\<rparr>"
  by (fastforce simp: doflush_def Let_def intro: exI [of _ "fsys s"] dest!: check_call_ret split: if_splits)

lemma check_eofpage_ret: "check_eofpage sys cfg off m n s = ret s' \<Longrightarrow> s' = s"
  by (auto simp: check_eofpage_def Let_def split: if_splits)

lemma write_out_frame: "write_out sys cfg off n fl s = ret s' \<Longrightarrow> \<exists>f. s' = s\<lparr>fsys := f\<rparr>"
  unfolding write_out_def Let_def
  by (drule bind_ret) (auto dest!: check_call_ret doflush_frame split: if_splits)

lemma map_out_frame: "map_out sys cfg off n s = ret s' \<Longrightarrow> \<exists>f. s' = s\<lparr>fsys := f\<rparr>"
  unfolding map_out_def Let_def by (auto dest!: check_call_ret andthen_ret check_eofpage_ret)

lemma written_fields:
  assumes "off + length b \<le> length (good_buf s)" and "length (good_buf s) < 2 ^ 31"
  shows "good_buf (written sys cfg off b s) = grow_gap (put_at (good_buf s) off b) (file_size s) off"
    "file_size (written sys cfg off b s) = max (file_size s) (off + length b)"
proof -
  have "off + length b < 2 ^ 32" using assms by simp
  from update_frame [OF this, of sys cfg "s\<lparr>good_buf := put_at (good_buf s) off b\<rparr>"]
  show "good_buf (written sys cfg off b s) = grow_gap (put_at (good_buf s) off b) (file_size s) off"
    "file_size (written sys cfg off b s) = max (file_size s) (off + length b)"
    by (auto simp: written_def Let_def max_def grow_gap_def)
qed

lemma dowrite_state:
  assumes "dowrite sys cfg off n fl s = ret s'" and "fl \<noteq> RWF_ATOMIC" and "\<not> o_direct cfg" and "off mod writebdy cfg = 0" and "0 < n"
    and "off + n \<le> maxfilelen cfg" and "length (good_buf s) = maxfilelen cfg" and "maxfilelen cfg < 2 ^ 31"
  shows "\<exists>f. s' = (written sys cfg off (fresh cfg s off n) (log4 OP_WRITE (c_int off) (c_int n) FL_NONE s))\<lparr>fsys := f\<rparr>"
proof -
  have w: "wrap32 (off + n) = off + n" "off - off mod writebdy cfg = off" "n \<noteq> 0" using assms(4-6,8) by simp_all
  define s0 where "s0 = log4 OP_WRITE (c_int off) (c_int n) FL_NONE s"
  define s1 where "s1 = written sys cfg off (fresh cfg s off n) s0"
  have fr: "fresh cfg s off n = fresh cfg s0 off n" and len: "length (good_buf s0) = maxfilelen cfg"
    using assms(7) by (simp_all add: fresh_def s0_def)
  have s1: "s1 = (if file_size s0 < off + n
      then update_file_size sys cfg off n (s0\<lparr>good_buf := gendata cfg (testcalls s0) (original_buf s0) (good_buf s0) off n\<rparr>)
      else s0\<lparr>good_buf := gendata cfg (testcalls s0) (original_buf s0) (good_buf s0) off n\<rparr>)"
    using gendata_written [OF len assms(6,8), of sys] by (simp add: s1_def fr w(1))
  have eq: "dowrite sys cfg off n fl s = (if file_size s0 < off + n \<and> lite cfg then report_failure 149 s1
      else if testcalls s1 \<le> simulatedopcount cfg then ret s1 else write_out sys cfg off n fl s1)"
    unfolding dowrite_def Let_def s1
    by (simp only: assms(2,3) w simp_thms if_False s0_def [symmetric] file_size_good_buf)
  have "\<exists>f. s1 = s1\<lparr>fsys := f\<rparr>" by (rule exI [of _ "fsys s1"]) simp
  then have "\<exists>f. s' = s1\<lparr>fsys := f\<rparr>" using assms(1) by (auto simp: eq split: if_splits dest: write_out_frame)
  then show ?thesis by (simp add: s1_def s0_def)
qed

lemma domapwrite_state:
  assumes "domapwrite sys cfg off n s = ret s'" and "off mod writebdy cfg = 0" and "0 < n"
    and "off + n \<le> maxfilelen cfg" and "length (good_buf s) = maxfilelen cfg" and "maxfilelen cfg < 2 ^ 31"
  shows "\<exists>f. s' = (written sys cfg off (fresh cfg s off n) (log4 OP_MAPWRITE (c_int off) (c_int n) FL_NONE s))\<lparr>fsys := f\<rparr>"
proof -
  have w: "wrap32 (off + n) = off + n" "off - off mod writebdy cfg = off" "n \<noteq> 0" using assms(2-4,6) by simp_all
  define s0 where "s0 = log4 OP_MAPWRITE (c_int off) (c_int n) FL_NONE s"
  define s1 where "s1 = written sys cfg off (fresh cfg s off n) s0"
  have fr: "fresh cfg s off n = fresh cfg s0 off n" and len: "length (good_buf s0) = maxfilelen cfg"
    using assms(5) by (simp_all add: fresh_def s0_def)
  have s1: "s1 = (if file_size s0 < off + n
      then update_file_size sys cfg off n (s0\<lparr>good_buf := gendata cfg (testcalls s0) (original_buf s0) (good_buf s0) off n\<rparr>)
      else s0\<lparr>good_buf := gendata cfg (testcalls s0) (original_buf s0) (good_buf s0) off n\<rparr>)"
    using gendata_written [OF len assms(4,6), of sys] by (simp add: s1_def fr w(1))
  have eq: "domapwrite sys cfg off n s = (if file_size s0 < off + n \<and> lite cfg then report_failure 200 s1
      else if testcalls s1 \<le> simulatedopcount cfg then ret s1
      else if file_size s1 > file_size s
      then case sys_ftruncate sys (fsys s1) (file_size s1) of (f, ok) \<Rightarrow>
        if \<not> ok then exit_with 201 (s1\<lparr>fsys := f\<rparr>) else map_out sys cfg off n (s1\<lparr>fsys := f\<rparr>)
      else map_out sys cfg off n s1)"
    unfolding domapwrite_def Let_def s1
    by (simp only: w simp_thms if_False s0_def [symmetric] file_size_good_buf)
  have "\<exists>f. s1 = s1\<lparr>fsys := f\<rparr>" by (rule exI [of _ "fsys s1"]) simp
  then have "\<exists>f. s' = s1\<lparr>fsys := f\<rparr>" using assms(1) by (auto simp: eq split: if_splits prod.splits dest!: map_out_frame)
  then show ?thesis by (simp add: s1_def s0_def)
qed

text \<open>
  C11. A write or a write through a mapping that returns, on whatever file system, leaves \<open>fsx\<close> expecting the file with
  the generated bytes at the offset: a gap before them is zero and all other bytes are as before.  This is for writes
  of at least one byte within the limit of the file length, at an offset that is a multiple of \<open>writebdy\<close>; atomic writes
  and \<open>O_DIRECT\<close>, for which the code changes offset and size first, are left out.
\<close>

theorem writes_predict_contents:
  assumes "dowrite sys cfg off n fl s = ret s' \<or> domapwrite sys cfg off n s = ret s'"
    and "fl \<noteq> RWF_ATOMIC" and "\<not> o_direct cfg" and "off mod writebdy cfg = 0" and "0 < n"
    and "off + n \<le> maxfilelen cfg" and "length (good_buf s) = maxfilelen cfg" and "maxfilelen cfg < 2 ^ 31"
    and "file_size s \<le> maxfilelen cfg"
  shows "contents s' = file_write (contents s) off (map (gen_byte cfg (testcalls s) (original_buf s)) [off..<off + n])"
proof -
  obtain op f where s': "s' = (written sys cfg off (fresh cfg s off n) (log4 op (c_int off) (c_int n) FL_NONE s))\<lparr>fsys := f\<rparr>"
    using assms(1) dowrite_state [OF _ assms(2-8)] domapwrite_state [OF _ assms(4-8)] by blast
  then show ?thesis
    using written_fields [of off "fresh cfg s off n" "log4 op (c_int off) (c_int n) FL_NONE s" sys cfg]
      write_good [of off "fresh cfg s off n" "good_buf s" "file_size s"] assms(6-9)
    by (simp add: contents_def) (simp add: fresh_def)
qed

theorem writes_predict_contents_witness:
  "let s = demo_state\<lparr>testcalls := 1\<rparr> in
   \<exists>s'. dowrite (mem_sys (\<lambda>i. i)) demo_cfg 3 5 RWF_NONE s = ret s' \<and>
     contents s' = file_write (contents s) 3 (map (gen_byte demo_cfg (testcalls s) (original_buf s)) [3..<3 + 5])"
proof -
  let ?s = "demo_state\<lparr>testcalls := 1\<rparr>"
  have "good_state demo_cfg mem_data mem_past ?s" by (simp add: good_state_def cleared_def demo_cfg_def demo_state_def)
  from dowrite_ok [OF mem_sys_conforms demo_ok(1) this, of 3 5 RWF_NONE] obtain s' where
    s': "dowrite (mem_sys (\<lambda>i. i)) demo_cfg 3 5 RWF_NONE ?s = ret s'" by (auto simp: fsx_ok_def demo_cfg_def)
  have "contents s' = file_write (contents ?s) 3 (map (gen_byte demo_cfg (testcalls ?s) (original_buf ?s)) [3..<3 + 5])"
    by (rule writes_predict_contents [OF disjI1 [OF s']]) (simp_all add: demo_cfg_def demo_state_def)
  then show ?thesis using s' by (auto simp: Let_def)
qed

end
