(* ===== verification/Fsx_Log_Proofs.thy ===== *)
theory Fsx_Log_Proofs
  imports Fsx_Run
begin

text \<open>
  The operation log of \<open>src/ltp/fsx.c\<close>: what the ring holds, what the dump writes, and that the replay
  reads back what the dump wrote.
\<close>

section \<open>The ring of log entries\<close>

text \<open>\<open>hist\<close> is everything logged so far; the ring holds its last \<open>LOGSIZE\<close> entries.\<close>

definition log_holds :: "'f fsx \<Rightarrow> log_entry list \<Rightarrow> bool" where
  "log_holds s hist \<longleftrightarrow> logcount s = length hist \<and> logptr s = length hist mod LOGSIZE \<and>
     (\<forall>i < length hist. length hist \<le> i + LOGSIZE \<longrightarrow> oplog s (i mod LOGSIZE) = hist ! i)"

lemma LOGSIZE_pos [simp]: "0 < LOGSIZE"
  by (simp add: LOGSIZE_def)

lemma mod_ring_neq:
  assumes "i < n" and "n < i + (m :: nat)"
  shows "i mod m \<noteq> n mod m"
proof
  assume "i mod m = n mod m"
  then have "m dvd n - i" using mod_eq_dvd_iff_nat [of i n m] assms(1) by (simp add: eq_commute)
  then show False using assms by (auto dest: dvd_imp_le)
qed

lemma log_holds_store:
  assumes "log_holds s hist"
  shows "log_holds (log_advance (s\<lparr>oplog := (oplog s)(logptr s := e)\<rparr>)) (hist @ [e])"
proof -
  have "length hist mod LOGSIZE < LOGSIZE" by simp
  then have "LOGSIZE \<le> Suc (length hist mod LOGSIZE) \<longleftrightarrow> Suc (length hist mod LOGSIZE) = LOGSIZE" by linarith
  then have "(if logptr s + 1 \<ge> LOGSIZE then 0 else logptr s + 1) = Suc (length hist) mod LOGSIZE"
    using assms by (simp add: log_holds_def mod_Suc)
  moreover have "i mod LOGSIZE \<noteq> length hist mod LOGSIZE" if "i < length hist" "Suc (length hist) \<le> i + LOGSIZE" for i
    using mod_ring_neq [of i "length hist" LOGSIZE] that by simp
  ultimately show ?thesis using assms
    by (auto simp: log_holds_def log_advance_def Let_def nth_append less_Suc_eq)
qed

lemma log_holds_log4: "log_holds s hist \<Longrightarrow> log_holds (log4 op a b fl s) (hist @ [oplog (log4 op a b fl s) (logptr s)])"
  using log_holds_store [of s hist] by (simp add: log4_def Let_def) (simp add: log_advance_def Let_def)

lemma log_holds_log5: "log_holds s hist \<Longrightarrow> log_holds (log5 op a b c fl s) (hist @ [oplog (log5 op a b c fl s) (logptr s)])"
  using log_holds_store [of s hist] by (simp add: log5_def Let_def) (simp add: log_advance_def Let_def)

lemma dump_loop_snd:
  "i < LOGSIZE \<Longrightarrow> map snd (dump_loop s i n) = map (\<lambda>k. op_line (badoff s) (oplog s ((i + k) mod LOGSIZE))) [0..<n]"
proof (induction n arbitrary: i)
  case (Suc n)
  let ?i = "if i + 1 = LOGSIZE then 0 else i + 1"
  have step: "(?i + k) mod LOGSIZE = (i + Suc k) mod LOGSIZE" for k
    using Suc.prems by (cases "i + 1 = LOGSIZE") (auto, metis add.commute add_Suc_right mod_add_self2)
  have "map snd (dump_loop s i (Suc n)) = op_line (badoff s) (oplog s i) # map snd (dump_loop s ?i n)" by (simp add: Let_def)
  also have "map snd (dump_loop s ?i n) = map (\<lambda>k. op_line (badoff s) (oplog s ((?i + k) mod LOGSIZE))) [0..<n]"
    by (rule Suc.IH) (use Suc.prems in auto)
  also have "\<dots> = map (\<lambda>k. op_line (badoff s) (oplog s ((i + k) mod LOGSIZE))) [Suc 0..<Suc n]"
    unfolding step by (simp add: map_Suc_upt [symmetric] comp_def del: upt_Suc)
  finally show ?case using Suc.prems by (simp add: upt_conv_Cons del: upt_Suc)
qed simp

text \<open>
  C18. The file of operations that \<open>logdump\<close> writes has one line for each of the last \<open>LOGSIZE\<close> operations logged, or
  for all of them if there are fewer, oldest first; and logging an operation appends it to what is logged.
\<close>

theorem logdump_writes_last_operations:
  assumes "log_holds s hist"
  shows "snd (logdump s) = concat (map (op_line (badoff s)) (drop (length hist - LOGSIZE) hist)) \<and>
    log_holds (log4 op a b fl s) (hist @ [oplog (log4 op a b fl s) (logptr s)])"
proof -
  have p: "logptr s < LOGSIZE" using assms by (simp add: log_holds_def)
  have entries: "map snd (case dump_start s of (i, n) \<Rightarrow> dump_loop s i n) = map (op_line (badoff s)) (drop (length hist - LOGSIZE) hist)"
  proof (cases "logcount s < LOGSIZE")
    case True
    then show ?thesis using assms
      by (intro nth_equalityI) (auto simp: dump_start_def dump_loop_snd log_holds_def)
  next
    case False
    define d where "d = length hist - LOGSIZE"
    have len: "length hist = d + LOGSIZE" using False assms by (simp add: d_def log_holds_def)
    have "oplog s ((logptr s + k) mod LOGSIZE) = hist ! (d + k)" if "k < LOGSIZE" for k
    proof -
      have "(logptr s + k) mod LOGSIZE = (d + k) mod LOGSIZE" using assms len by (simp add: log_holds_def mod_add_left_eq)
      moreover have "oplog s ((d + k) mod LOGSIZE) = hist ! (d + k)" using assms len that by (simp add: log_holds_def)
      ultimately show ?thesis by simp
    qed
    then show ?thesis using False p len unfolding d_def [symmetric]
      by (intro nth_equalityI) (auto simp: dump_start_def dump_loop_snd)
  qed
  have "snd (logdump s) = concat (map (op_line (badoff s)) (drop (length hist - LOGSIZE) hist))"
    unfolding logdump_def Let_def snd_conv entries ..
  then show ?thesis using log_holds_log4 [OF assms] by blast
qed

theorem logdump_writes_last_operations_witness:
  "let s = log4 OP_WRITE 0 5 FL_NONE demo_state; hist = [oplog s 0] in
   snd (logdump s) = concat (map (op_line (badoff s)) (drop (length hist - LOGSIZE) hist)) \<and>
    log_holds (log4 OP_READ 0 5 FL_NONE s) (hist @ [oplog (log4 OP_READ 0 5 FL_NONE s) (logptr s)])"
proof -
  have "log_holds demo_state []" by (simp add: log_holds_def demo_state_def)
  from log_holds_log4 [OF this] have "log_holds (log4 OP_WRITE 0 5 FL_NONE demo_state) [oplog (log4 OP_WRITE 0 5 FL_NONE demo_state) 0]"
    by (simp add: demo_state_def)
  from logdump_writes_last_operations [OF this] show ?thesis unfolding Let_def .
qed

section \<open>Printing and reading numbers\<close>

lemma show_digit_plain: "n < 16 \<Longrightarrow> \<not> token_sep (show_digit n)"
  by (auto simp: token_sep_def show_digit_def TAB_def NL_def dest!: arg_cong [of _ _ "of_char :: char \<Rightarrow> nat"])

lemma show_base_plain: "c \<in> set (show_base 16 n) \<Longrightarrow> \<not> token_sep c"
  using show_base_digits [of n] show_digit_plain by fastforce

lemma strtoul0_hex:
  assumes "n < 2 ^ 64"
  shows "strtoul0 (''0x'' @ show_base 16 n) = (n, [])"
proof -
  have h: "digit_value (hd (show_base 16 n)) < 16"
    by (rule show_base_hex [OF hd_in_set]) simp
  then have h': "digit_value (show_base 16 n ! 0) < 16" by (simp add: hd_conv_nth)
  have "dropWhile isspace_c (''0x'' @ show_base 16 n) = ''0x'' @ show_base 16 n" by (simp add: isspace_c_def)
  then show ?thesis using assms h h' read_show_base [of n] by (simp add: strtoul0_def scan_number_def Let_def)
qed

lemma fmt_x_round_trip:
  assumes "- (2 ^ 31) \<le> a" and "a < 2 ^ 31"
  shows "\<exists>v. strtoul0 (''0x'' @ fmt_x a) = (v, []) \<and> c_int v = a"
proof -
  have "nat (a mod 2 ^ 32) < 2 ^ 64" by (simp add: nat_less_iff)
  from strtoul0_hex [OF this] have "strtoul0 (''0x'' @ fmt_x a) = (nat (a mod 2 ^ 32), [])" by (simp add: fmt_x_def)
  moreover have "c_int (nat (a mod 2 ^ 32)) = a"
    using assms by (simp add: c_int_def mod_add_left_eq)
  ultimately show ?thesis by blast
qed

lemma fmt_x_plain: "c \<in> set (fmt_x a) \<Longrightarrow> \<not> token_sep c"
  using show_base_plain by (simp add: fmt_x_def)

section \<open>Lines and tokens\<close>

lemma fgets_line: "NL \<notin> set line \<Longrightarrow> length line < n \<Longrightarrow> fgets n (line @ NL # rest) = (line @ [NL], rest)"
  by (induction line arbitrary: n) auto

lemma tokens_word:
  "w \<noteq> [] \<Longrightarrow> \<forall>c \<in> set w. \<not> token_sep c \<Longrightarrow> r = [] \<or> token_sep (hd r) \<Longrightarrow> tokens (w @ r) = w # tokens r"
  unfolding tokens_def by (rule strtok_all_word) auto

lemma tokens_sep: "token_sep c \<Longrightarrow> tokens (c # r) = tokens r"
  unfolding tokens_def by (rule strtok_all_sep)

definition words_line :: "string list \<Rightarrow> string" where
  "words_line ws = concat (map (\<lambda>w. CHR '' '' # w) ws)"

lemma words_line_simps: "words_line [] = []" "words_line (w # ws) = CHR '' '' # w @ words_line ws" 
  "words_line (ws @ vs) = words_line ws @ words_line vs"
  by (simp_all add: words_line_def)

lemma tokens_words_line:
  "\<forall>w \<in> set ws. w \<noteq> [] \<and> (\<forall>c \<in> set w. \<not> token_sep c) \<Longrightarrow> tokens (words_line ws @ [NL]) = ws"
proof (induction ws)
  case Nil
  then show ?case by (simp add: words_line_simps tokens_sep token_sep_def) (simp add: tokens_def)
next
  case (Cons w ws)
  have "token_sep (hd (words_line ws @ [NL]))" by (cases ws) (simp_all add: words_line_simps token_sep_def)
  then show ?case using Cons tokens_word [of w "words_line ws @ [NL]"]
    by (simp add: words_line_simps tokens_sep token_sep_def)
qed

definition flag_words :: "int \<Rightarrow> log_entry \<Rightarrow> string list" where
  "flag_words bad lp =
     (if FL_KEEP_SIZE \<in> flags lp then [''keep_size''] else []) @ (if FL_CLOSE_OPEN \<in> flags lp then [''close_open''] else []) @
     (if FL_UNSHARE \<in> flags lp then [''unshare''] else []) @ (if entry_overlap bad lp then [''*''] else [])"

definition op_words :: "int \<Rightarrow> log_entry \<Rightarrow> string list" where
  "op_words bad lp = (if FL_SKIPPED \<in> flags lp then [''skip''] else []) @ op_names (operation lp) #
     map (\<lambda>a. ''0x'' @ fmt_x a) (take (nr_args lp) (args lp)) @ flag_words bad lp"

lemma op_line_words: "CHR '' '' # op_line bad lp = words_line (op_words bad lp) @ [NL]"
  by (simp add: op_line_def op_words_def flag_words_def words_line_def comp_def)

lemma op_names_plain: "op_names op \<noteq> []" "c \<in> set (op_names op) \<Longrightarrow> \<not> token_sep c" "length (op_names op) \<le> 15"
  "hd (op_names op) \<noteq> CHR ''#''" "op_names op \<noteq> ''skip''"
  by (cases op; auto simp: op_names_def token_sep_def TAB_def NL_def)+

lemma op_code_name: "op_code (op_names op) = Some op"
  by (cases op) (simp_all add: op_code_def fsx_ops_def op_names_def)

definition plain :: "string \<Rightarrow> bool" where
  "plain w \<longleftrightarrow> w \<noteq> [] \<and> (\<forall>c \<in> set w. \<not> token_sep c)"

lemma plain_words [simp]:
  "plain ''skip''" "plain ''keep_size''" "plain ''close_open''" "plain ''unshare''" "plain ''*''"
  "plain (op_names op)" "plain (CHR ''0'' # CHR ''x'' # fmt_x a)"
  using op_names_plain(1,2) fmt_x_plain by (auto simp: plain_def) (simp_all add: token_sep_def TAB_def NL_def)

lemma op_words_plain: "\<forall>w \<in> set (op_words bad lp). w \<noteq> [] \<and> (\<forall>c \<in> set w. \<not> token_sep c)"
  unfolding plain_def [symmetric] by (auto simp: op_words_def flag_words_def)

lemma tokens_op_line: "tokens (op_line bad lp) = op_words bad lp"
  using tokens_words_line [OF op_words_plain] tokens_sep [of "CHR '' ''" "op_line bad lp"]
  by (simp add: op_line_words token_sep_def)

lemma op_line_body:
  assumes "nr_args lp \<le> 4"
  obtains line where "op_line bad lp = line @ [NL]" "NL \<notin> set line" "length line < 255"
proof -
  define line where "line = butlast (op_line bad lp)"
  have l: "op_line bad lp = line @ [NL]" by (simp add: line_def op_line_def butlast_append)
  have "CHR '' '' # line = words_line (op_words bad lp)" using op_line_words [of bad lp] l by simp
  moreover have "NL \<notin> set (words_line (op_words bad lp))"
    using op_words_plain [of bad lp] by (auto simp: words_line_def token_sep_def NL_def)
  moreover have "length (words_line (op_words bad lp)) < 200"
  proof -
    have args: "length (words_line (map (\<lambda>a. ''0x'' @ fmt_x a) as)) \<le> 11 * length as" for as
    proof (induction as)
      case (Cons a as)
      then show ?case using length_fmt_x [of a] by (simp add: words_line_simps)
    qed (simp add: words_line_simps)
    have "length (words_line (map (\<lambda>a. ''0x'' @ fmt_x a) (take (nr_args lp) (args lp)))) \<le> 44"
      using args [of "take (nr_args lp) (args lp)"] assms by simp
    then show ?thesis using op_names_plain(3) [of "operation lp"] by (simp add: op_words_def flag_words_def words_line_simps)
  qed
  ultimately have "NL \<notin> set (CHR '' '' # line)" "length (CHR '' '' # line) < 200" by simp_all
  then show ?thesis using that [OF l] by simp
qed

lemma read_args_printed:
  "\<forall>a \<in> set as. - (2 ^ 31) \<le> a \<and> a < 2 ^ 31 \<Longrightarrow>
    read_args (length as) (map (\<lambda>a. ''0x'' @ fmt_x a) as @ toks) = Some (as, toks)"
proof (induction as)
  case Nil
  then show ?case by (cases toks) simp_all
next
  case (Cons a as)
  obtain v where "strtoul0 (''0x'' @ fmt_x a) = (v, [])" "c_int v = a" using fmt_x_round_trip [of a] Cons.prems by auto
  then show ?case using Cons by simp
qed

lemma read_flags_printed:
  "read_flags (flag_words bad lp) fl = Some (fl \<union> (flags lp \<inter> {FL_KEEP_SIZE, FL_CLOSE_OPEN, FL_UNSHARE}))"
  by (auto simp: flag_words_def)

lemma parse_op_words:
  assumes "name \<noteq> ''skip''"
  shows "parse_op ((if b then [''skip''] else []) @ name # toks) =
    Option.bind (op_code name) (\<lambda>op. Option.bind (read_args (op_args_count op) toks) (\<lambda>(as, toks).
      Option.bind (read_flags toks (if b then {FL_SKIPPED} else FL_NONE)) (\<lambda>fl.
        Some \<lparr>operation = op, nr_args = op_args_count op, args = as @ replicate (4 - op_args_count op) 0, flags = fl\<rparr>)))"
  using assms by (cases b) (simp_all add: parse_op_def)

definition printable :: "log_entry \<Rightarrow> bool" where
  "printable le \<longleftrightarrow> nr_args le = op_args_count (operation le) \<and> length (args le) = 4 \<and>
     list_all (\<lambda>a. - (2 ^ 31) \<le> a \<and> a < 2 ^ 31) (args le)"

text \<open>
  C12. Reading back what was written: the line \<open>logdump\<close> writes for an entry with the argument count of its
  operation is parsed by \<open>read_op\<close> into the same operation, the same arguments and the same flags, and the rest of
  the file is what follows the line.
\<close>

theorem read_op_reads_logged_line:
  assumes "printable le"
  shows "read_op (op_line bad le @ rest) =
    Read_entry (le\<lparr>args := take (nr_args le) (args le) @ replicate (4 - nr_args le) 0\<rparr>) rest"
proof -
  have nr: "nr_args le = op_args_count (operation le)" "nr_args le \<le> 4" "length (args le) = 4"
    using assms by (auto simp: printable_def op_args_count_def)
  obtain line where line: "op_line bad le = line @ [NL]" "NL \<notin> set line" "length line < 255" by (rule op_line_body [OF nr(2)])
  have "hd (hd (op_words bad le)) \<noteq> CHR ''#''" "op_words bad le \<noteq> []" using op_names_plain(4) by (auto simp: op_words_def)
  moreover have "fgets 255 (op_line bad le @ rest) = (op_line bad le, rest)" using fgets_line [OF line(2,3)] line(1) by simp
  ultimately have next_line: "next_op_line (op_line bad le @ rest) = Some (op_words bad le, rest)"
    using line(1) tokens_op_line [of bad le] by (subst next_op_line.simps) (simp add: Let_def)
  let ?as = "take (nr_args le) (args le)"
  have "\<forall>a \<in> set ?as. - (2 ^ 31) \<le> a \<and> a < 2 ^ 31"
    using assms set_take_subset by (fastforce simp: printable_def list_all_iff)
  from read_args_printed [OF this] have ra: "read_args (op_args_count (operation le)) (map (\<lambda>a. ''0x'' @ fmt_x a) ?as @ toks) = Some (?as, toks)" for toks
    using nr by simp
  define skip where "skip = (if FL_SKIPPED \<in> flags le then {FL_SKIPPED} else FL_NONE)"
  have fl: "skip \<union> (flags le \<inter> {FL_KEEP_SIZE, FL_CLOSE_OPEN, FL_UNSHARE}) = flags le"
  proof (rule set_eqI)
    show "x \<in> skip \<union> (flags le \<inter> {FL_KEEP_SIZE, FL_CLOSE_OPEN, FL_UNSHARE}) \<longleftrightarrow> x \<in> flags le" for x
      by (cases x) (auto simp: skip_def)
  qed
  have "parse_op (op_words bad le) = Some (le\<lparr>args := ?as @ replicate (4 - nr_args le) 0\<rparr>)"
    unfolding op_words_def parse_op_words [OF op_names_plain(5)] op_code_name
    by (simp only: Option.bind.simps ra prod.case read_flags_printed skip_def [symmetric] fl) (cases le, use nr(1) in simp)
  then show ?thesis by (simp add: read_op_def next_line)
qed

theorem read_op_reads_logged_line_witness:
  "let le = \<lparr>operation = OP_COPY_RANGE, nr_args = 4, args = [4096, 100, - 1, 8192], flags = {FL_SKIPPED, FL_CLOSE_OPEN}\<rparr>
   in read_op (op_line 4100 le @ ''# end'') = Read_entry (le\<lparr>args := take (nr_args le) (args le) @ replicate (4 - nr_args le) 0\<rparr>) ''# end''"
  unfolding Let_def by (rule read_op_reads_logged_line) (simp add: printable_def op_args_count_def)

end
