(* ===== verification/Lib_Random.thy ===== *)
theory Lib_Random
  imports Prelude C_Strings
begin

text \<open>
  The random numbers and number ranges of \<open>src/lib/random_range.c\<close>, which the I/O generators of
  \<open>src/ltp\<close> link.  The three variants differ in the width of their integers and in the source of
  randomness for wide ranges.  Signed overflow and shifts past the width are undefined in C and are
  outcomes of their own here.
\<close>

section \<open>Signed arithmetic of a width\<close>

datatype range_error =
    Bad_mult
  | No_multiple
  | Undefined

definition INT_MAX :: int where
  "INT_MAX = 2147483647"

definition fits :: "nat \<Rightarrow> int \<Rightarrow> bool" where
  "fits w x \<longleftrightarrow> - (2 ^ (w - 1)) \<le> x \<and> x < 2 ^ (w - 1)"

definition c_signed :: "nat \<Rightarrow> int \<Rightarrow> range_error + int" where
  "c_signed w x = (if fits w x then Inr x else Inl Undefined)"

section \<open>Lists of ranges\<close>

record range =
  range_min :: int
  range_max :: int
  range_mult :: int

text \<open>A field up to a colon, and the rest after it if there is one.\<close>

definition cut_colon :: "string \<Rightarrow> string \<times> string option" where
  "cut_colon s =
     (takeWhile (\<lambda>c. c \<noteq> CHR '':'') s,
      if CHR '':'' \<in> set s then Some (tl (dropWhile (\<lambda>c. c \<noteq> CHR '':'') s)) else None)"

text \<open>An empty field keeps its default; a number that cannot be parsed is the error.\<close>

definition parse_field :: "(string \<Rightarrow> int option) \<Rightarrow> int \<Rightarrow> string \<Rightarrow> string + int" where
  "parse_field parse_func deflt str =
     (if str = [] then Inr deflt
      else case parse_func str of None \<Rightarrow> Inl str | Some v \<Rightarrow> Inr v)"

definition parse_range :: "int \<Rightarrow> int \<Rightarrow> int \<Rightarrow> (string \<Rightarrow> int option) \<Rightarrow> string \<Rightarrow> string + range" where
  "parse_range defmin defmax defmult parse_func tok =
     (let (n1str, rest) = cut_colon tok;
          (n2str, multstr) = (case rest of None \<Rightarrow> (None, None) | Some s \<Rightarrow> (case cut_colon s of (n2, m) \<Rightarrow> (Some n2, m)))
      in bindr (parse_field parse_func defmin n1str) (\<lambda>mn.
         bindr (case n2str of None \<Rightarrow> Inr mn | Some s \<Rightarrow> parse_field parse_func defmax s) (\<lambda>mx.
         bindr (case multstr of None \<Rightarrow> Inr defmult | Some s \<Rightarrow> parse_field parse_func defmult s) (\<lambda>mult.
         Inr \<lparr>range_min = mn, range_max = mx, range_mult = mult\<rparr>))))"

fun parse_all :: "('a \<Rightarrow> 'e + 'b) \<Rightarrow> 'a list \<Rightarrow> 'e + 'b list" where
  "parse_all f [] = Inr []"
| "parse_all f (x # xs) = bindr (f x) (\<lambda>y. bindr (parse_all f xs) (\<lambda>ys. Inr (y # ys)))"

text \<open>\<open>sscanf\<close> with the format \<open>%i%c\<close> must convert the number and find nothing after it.\<close>

definition str_to_int :: "string \<Rightarrow> int option" where
  "str_to_int str =
     (case scan_number str of
        None \<Rightarrow> None
      | Some (neg, v, rest) \<Rightarrow>
          if rest \<noteq> [] then None
          else let l = (if neg then max (- (2 ^ 63)) (- int v) else min (2 ^ 63 - 1) (int v))
               in Some ((l + 2 ^ 31) mod 2 ^ 32 - 2 ^ 31))"

definition parse_ranges :: "string \<Rightarrow> int \<Rightarrow> int \<Rightarrow> int \<Rightarrow> (string \<Rightarrow> int option) option \<Rightarrow> string + range list" where
  "parse_ranges str defmin defmax defmult parse_func =
     parse_all (parse_range defmin defmax defmult (case parse_func of None \<Rightarrow> str_to_int | Some f \<Rightarrow> f))
       (strtok_all (\<lambda>c. c = CHR '','') str)"

text \<open>The number of elements the array of ranges is allocated with.\<close>

definition ranges_allocated :: "string \<Rightarrow> nat" where
  "ranges_allocated str = length (filter (\<lambda>c. c = CHR '','') str) + 1"

section \<open>Random multiples in a range\<close>

text \<open>
  The three functions start alike: they order the bounds, move them inwards to multiples, count the
  multiples in between, and differ in the draw.  The remainder is the one of C, which takes the sign of
  the dividend.
\<close>

definition range_multiples :: "nat \<Rightarrow> int \<Rightarrow> int \<Rightarrow> int \<Rightarrow> range_error + int \<times> int \<times> int" where
  "range_multiples w mn mx mult =
     (if mult < 1 then Inl Bad_mult
      else let (mn, mx) = (if mx < mn then (mx, mn) else (mn, mx))
           in bindr (let r = mn smod mult in if r \<noteq> 0 then c_signed w (mn + (mult - r)) else Inr mn) (\<lambda>mn.
              bindr (let r = mx smod mult in if r \<noteq> 0 then c_signed w (mx - r) else Inr mx) (\<lambda>mx.
              if mn > mx then Inl No_multiple
              else bindr (c_signed w (mx - mn)) (\<lambda>d.
                   bindr (c_signed w (d sdiv mult + 1)) (\<lambda>nmults. Inr (mn, mx, nmults))))))"

text \<open>\<open>lrand48\<close> is a parameter that maps the state of the generator to a number and the next state.\<close>

type_synonym 'r lrand = "'r \<Rightarrow> int \<times> 'r"

definition lrand_ok :: "'r lrand \<Rightarrow> bool" where
  "lrand_ok lrand48 \<longleftrightarrow> (\<forall>r. 0 \<le> fst (lrand48 r) \<and> fst (lrand48 r) < 2 ^ 31)"

definition random_range :: "'r lrand \<Rightarrow> int \<Rightarrow> int \<Rightarrow> int \<Rightarrow> 'r \<Rightarrow> (range_error + int) \<times> 'r" where
  "random_range lrand48 mn mx mult r =
     (case range_multiples 32 mn mx mult of
        Inl e \<Rightarrow> (Inl e, r)
      | Inr (mn, mx, nmults) \<Rightarrow> let (x, r) = lrand48 r in (Inr (mn + (x smod nmults) * mult), r))"

definition random_range1 :: "'r lrand \<Rightarrow> int \<Rightarrow> int \<Rightarrow> int \<Rightarrow> 'r \<Rightarrow> (range_error + int) \<times> 'r" where
  "random_range1 lrand48 mn mx mult r =
     (case range_multiples 64 mn mx mult of
        Inl e \<Rightarrow> (Inl e, r)
      | Inr (mn, mx, nmults) \<Rightarrow> let (x, r) = lrand48 r in (Inr (mn + (x smod nmults) * mult), r))"

text \<open>
  The bit \<open>1 << cnt\<close> is of type \<open>int\<close>, so that the shift is defined only below 31.
\<close>

function divider :: "'r lrand \<Rightarrow> int \<Rightarrow> int \<Rightarrow> nat \<Rightarrow> int \<Rightarrow> 'r \<Rightarrow> (range_error + int) \<times> 'r" where
  "divider lrand48 mn mx cnt rand r =
     (if cnt > 32 then (Inr (- 1), r)
      else
        let (rand, r) = (if cnt = 0 \<or> rand < - 1 then lrand48 r else (rand, r));
            diff = mx - mn
        in if \<not> fits 64 diff then (Inl Undefined, r)
           else if diff \<le> INT_MAX then (c_signed 64 (mn + rand), r)
           else
             let half = diff sdiv 2; med = mn + half
             in if cnt \<ge> 31 then (Inl Undefined, r)
                else if half \<le> INT_MAX then
                  (if bit rand cnt then (c_signed 64 (med + rand), r) else (c_signed 64 (mn + rand), r))
                else
                  (if bit rand cnt then divider lrand48 med mx (cnt + 1) rand r
                   else divider lrand48 mn med (cnt + 1) rand r))"
  by pat_completeness auto
termination
  by (relation "measure (\<lambda>(l, mn, mx, cnt, rand, r). 33 - cnt)") auto

declare divider.simps [simp del]

definition random_rangell :: "'r lrand \<Rightarrow> int \<Rightarrow> int \<Rightarrow> int \<Rightarrow> 'r \<Rightarrow> (range_error + int) \<times> 'r" where
  "random_rangell lrand48 mn mx mult r =
     (case range_multiples 64 mn mx mult of
        Inl e \<Rightarrow> (Inl e, r)
      | Inr (mn, mx, nmults) \<Rightarrow>
          if mx \<le> INT_MAX
          then let (x, r) = lrand48 r in (Inr (mn + (x smod nmults) * mult), r)
          else (case divider lrand48 mn mx 0 (- 1) r of
                  (Inl e, r) \<Rightarrow> (Inl e, r)
                | (Inr randnum, r) \<Rightarrow> (c_signed 64 (mn + (randnum smod nmults) * mult), r)))"

section \<open>A random bit of a mask\<close>

definition count_bits :: "u64 \<Rightarrow> nat" where
  "count_bits msk = length (filter (\<lambda>n. bit msk n) [0..<64])"

text \<open>The shift of a negative \<open>long\<close> copies the sign.  \<open>None\<close> is a loop that does not end.\<close>

partial_function (option) bit_loop :: "u64 \<Rightarrow> int \<Rightarrow> nat \<Rightarrow> nat option" where
  [code]: "bit_loop msk b nshift =
     (if b = 0 then Some nshift
      else bit_loop (signed_drop_bit 1 msk) (if bit msk 0 then b - 1 else b) (nshift + 1))"

definition random_bit :: "'r lrand \<Rightarrow> u64 \<Rightarrow> 'r \<Rightarrow> u64 option \<times> 'r" where
  "random_bit lrand48 msk r =
     (if msk = 0 then (Some 0, r)
      else case random_range lrand48 1 (int (count_bits msk)) 1 r of
             (b, r) \<Rightarrow>
               (case bit_loop msk (case b of Inl _ \<Rightarrow> - 1 | Inr b \<Rightarrow> b) 0 of
                  None \<Rightarrow> (None, r)
                | Some nshift \<Rightarrow> (Some (push_bit (nshift - 1) 1), r)))"

section \<open>The draws are the multiples in the range\<close>

text \<open>The least multiple from a number upwards, the greatest one downwards.\<close>

definition mult_up :: "int \<Rightarrow> int \<Rightarrow> int" where
  "mult_up m x = (x + m - 1) div m * m"

definition mult_down :: "int \<Rightarrow> int \<Rightarrow> int" where
  "mult_down m x = x div m * m"

lemma mult_up_props:
  assumes "0 < m"
  shows "m dvd mult_up m x" "x \<le> mult_up m x" "mult_up m x < x + m" "\<And>v. m dvd v \<Longrightarrow> x \<le> v \<Longrightarrow> mult_up m x \<le> v"
proof -
  show "m dvd mult_up m x" by (simp add: mult_up_def)
  have e: "mult_up m x = x + m - 1 - (x + m - 1) mod m"
    by (simp add: mult_up_def minus_mod_eq_div_mult)
  show lo: "x \<le> mult_up m x" and hi: "mult_up m x < x + m"
    using pos_mod_bound [OF assms, of "x + m - 1"] pos_mod_sign [OF assms, of "x + m - 1"] unfolding e by linarith+
  fix v assume "m dvd v" "x \<le> v"
  then obtain k where k: "v = m * k" by (elim dvdE)
  have "mult_up m x < v + m" using hi \<open>x \<le> v\<close> by simp
  then have "m * ((x + m - 1) div m) < m * (k + 1)" by (simp add: mult_up_def k algebra_simps)
  then have "(x + m - 1) div m \<le> k" using assms by simp
  then show "mult_up m x \<le> v" using assms by (simp add: mult_up_def k mult.commute)
qed

lemma mult_down_props:
  assumes "0 < m"
  shows "m dvd mult_down m x" "mult_down m x \<le> x" "\<And>v. m dvd v \<Longrightarrow> v \<le> x \<Longrightarrow> v \<le> mult_down m x"
    "0 \<le> x \<Longrightarrow> 0 \<le> mult_down m x"
proof -
  show "m dvd mult_down m x" by (simp add: mult_down_def)
  have e: "mult_down m x = x - x mod m" by (simp add: mult_down_def minus_mod_eq_div_mult)
  show "mult_down m x \<le> x" using pos_mod_sign [OF assms, of x] unfolding e by linarith
  show "0 \<le> mult_down m x" if "0 \<le> x" using assms that by (simp add: mult_down_def pos_imp_zdiv_nonneg_iff)
  fix v assume "m dvd v" "v \<le> x"
  then obtain k where k: "v = m * k" by (elim dvdE)
  then have "k \<le> x div m" using \<open>v \<le> x\<close> assms by (simp add: zdiv_mono1 [of "m * k" x m, simplified])
  then show "v \<le> mult_down m x" using assms by (simp add: mult_down_def k mult.commute)
qed

lemma bump_up:
  assumes "0 < m" "0 \<le> x"
  shows "(let r = x smod m in if r \<noteq> 0 then c_signed w (x + (m - r)) else Inr x) =
    (if x mod m = 0 then Inr (mult_up m x) else c_signed w (mult_up m x))"
proof -
  have "mult_up m x = (if x mod m = 0 then x else x + (m - x mod m))"
  proof (cases "x mod m = 0")
    case True
    then have "m dvd x" by auto
    then show ?thesis using mult_up_props(2) [OF assms(1), of x] mult_up_props(4) [OF assms(1), of x x] True by simp
  next
    case False
    have "m dvd x + (m - x mod m)"
      by (metis add.commute add_diff_eq dvd_add_triv_right_iff dvd_minus_mod diff_add_eq)
    moreover have "x \<le> x + (m - x mod m)" using pos_mod_bound [OF assms(1), of x] by simp
    ultimately have le: "mult_up m x \<le> x + (m - x mod m)" by (rule mult_up_props(4) [OF assms(1)])
    have "x < mult_up m x" using mult_up_props(1,2) [OF assms(1), of x] False by (metis dvd_imp_mod_0 order_le_less)
    then have "x mod m < mult_up m x - (x - x mod m)" by simp
    moreover have "m dvd mult_up m x - (x - x mod m)" by (simp add: mult_up_props(1) [OF assms(1)] dvd_minus_mod)
    ultimately have "m \<le> mult_up m x - (x - x mod m)"
      using pos_mod_sign [OF assms(1), of x] by (metis add.commute le_add_diff_inverse2 less_add_same_cancel2 not_less zdvd_imp_le order_le_less_trans)
    then show ?thesis using le False by simp
  qed
  then show ?thesis using smod_nonneg [OF assms(2,1)] by (simp add: Let_def)
qed

definition multiples_in :: "int \<Rightarrow> int \<Rightarrow> int \<Rightarrow> int set" where
  "multiples_in mult lo hi = {v. mult dvd v \<and> min lo hi \<le> v \<and> v \<le> max lo hi}"

lemma fits_nonneg: "0 \<le> x \<Longrightarrow> fits w x \<longleftrightarrow> x < 2 ^ (w - 1)"
  using order_trans [of "- (2 ^ (w - 1))" 0 x] by (auto simp: fits_def)

lemma bump_down:
  assumes "0 < m" "0 \<le> x" "fits w x"
  shows "(let r = x smod m in if r \<noteq> 0 then c_signed w (x - r) else Inr x) = Inr (mult_down m x)"
proof -
  have "mult_down m x = x - x mod m" by (simp add: mult_down_def minus_mod_eq_div_mult)
  moreover have "fits w (mult_down m x)"
    using mult_down_props(2,4) [OF assms(1), of x] assms(2,3) by (auto simp: fits_def)
  ultimately show ?thesis using smod_nonneg [OF assms(2,1)] by (simp add: Let_def c_signed_def)
qed

lemma range_multiples_eq:
  assumes "0 < m" "0 \<le> mn" "0 \<le> mx" "fits w mn" "fits w mx"
  defines "a \<equiv> mult_up m (min mn mx)" and "b \<equiv> mult_down m (max mn mx)"
  shows "range_multiples w mn mx m =
    (if \<not> fits w a then Inl Undefined else if a > b then Inl No_multiple
     else bindr (c_signed w ((b - a) div m + 1)) (\<lambda>n. Inr (a, b, n)))"
proof -
  let ?lo = "min mn mx" and ?hi = "max mn mx"
  have lo: "0 \<le> ?lo" "0 \<le> ?hi" "fits w ?hi" using assms(2-5) by (auto simp: min_def max_def)
  have swap: "(if mx < mn then (mx, mn) else (mn, mx)) = (?lo, ?hi)" by (auto simp: min_def max_def)
  have up: "(let r = ?lo smod m in if r \<noteq> 0 then c_signed w (?lo + (m - r)) else Inr ?lo) = c_signed w a"
  proof (cases "?lo mod m = 0")
    case True
    then have "m dvd ?lo" by (simp only: dvd_eq_mod_eq_0)
    then have "mult_up m ?lo = ?lo"
      using mult_up_props(2) [OF assms(1), of ?lo] mult_up_props(4) [OF assms(1), of ?lo ?lo] by (intro order.antisym) simp_all
    moreover have "fits w ?lo" using assms(4,5) by (simp add: min_def)
    ultimately show ?thesis using bump_up [OF assms(1) lo(1), of w] True by (simp add: c_signed_def a_def)
  next
    case False
    then show ?thesis using bump_up [OF assms(1) lo(1), of w] by (simp add: a_def)
  qed
  have a0: "0 \<le> a" using mult_up_props(2) [OF assms(1), of ?lo] lo(1) unfolding a_def by linarith
  have b0: "b \<le> ?hi" using mult_down_props(2) [OF assms(1), of ?hi] lo by (simp add: b_def)
  have "\<not> a > b \<Longrightarrow> fits w (b - a)" using a0 b0 lo(3) by (auto simp: fits_def)
  moreover have "\<not> a > b \<Longrightarrow> (b - a) sdiv m = (b - a) div m" using sdiv_nonneg [of "b - a" m] assms(1) by simp
  ultimately show ?thesis
    unfolding range_multiples_def Let_def unfolding swap prod.case
    unfolding up [unfolded Let_def] bump_down [OF assms(1) lo(2,3), unfolded Let_def] b_def [symmetric]
    using assms(1) by (simp add: c_signed_def)
qed

lemma range_multiples_value:
  assumes "0 < m" "0 \<le> mn" "0 \<le> mx" "fits w mn" "fits w mx" "range_multiples w mn mx m = Inr (a, b, n)"
  shows "0 < n" "n < 2 ^ (w - 1)" "0 \<le> a" "a \<le> b" "b \<le> max mn mx" "a + (n - 1) * m = b"
    "multiples_in m mn mx = (\<lambda>i. a + i * m) ` {0..<n}"
proof -
  have eqs: "a = mult_up m (min mn mx)" "b = mult_down m (max mn mx)" "n = (b - a) div m + 1"
    and le: "a \<le> b" and fit: "fits w n"
    using assms(6) unfolding range_multiples_eq [OF assms(1-5)]
    by (auto simp: c_signed_def split: if_splits)
  show "0 < n" using assms(1) le by (simp add: eqs(3) pos_imp_zdiv_nonneg_iff add_nonneg_pos)
  show "n < 2 ^ (w - 1)" using fit by (simp add: fits_def)
  show "a \<le> b" by (rule le)
  show "0 \<le> a" using mult_up_props(2) [OF assms(1), of "min mn mx"] assms(2,3) unfolding eqs(1) by linarith
  show "b \<le> max mn mx" unfolding eqs(2) by (rule mult_down_props(2) [OF assms(1)])
  have dvd: "m dvd a" "m dvd b"
    unfolding eqs(1,2) by (rule mult_up_props(1) [OF assms(1)], rule mult_down_props(1) [OF assms(1)])
  then have "(b - a) div m * m = b - a" by (intro dvd_div_mult_self dvd_diff)
  then show top: "a + (n - 1) * m = b" by (simp only: eqs(3)) simp
  show "multiples_in m mn mx = (\<lambda>i. a + i * m) ` {0..<n}"
  proof (intro set_eqI iffI)
    fix v assume v: "v \<in> multiples_in m mn mx"
    then have bounds: "a \<le> v" "v \<le> b"
      using mult_up_props(4) [OF assms(1)] mult_down_props(3) [OF assms(1)] by (auto simp: multiples_in_def eqs(1,2))
    have "m dvd v - a" using v dvd(1) by (simp add: multiples_in_def)
    then have "v = a + (v - a) div m * m" by simp
    moreover have "(v - a) div m \<in> {0..<n}"
      using bounds assms(1) zdiv_mono1 [of "v - a" "b - a" m] by (simp add: eqs(3) pos_imp_zdiv_nonneg_iff)
    ultimately show "v \<in> (\<lambda>i. a + i * m) ` {0..<n}" by blast
  next
    fix v assume "v \<in> (\<lambda>i. a + i * m) ` {0..<n}"
    then obtain i where i: "0 \<le> i" "i < n" and v: "v = a + i * m" by auto
    have "i * m \<le> (n - 1) * m" using i assms(1) by (intro mult_right_mono) auto
    then have "a \<le> v" "v \<le> b" using i assms(1) unfolding v top [symmetric] by auto
    moreover have "min mn mx \<le> a" unfolding eqs(1) by (rule mult_up_props(2) [OF assms(1)])
    moreover have "b \<le> max mn mx" by fact
    moreover have "m dvd v" by (simp add: v dvd(1))
    ultimately show "v \<in> multiples_in m mn mx" by (simp add: multiples_in_def)
  qed
qed

lemma range_multiples_error:
  assumes "0 < m" "0 \<le> mn" "0 \<le> mx" "fits w mn" "fits w mx" "max mn mx + 1 < 2 ^ (w - 1)"
    and "range_multiples w mn mx m = Inl e"
  shows "multiples_in m mn mx = {}" "e = (if 2 ^ (w - 1) \<le> mult_up m (min mn mx) then Undefined else No_multiple)"
proof -
  let ?a = "mult_up m (min mn mx)" and ?b = "mult_down m (max mn mx)"
  have a0: "0 \<le> ?a" using mult_up_props(2) [OF assms(1), of "min mn mx"] assms(2,3) by linarith
  have b: "?b \<le> max mn mx" by (rule mult_down_props(2) [OF assms(1)])
  have gt: "?a > ?b"
  proof (rule ccontr)
    assume le: "\<not> ?a > ?b"
    then have "(?b - ?a) div m \<le> ?b" "0 \<le> (?b - ?a) div m"
      using assms(1) a0 zdiv_mono2 [of "?b - ?a" 1 m] by (simp_all add: pos_imp_zdiv_nonneg_iff)
    then have "fits w ((?b - ?a) div m + 1)" using b assms(6) by (subst fits_nonneg) auto
    moreover have "fits w ?a" using le a0 b assms(6) by (simp add: fits_nonneg)
    ultimately show False using assms(7) le unfolding range_multiples_eq [OF assms(1-5)] by (simp add: c_signed_def)
  qed
  then show "multiples_in m mn mx = {}"
    using mult_up_props(4) [OF assms(1), of _ "min mn mx"] mult_down_props(3) [OF assms(1), of _ "max mn mx"]
    by (fastforce simp: multiples_in_def)
  show "e = (if 2 ^ (w - 1) \<le> mult_up m (min mn mx) then Undefined else No_multiple)"
    using assms(7) gt unfolding range_multiples_eq [OF assms(1-5)] by (auto simp: fits_nonneg [OF a0] split: if_splits)
qed

text \<open>
  What the functions should deliver: an error for a bad \<open>mult\<close>, an error if there is no multiple, and otherwise a
  multiple.  If the least multiple from the lower bound on is not a number of the type, the addition overflows.
\<close>

definition range_result :: "nat \<Rightarrow> int \<Rightarrow> int \<Rightarrow> int \<Rightarrow> range_error + int \<Rightarrow> bool" where
  "range_result w mn mx mult res \<longleftrightarrow>
     (if mult < 1 then res = Inl Bad_mult
      else if 2 ^ (w - 1) \<le> mult_up mult (min mn mx) then res = Inl Undefined
      else if multiples_in mult mn mx = {} then res = Inl No_multiple
      else \<exists>v \<in> multiples_in mult mn mx. res = Inr v)"

lemma range_result_value:
  assumes "0 < m" "0 \<le> mn" "0 \<le> mx" "fits w mn" "fits w mx" "range_multiples w mn mx m = Inr t" "v \<in> multiples_in m mn mx"
  shows "range_result w mn mx m (Inr v)"
proof -
  have "fits w (mult_up m (min mn mx))" using assms(6) unfolding range_multiples_eq [OF assms(1-5)] by (auto split: if_splits)
  then show ?thesis using assms(1,7) by (auto simp: range_result_def fits_def)
qed

lemma range_result_error:
  assumes "0 < m" "0 \<le> mn" "0 \<le> mx" "fits w mn" "fits w mx" "max mn mx + 1 < 2 ^ (w - 1)"
    and "range_multiples w mn mx m = Inl e"
  shows "range_result w mn mx m (Inl e)"
  using range_multiples_error [OF assms] assms(1) by (simp add: range_result_def)

lemma draw_multiple:
  assumes "0 < m" "0 \<le> mn" "0 \<le> mx" "fits w mn" "fits w mx" "range_multiples w mn mx m = Inr (a, b, n)" "0 \<le> x"
  shows "a + (x smod n) * m \<in> multiples_in m mn mx"
proof -
  note n = range_multiples_value [OF assms(1-6)]
  have "x smod n = x mod n" by (rule smod_nonneg [OF assms(7) n(1)])
  then show ?thesis unfolding n(7) using n(1) by auto
qed

lemma random_range_drawn:
  assumes "lrand_ok lrand48" "0 \<le> mn" "0 \<le> mx" "max mn mx + 1 < 2 ^ 31"
  shows "range_result 32 mn mx mult (fst (random_range lrand48 mn mx mult r))"
proof (cases "1 \<le> mult")
  case False
  then show ?thesis by (simp add: random_range_def range_multiples_def range_result_def)
next
  case True
  have fit: "0 < mult" "fits 32 mn" "fits 32 mx" using assms(2-4) True by (auto simp: fits_nonneg)
  show ?thesis
  proof (cases "range_multiples 32 mn mx mult")
    case (Inl e)
    then show ?thesis using range_result_error [OF fit(1) assms(2,3) fit(2,3) _ Inl] assms(4) by (simp add: random_range_def)
  next
    case (Inr t)
    obtain a b n where t: "t = (a, b, n)" by (cases t)
    have "0 \<le> fst (lrand48 r)" using assms(1) by (simp add: lrand_ok_def)
    from range_result_value [OF fit(1) assms(2,3) fit(2,3) Inr draw_multiple [OF fit(1) assms(2,3) fit(2,3) Inr [unfolded t] this]]
    show ?thesis by (auto simp: random_range_def Inr t split: prod.splits)
  qed
qed

lemma random_range_reaches:
  assumes "0 \<le> mn" "0 \<le> mx" "max mn mx + 1 < 2 ^ 31" "1 \<le> mult" "v \<in> multiples_in mult mn mx"
  shows "\<exists>x. 0 \<le> x \<and> x < 2 ^ 31 \<and> random_range (\<lambda>r. (x, r)) mn mx mult r = (Inr v, r)"
proof -
  have fit: "0 < mult" "fits 32 mn" "fits 32 mx" using assms(1-4) by (auto simp: fits_nonneg)
  obtain t where "range_multiples 32 mn mx mult = Inr t"
    using range_multiples_error [OF fit(1) assms(1,2) fit(2,3)] assms(3,5) by (cases "range_multiples 32 mn mx mult") auto
  then obtain a b n where eq: "range_multiples 32 mn mx mult = Inr (a, b, n)" by (cases t) auto
  note n = range_multiples_value [OF fit(1) assms(1,2) fit(2,3) eq]
  obtain i where i: "0 \<le> i" "i < n" "v = a + i * mult" using assms(5) unfolding n(7) by auto
  have "i smod n = i" using smod_nonneg [OF i(1) n(1)] i by simp
  then have "random_range (\<lambda>r. (i, r)) mn mx mult r = (Inr v, r)" by (simp add: random_range_def eq i(3))
  moreover have "i < 2 ^ 31" using i(2) n(2) by simp
  ultimately show ?thesis using i(1) by blast
qed

text \<open>Each step halves the distance, so that it is below \<open>2^31\<close> before the bits of the draw are used up.\<close>

lemma divider_returns:
  assumes "lrand_ok lrand48" "0 \<le> mn" "mn \<le> mx" "mx < 2 ^ 61" "mx - mn \<le> 2 ^ (61 - cnt)" "cnt \<le> 30"
    and "cnt = 0 \<or> 0 \<le> rand \<and> rand < 2 ^ 31"
  shows "\<exists>x r'. divider lrand48 mn mx cnt rand r = (Inr x, r') \<and> 0 \<le> x"
  using assms(2-)
proof (induction "30 - cnt" arbitrary: mn mx cnt rand r rule: less_induct)
  case less
  obtain rand' r' where dr: "(if cnt = 0 \<or> rand < - 1 then lrand48 r else (rand, r)) = (rand', r')"
    by (metis surj_pair)
  have bound: "0 \<le> rand'" "rand' < 2 ^ 31"
    using dr less.prems(6) assms(1) by (auto simp: lrand_ok_def split: if_splits) (metis fst_conv)+
  let ?d = "mx - mn" and ?h = "(mx - mn) div 2"
  have fit: "fits 64 ?d" "?d sdiv 2 = ?h" "0 \<le> ?h"
    using less.prems(1-3) sdiv_nonneg [of ?d 2] by (auto simp: fits_nonneg)
  have small: "c_signed 64 (mn + rand') = Inr (mn + rand')" "c_signed 64 (mn + ?h + rand') = Inr (mn + ?h + rand')"
    using less.prems(1-3) bound by (auto simp: c_signed_def fits_nonneg)
  show ?case
  proof (cases "?h \<le> INT_MAX")
    case True
    then show ?thesis using less.prems(1,5) dr bound fit small
      by (subst divider.simps) (auto simp: Let_def split: prod.splits)
  next
    case False
    have c: "cnt < 30"
    proof (rule ccontr)
      assume "\<not> cnt < 30"
      then have "cnt = 30" using less.prems(5) by simp
      then show False using False less.prems(4) by (simp add: INT_MAX_def)
    qed
    then have "(2::int) ^ (61 - cnt) = 2 * 2 ^ (61 - (cnt + 1))" by (simp add: Suc_diff_Suc flip: power_Suc)
    then have halves: "?h \<le> 2 ^ (61 - (cnt + 1))" "mx - (mn + ?h) \<le> 2 ^ (61 - (cnt + 1))"
      using less.prems(4) by linarith+
    have wide: "\<not> ?d \<le> INT_MAX" using False less.prems(2) by linarith
    have step: "divider lrand48 mn mx cnt rand r =
      (if bit rand' cnt then divider lrand48 (mn + ?h) mx (cnt + 1) rand' r'
       else divider lrand48 mn (mn + ?h) (cnt + 1) rand' r')"
      using False wide fit c dr by (subst divider.simps) (simp add: Let_def)
    have "30 - (cnt + 1) < 30 - cnt" using c by simp
    then show ?thesis
      unfolding step using halves bound c fit less.prems(1-3)
        less.hyps [of "cnt + 1" "mn + ?h" mx rand' r'] less.hyps [of "cnt + 1" mn "mn + ?h" rand' r'] by auto
  qed
qed

lemma random_rangell_drawn:
  assumes "lrand_ok lrand48" "0 \<le> mn" "0 \<le> mx" "max mn mx < 2 ^ 61"
  shows "range_result 64 mn mx mult (fst (random_rangell lrand48 mn mx mult r))"
proof (cases "1 \<le> mult")
  case False
  then show ?thesis by (simp add: random_rangell_def range_multiples_def range_result_def)
next
  case True
  have fit: "0 < mult" "fits 64 mn" "fits 64 mx" using assms(2-4) True by (auto simp: fits_nonneg)
  show ?thesis
  proof (cases "range_multiples 64 mn mx mult")
    case (Inl e)
    then show ?thesis
      using range_result_error [OF fit(1) assms(2,3) fit(2,3) _ Inl] assms(4) by (simp add: random_rangell_def)
  next
    case (Inr t)
    obtain a b n where t: "t = (a, b, n)" by (cases t)
    note n = range_multiples_value [OF fit(1) assms(2,3) fit(2,3) Inr [unfolded t]]
    note draw = draw_multiple [OF fit(1) assms(2,3) fit(2,3) Inr [unfolded t]]
      and result = range_result_value [OF fit(1) assms(2,3) fit(2,3) Inr]
    have in_range: "c_signed 64 v = Inr v" if "v \<in> multiples_in mult mn mx" for v
      using that assms(2-4) by (auto simp: multiples_in_def c_signed_def fits_nonneg)
    have "b < 2 ^ 61" using n(5) assms(4) by linarith
    then obtain x r' where "divider lrand48 a b 0 (- 1) r = (Inr x, r')" "0 \<le> x"
      using divider_returns [OF assms(1) n(3,4), of 0 "- 1" r] n(3) by auto
    moreover have "0 \<le> fst (lrand48 r)" using assms(1) by (simp add: lrand_ok_def)
    ultimately show ?thesis
      using result [OF draw [of x]] result [OF draw [of "fst (lrand48 r)"]] in_range [OF draw [of x]]
      by (auto simp: random_rangell_def Inr t split: prod.splits)
  qed
qed

lemma random_range_negative:
  "random_range (\<lambda>r. (1, r)) (- 7) (- 1) 3 r = (Inr 0, r)"
  by (simp add: random_range_def range_multiples_def c_signed_def fits_def signed_modulo_int_def signed_divide_int_def)

lemma random_rangell_negative:
  "random_rangell (\<lambda>r. (0, r)) (- (2 ^ 33)) (2 ^ 33) 1 r = (Inr (- (2 ^ 34)), r)"
  by (simp add: random_rangell_def range_multiples_def c_signed_def fits_def signed_modulo_int_def signed_divide_int_def
     divider.simps INT_MAX_def Let_def)

section \<open>The bits of a mask\<close>

lemma signed_drop_bit_Suc: "signed_drop_bit 1 (signed_drop_bit j (msk :: u64)) = signed_drop_bit (j + 1) msk"
  by (rule bit_word_eqI) (auto simp: bit_signed_drop_bit_iff min_def)

text \<open>The set bits of a mask from position \<open>j\<close> on.\<close>

definition set_bits_from :: "nat \<Rightarrow> u64 \<Rightarrow> nat set" where
  "set_bits_from j msk = {n. j \<le> n \<and> n < 64 \<and> bit msk n}"

lemma set_bits_from_step:
  "j < 64 \<Longrightarrow> set_bits_from j msk = (if bit msk j then insert j (set_bits_from (j + 1) msk) else set_bits_from (j + 1) msk)"
  by (auto simp: set_bits_from_def) (metis Suc_leI le_neq_implies_less)+

lemma finite_set_bits_from [simp]: "finite (set_bits_from j msk)"
  by (simp add: set_bits_from_def)

lemma card_set_bits_from: "count_bits msk = card (set_bits_from 0 msk)"
proof -
  have "set_bits_from 0 msk = set (filter (\<lambda>n. bit msk n) [0..<64])" by (auto simp: set_bits_from_def)
  then show ?thesis by (simp only: count_bits_def distinct_card distinct_filter distinct_upt)
qed

lemma bit_loop_finds:
  assumes "j \<le> 64" "0 < b" "b \<le> int (card (set_bits_from j msk))"
  shows "\<exists>k. bit_loop (signed_drop_bit j msk) b j = Some (k + 1) \<and> k \<in> set_bits_from j msk \<and>
    int (card {n \<in> set_bits_from j msk. n \<le> k}) = b"
  using assms
proof (induction "64 - j" arbitrary: j b)
  case 0
  then have "set_bits_from j msk = {}" by (auto simp: set_bits_from_def)
  then show ?case using "0.prems"(2,3) by simp
next
  case (Suc n)
  then have j: "j < 64" by simp
  have low: "bit (signed_drop_bit j msk) 0 = bit msk j" using j by (simp add: bit_signed_drop_bit_iff min_def)
  have step: "bit_loop (signed_drop_bit j msk) b j =
    bit_loop (signed_drop_bit (j + 1) msk) (if bit msk j then b - 1 else b) (j + 1)"
    using Suc.prems(2) low by (subst bit_loop.simps) (simp add: signed_drop_bit_Suc [simplified])
  have not_j: "j \<notin> set_bits_from (j + 1) msk" by (simp add: set_bits_from_def)
  show ?case
  proof (cases "bit msk j \<and> b = 1")
    case True
    have "{n \<in> set_bits_from j msk. n \<le> j} = {j}" using j True by (auto simp: set_bits_from_def)
    moreover have "bit_loop (signed_drop_bit (j + 1) msk) 0 (j + 1) = Some (j + 1)" by (subst bit_loop.simps) simp
    ultimately show ?thesis using True j step by (intro exI [of _ j]) (simp add: set_bits_from_def)
  next
    case False
    let ?b = "if bit msk j then b - 1 else b"
    have "0 < ?b" "?b \<le> int (card (set_bits_from (j + 1) msk))"
      using False Suc.prems(2,3) not_j unfolding set_bits_from_step [OF j] by (auto split: if_splits)
    moreover have "n = 64 - (j + 1)" "j + 1 \<le> 64" using Suc.hyps(2) j by simp_all
    ultimately obtain k where
      k: "bit_loop (signed_drop_bit (j + 1) msk) ?b (j + 1) = Some (k + 1)" "k \<in> set_bits_from (j + 1) msk"
        "int (card {n \<in> set_bits_from (j + 1) msk. n \<le> k}) = ?b"
      using Suc.hyps(1) [of "j + 1" ?b] by blast
    have "{n \<in> set_bits_from j msk. n \<le> k} =
      (if bit msk j then insert j {n \<in> set_bits_from (j + 1) msk. n \<le> k} else {n \<in> set_bits_from (j + 1) msk. n \<le> k})"
      using k(2) unfolding set_bits_from_step [OF j] by (auto simp: set_bits_from_def)
    then have "int (card {n \<in> set_bits_from j msk. n \<le> k}) = b" using k(3) not_j by (auto split: if_splits)
    moreover have "k \<in> set_bits_from j msk" using k(2) by (simp add: set_bits_from_def)
    ultimately show ?thesis using step k(1) by auto
  qed
qed

lemma random_bit_rank:
  assumes "msk \<noteq> 0" "random_range lrand48 1 (int (count_bits msk)) 1 r = (Inr b, r')" "1 \<le> b" "b \<le> int (count_bits msk)"
  shows "\<exists>k. random_bit lrand48 msk r = (Some (push_bit k 1), r') \<and> k < 64 \<and> bit msk k \<and>
    int (card {n \<in> set_bits_from 0 msk. n \<le> k}) = b"
proof -
  obtain k where k: "bit_loop msk b 0 = Some (k + 1)" "k \<in> set_bits_from 0 msk"
    "int (card {n \<in> set_bits_from 0 msk. n \<le> k}) = b"
    using bit_loop_finds [of 0 b msk] assms(3,4) card_set_bits_from [of msk] by auto
  then show ?thesis using assms(1,2) by (intro exI [of _ k]) (simp add: random_bit_def set_bits_from_def)
qed

lemma random_bit_drawn:
  assumes "lrand_ok lrand48" "msk \<noteq> 0"
  shows "\<exists>k < 64. bit msk k \<and> fst (random_bit lrand48 msk r) = Some (push_bit k 1)"
proof -
  have "count_bits msk \<le> 64" using length_filter_le [of "\<lambda>n. bit msk n" "[0..<64]"] by (simp add: count_bits_def)
  moreover obtain n where "n < 64" "bit msk n" using assms(2) bit_word_eqI [of msk 0] by auto
  then have "n \<in> set_bits_from 0 msk" by (simp add: set_bits_from_def)
  then have "0 < count_bits msk" unfolding card_set_bits_from by (auto simp: card_gt_0_iff)
  ultimately obtain b r' where "random_range lrand48 1 (int (count_bits msk)) 1 r = (Inr b, r')" "1 \<le> b" "b \<le> int (count_bits msk)"
    using random_range_drawn [OF assms(1), of 1 "int (count_bits msk)" 1 r]
    by (cases "random_range lrand48 1 (int (count_bits msk)) 1 r") (auto simp: range_result_def mult_up_def multiples_in_def split: if_splits)
  from random_bit_rank [OF assms(2) this] show ?thesis by auto
qed

lemma random_bit_reaches:
  assumes "k < 64" "bit msk k"
  shows "\<exists>x. 0 \<le> x \<and> x < 2 ^ 31 \<and> fst (random_bit (\<lambda>r. (x, r)) msk r) = Some (push_bit k 1)"
proof -
  let ?rank = "\<lambda>k. int (card {n \<in> set_bits_from 0 msk. n \<le> k})"
  have k: "k \<in> set_bits_from 0 msk" using assms by (simp add: set_bits_from_def)
  have "count_bits msk \<le> 64" using length_filter_le [of "\<lambda>n. bit msk n" "[0..<64]"] by (simp add: count_bits_def)
  moreover have "1 \<le> ?rank k" using k by (auto simp: Suc_le_eq card_gt_0_iff)
  moreover have "?rank k \<le> int (count_bits msk)" unfolding card_set_bits_from by (simp add: card_mono)
  ultimately obtain x where x: "0 \<le> x" "x < 2 ^ 31" "random_range (\<lambda>r. (x, r)) 1 (int (count_bits msk)) 1 r = (Inr (?rank k), r)"
    using random_range_reaches [of 1 "int (count_bits msk)" 1 "?rank k" r] by (auto simp: multiples_in_def)
  have "msk \<noteq> 0" using assms(2) by auto
  from random_bit_rank [OF this x(3)] \<open>1 \<le> ?rank k\<close> \<open>?rank k \<le> int (count_bits msk)\<close>
  obtain k' where k': "fst (random_bit (\<lambda>r. (x, r)) msk r) = Some (push_bit k' 1)" "k' < 64" "bit msk k'" "?rank k' = ?rank k" by auto
  have mono: "?rank i < ?rank j" if "i < j" "j \<in> set_bits_from 0 msk" for i j
    proof -
    have "j \<in> {n \<in> set_bits_from 0 msk. n \<le> j}" "j \<notin> {n \<in> set_bits_from 0 msk. n \<le> i}" using that by auto
    then have "{n \<in> set_bits_from 0 msk. n \<le> i} \<subset> {n \<in> set_bits_from 0 msk. n \<le> j}" using that(1) by fastforce
    then show ?thesis by (simp add: psubset_card_mono)
  qed
  have "k' = k" using k'(2-4) k mono [of k k'] mono [of k' k] by (cases k k' rule: linorder_cases) (auto simp: set_bits_from_def)
  then show ?thesis using x k'(1) by blast
qed

section \<open>Lists of ranges are read back\<close>

definition range_word :: "(int \<Rightarrow> string) \<Rightarrow> range \<Rightarrow> string" where
  "range_word sh g = sh (range_min g) @ '':'' @ sh (range_max g) @ '':'' @ sh (range_mult g)"

definition number_word :: "(string \<Rightarrow> int option) \<Rightarrow> (int \<Rightarrow> string) \<Rightarrow> int \<Rightarrow> bool" where
  "number_word f sh i \<longleftrightarrow> f (sh i) = Some i \<and> sh i \<noteq> [] \<and> CHR '','' \<notin> set (sh i) \<and> CHR '':'' \<notin> set (sh i)"

lemma cut_colon_append: "CHR '':'' \<notin> set a \<Longrightarrow> cut_colon (a @ CHR '':'' # b) = (a, Some b)"
  by (simp add: cut_colon_def takeWhile_append dropWhile_append)

lemma cut_colon_plain: "CHR '':'' \<notin> set a \<Longrightarrow> cut_colon a = (a, None)"
  by (auto simp: cut_colon_def takeWhile_eq_all_conv)

lemma parse_range_word:
  assumes "number_word f sh (range_min g)" "number_word f sh (range_max g)" "number_word f sh (range_mult g)"
  shows "parse_range dmin dmax dmult f (range_word sh g) = Inr g"
  using assms by (simp add: parse_range_def range_word_def number_word_def cut_colon_append cut_colon_plain parse_field_def)

lemma parse_all_map: "\<forall>x \<in> set xs. f (g x) = Inr x \<Longrightarrow> parse_all f (map g xs) = Inr xs"
  by (induction xs) auto

lemma length_parse_all: "parse_all f xs = Inr ys \<Longrightarrow> length ys = length xs"
  by (induction xs arbitrary: ys) (auto simp: bindr_Inr_iff)

lemma number_range_word:
  assumes "number_word f sh (range_min g)" "number_word f sh (range_max g)" "number_word f sh (range_mult g)"
  shows "range_word sh g \<noteq> []" "CHR '','' \<notin> set (range_word sh g)"
  using assms by (auto simp: range_word_def number_word_def)

section \<open>Properties\<close>

text \<open>
  C37. For bounds from 0 to \<open>2^31 - 2\<close>, given in either order, \<open>random_range\<close> reports the error of a \<open>mult\<close> that is not
  positive exactly in that case; otherwise, as long as the least multiple of \<open>mult\<close> from the lower bound on is an
  \<open>int\<close>, it returns a multiple between the bounds if there is one and reports that there is none if there is none.
  If that least multiple is not an \<open>int\<close>, the computation overflows and no error is reported.  Every multiple
  between the bounds is returned for some draw of \<open>lrand48\<close>.
\<close>

theorem random_range_draws_the_multiples:
  assumes "lrand_ok lrand48" "0 \<le> mn" "0 \<le> mx" "max mn mx + 1 < 2 ^ 31"
  shows "(let res = fst (random_range lrand48 mn mx mult r)
    in if mult < 1 then res = Inl Bad_mult
       else if 2 ^ 31 \<le> mult_up mult (min mn mx) then res = Inl Undefined
       else if multiples_in mult mn mx = {} then res = Inl No_multiple
       else \<exists>v \<in> multiples_in mult mn mx. res = Inr v) \<and>
    (1 \<le> mult \<longrightarrow> (\<forall>v \<in> multiples_in mult mn mx.
      \<exists>x. 0 \<le> x \<and> x < 2 ^ 31 \<and> random_range (\<lambda>r. (x, r)) mn mx mult r = (Inr v, r)))"
proof (intro conjI impI ballI, goal_cases)
  case 1
  then show ?case using random_range_drawn [OF assms, of mult r] by (simp add: range_result_def)
next
  case (2 v)
  then show ?case by (rule random_range_reaches [OF assms(2-4)])
qed

theorem random_range_draws_the_multiples_witness:
  "fst (random_range (\<lambda>r :: int. (r mod 2 ^ 31, r + 1)) 10 1 4 6) = Inr 4 \<and>
   (\<exists>x. 0 \<le> x \<and> x < 2 ^ 31 \<and> random_range (\<lambda>r. (x, r)) 10 1 4 (6 :: int) = (Inr 8, 6))"
proof -
  have ok: "lrand_ok (\<lambda>r :: int. (r mod 2 ^ 31, r + 1))" by (simp add: lrand_ok_def)
  have "8 \<in> multiples_in 4 10 1" by (simp add: multiples_in_def)
  moreover have "random_range (\<lambda>r :: int. (r mod 2 ^ 31, r + 1)) 10 1 4 6 = (Inr 4, 7)"
    by (simp add: random_range_def range_multiples_def c_signed_def fits_def signed_modulo_int_def signed_divide_int_def)
  ultimately show ?thesis using random_range_draws_the_multiples [OF ok, of 10 1 4 6] by simp
qed

text \<open>
  C38. For bounds from 0 to below \<open>2^61\<close> \<open>random_rangell\<close> has the same outcomes on 64 bits, although a single draw of
  31 bits does not reach that far: the halving of the range in \<open>divider\<close> ends before its guard against running
  away and before the bits of the draw are used up, and no signed arithmetic overflows unless the least multiple
  of \<open>mult\<close> from the lower bound on does not fit.
\<close>

theorem random_rangell_draws_a_multiple:
  assumes "lrand_ok lrand48" "0 \<le> mn" "0 \<le> mx" "max mn mx < 2 ^ 61"
  shows "let res = fst (random_rangell lrand48 mn mx mult r)
    in if mult < 1 then res = Inl Bad_mult
       else if 2 ^ 63 \<le> mult_up mult (min mn mx) then res = Inl Undefined
       else if multiples_in mult mn mx = {} then res = Inl No_multiple
       else \<exists>v \<in> multiples_in mult mn mx. res = Inr v"
  using random_rangell_drawn [OF assms, of mult r] by (simp add: range_result_def)

theorem random_rangell_draws_a_multiple_witness:
  "\<exists>v. fst (random_rangell (\<lambda>r :: int. (r mod 2 ^ 31, r + 1)) 0 (2 ^ 40) 512 5) = Inr v \<and> 512 dvd v \<and> 0 \<le> v \<and> v \<le> 2 ^ 40"
proof -
  have ok: "lrand_ok (\<lambda>r :: int. (r mod 2 ^ 31, r + 1))" by (simp add: lrand_ok_def)
  have "0 \<in> multiples_in 512 0 (2 ^ 40)" by (simp add: multiples_in_def)
  then have "multiples_in 512 0 (2 ^ 40) \<noteq> {}" by blast
  then have "\<exists>v \<in> multiples_in 512 0 (2 ^ 40). fst (random_rangell (\<lambda>r :: int. (r mod 2 ^ 31, r + 1)) 0 (2 ^ 40) 512 5) = Inr v"
    using random_rangell_draws_a_multiple [OF ok, of 0 "2 ^ 40" 512 5] by (simp add: Let_def mult_up_def)
  then show ?thesis by (auto simp: multiples_in_def)
qed

text \<open>
  C39. For a mask with a bit set the loops of \<open>random_bit\<close> end and the result is one of the bits of the mask,
  also when the mask is negative and shifting copies its sign; every bit of the mask is returned for some draw.
\<close>

theorem random_bit_draws_the_bits:
  assumes "lrand_ok lrand48" "msk \<noteq> 0"
  shows "(\<exists>k < 64. bit msk k \<and> fst (random_bit lrand48 msk r) = Some (push_bit k 1)) \<and>
    (\<forall>k. k < 64 \<and> bit msk k \<longrightarrow>
      (\<exists>x. 0 \<le> x \<and> x < 2 ^ 31 \<and> fst (random_bit (\<lambda>r. (x, r)) msk r) = Some (push_bit k 1)))"
  by (intro conjI allI impI) (rule random_bit_drawn [OF assms], elim conjE, rule random_bit_reaches)

theorem random_bit_draws_the_bits_witness:
  "\<exists>k < 64. bit (- 4 :: u64) k \<and> fst (random_bit (\<lambda>r :: int. (r mod 2 ^ 31, r + 1)) (- 4) 70) = Some (push_bit k 1)"
proof -
  have ok: "lrand_ok (\<lambda>r :: int. (r mod 2 ^ 31, r + 1))" by (simp add: lrand_ok_def)
  show ?thesis using random_bit_draws_the_bits [OF ok, of "- 4" 70] by simp
qed

text \<open>
  C40. A list of ranges printed in the form \<open>min:max:mult,min:max:mult\<close> is parsed back, for any printer of
  numbers the parse function inverts; and whatever the string, the ranges that are stored fit into the array
  \<open>parse_ranges\<close> allocates.
\<close>

theorem parse_ranges_reads_printed_ranges:
  assumes "\<forall>g \<in> set gs. number_word f sh (range_min g) \<and> number_word f sh (range_max g) \<and> number_word f sh (range_mult g)"
  shows "parse_ranges (join (CHR '','') (map (range_word sh) gs)) dmin dmax dmult (Some f) = Inr gs \<and>
    (\<forall>str pf rs. parse_ranges str dmin dmax dmult pf = Inr rs \<longrightarrow> length rs \<le> ranges_allocated str)"
proof (intro conjI allI impI)
  have "strtok_all (\<lambda>c. c = CHR '','') (join (CHR '','') (map (range_word sh) gs)) = map (range_word sh) gs"
    using assms number_range_word by (intro strtok_all_join) fastforce+
  then show "parse_ranges (join (CHR '','') (map (range_word sh) gs)) dmin dmax dmult (Some f) = Inr gs"
    using assms by (simp add: parse_ranges_def parse_all_map parse_range_word)
next
  fix str pf rs assume "parse_ranges str dmin dmax dmult pf = Inr rs"
  then have "length rs = length (strtok_all (\<lambda>c. c = CHR '','') str)"
    unfolding parse_ranges_def by (rule length_parse_all)
  also have "\<dots> \<le> ranges_allocated str"
    using length_strtok_all [of "\<lambda>c. c = CHR '',''" str] by (simp add: ranges_allocated_def split: if_splits)
  finally show "length rs \<le> ranges_allocated str" .
qed

theorem parse_ranges_reads_printed_ranges_witness:
  "parse_ranges ''1:8:2,0x10:077:8'' 0 9 1 None =
     Inr [\<lparr>range_min = 1, range_max = 8, range_mult = 2\<rparr>, \<lparr>range_min = 16, range_max = 63, range_mult = 8\<rparr>]"
proof -
  let ?sh = "\<lambda>i :: int. if i = 1 then ''1'' else if i = 2 then ''2'' else if i = 8 then ''8'' else if i = 16 then ''0x10'' else ''077''"
  let ?gs = "[\<lparr>range_min = 1, range_max = 8, range_mult = 2\<rparr>, \<lparr>range_min = 16, range_max = 63, range_mult = 8\<rparr>]"
  have "number_word str_to_int ?sh 1" "number_word str_to_int ?sh 2" "number_word str_to_int ?sh 8"
    "number_word str_to_int ?sh 16" "number_word str_to_int ?sh 63" by code_simp+
  then have "\<forall>g \<in> set ?gs. number_word str_to_int ?sh (range_min g) \<and> number_word str_to_int ?sh (range_max g) \<and>
      number_word str_to_int ?sh (range_mult g)" by simp
  from parse_ranges_reads_printed_ranges [OF this, of 0 9 1]
  show ?thesis by (simp add: range_word_def parse_ranges_def)
qed

end
