(* ===== verification/Lib_Pattern.thy ===== *)
theory Lib_Pattern
  imports Prelude
begin

text \<open>
  The data patterns the I/O programs write and check: repeated patterns (\<open>src/lib/pattern.c\<close>), binary
  patterns (\<open>src/lib/databin.c\<close>) and text (\<open>src/lib/dataascii.c\<close>).  Sizes are the lengths of the buffers;
  file offsets are \<open>int\<close> values, whose sums overflow at \<open>2^31\<close>.
\<close>

section \<open>Repeated patterns\<close>

text \<open>
  A call that does not return is \<open>None\<close>; \<open>Overrun\<close> is a copy or comparison with a negative length.
  The buffer is the list of bytes written so far.
\<close>

datatype 'a pattern_result = Overrun | Done 'a

definition pattern_shift :: "bytes \<Rightarrow> nat \<Rightarrow> nat" where
  "pattern_shift pat patshift = (if length pat \<noteq> 0 then patshift mod length pat else patshift)"

partial_function (option) fill_loop :: "bytes \<Rightarrow> nat \<Rightarrow> nat \<Rightarrow> bytes option" where
  [code]: "fill_loop buf nleft buflen =
     (if length buf < buflen
      then let trans = (if length buf < nleft then length buf else nleft)
           in fill_loop (buf @ take trans buf) (nleft - trans) buflen
      else Some buf)"

definition pattern_fill :: "nat \<Rightarrow> bytes \<Rightarrow> nat \<Rightarrow> bytes pattern_result option" where
  "pattern_fill buflen pat patshift =
     (let shift = pattern_shift pat patshift; trans = length pat - shift
      in if shift > length pat then Some Overrun
         else if buflen < trans then Some (Done (take buflen (drop shift pat)))
         else
           let buf = drop shift pat; nleft = buflen - trans
           in if shift > 0 \<and> nleft < shift then Some (Done (buf @ take nleft pat))
              else let (buf, nleft) = (if shift > 0 then (buf @ take shift pat, nleft - shift) else (buf, nleft))
                   in map_option Done (fill_loop buf nleft buflen))"

partial_function (option) check_loop :: "bytes \<Rightarrow> nat \<Rightarrow> nat \<Rightarrow> int option" where
  [code]: "check_loop buf ncmp nleft =
     (if ncmp < length buf
      then let nb = (if ncmp < nleft then ncmp else nleft)
           in if take nb buf \<noteq> slice buf ncmp nb then Some (- 1)
              else check_loop buf (ncmp + nb) (nleft - nb)
      else Some 0)"

definition pattern_check :: "bytes \<Rightarrow> bytes \<Rightarrow> nat \<Rightarrow> int pattern_result option" where
  "pattern_check buf pat patshift =
     (let shift = pattern_shift pat patshift; nb = length pat - shift; nleft = length buf
      in if shift > length pat then Some Overrun
         else if nleft < nb then Some (Done (if take nleft buf \<noteq> take nleft (drop shift pat) then - 1 else 0))
         else if take nb buf \<noteq> drop shift pat then Some (Done (- 1))
         else
           let nleft = nleft - nb
           in if shift > 0 \<and> nleft < shift
              then Some (Done (if slice buf nb nleft \<noteq> take nleft pat then - 1 else 0))
              else if shift > 0 \<and> slice buf nb shift \<noteq> take shift pat then Some (Done (- 1))
              else let (ncmp, nleft) = (if shift > 0 then (nb + shift, nleft - shift) else (nb, nleft))
                   in map_option Done (check_loop buf ncmp nleft))"

section \<open>Binary patterns\<close>

text \<open>
  Sums of the type \<open>int\<close>.  In this and the next section \<open>None\<close> is undefined behaviour: signed overflow, division
  by zero, or a read in front of an array.
\<close>

definition add_int :: "int \<Rightarrow> int \<Rightarrow> int option" where
  "add_int a b = (if - (2 ^ 31) \<le> a + b \<and> a + b < 2 ^ 31 then Some (a + b) else None)"

text \<open>The draws of \<open>rand\<close> for the random mode are a parameter.\<close>

definition databingen :: "(nat \<Rightarrow> int) \<Rightarrow> char \<Rightarrow> int \<Rightarrow> nat \<Rightarrow> bytes option" where
  "databingen rand mode offset bsize =
     (if mode = CHR ''c'' then Some (replicate bsize 0xf0)
      else if mode = CHR ''C''
      then those (map (\<lambda>ind. map_option (\<lambda>x. word_of_int (x smod 8 AND 127)) (add_int offset (int ind))) [0..<bsize])
      else if mode = CHR ''o'' then Some (replicate bsize 0xff)
      else if mode = CHR ''z'' then Some (replicate bsize 0)
      else if mode = CHR ''r'' then Some (map (\<lambda>ind. word_of_int ((rand ind AND 127) OR 64)) [0..<bsize])
      else Some (replicate bsize 0x55))"

text \<open>The comparison with the expected value of each position; the offset of the first difference or -1.\<close>

fun chk_loop :: "(nat \<Rightarrow> int option) \<Rightarrow> int \<Rightarrow> nat \<Rightarrow> bytes \<Rightarrow> int option" where
  "chk_loop expbits offset cnt [] = Some (- 1)"
| "chk_loop expbits offset cnt (chr # buffer) =
     Option.bind (expbits cnt) (\<lambda>e.
       if uint chr \<noteq> e then add_int offset (int cnt) else chk_loop expbits offset (cnt + 1) buffer)"

definition databinchk :: "char \<Rightarrow> int \<Rightarrow> bytes \<Rightarrow> int option" where
  "databinchk mode offset buffer =
     (if mode = CHR ''c'' then chk_loop (\<lambda>_. Some 0xf0) offset 0 buffer
      else if mode = CHR ''C''
      then chk_loop (\<lambda>cnt. map_option (\<lambda>x. x smod 8 AND 127) (add_int offset (int cnt))) offset 0 buffer
      else if mode = CHR ''o'' then chk_loop (\<lambda>_. Some 0xff) offset 0 buffer
      else if mode = CHR ''z'' then chk_loop (\<lambda>_. Some 0) offset 0 buffer
      else if mode = CHR ''r'' then Some (- 1)
      else chk_loop (\<lambda>_. Some 0x55) offset 0 buffer)"

section \<open>Text\<close>

text \<open>
  The size of the default list counts the terminating zero.  A list given by the caller ends before its zero.
  The index is the remainder of C, which is negative for a negative offset.
\<close>

definition CHARS :: bytes where
  "CHARS = map of_char (''ABCDEFGHIJKLMNOPQRSTUVWXYZabcdefghjiklmnopqrstuvwxyz'' @ [CHR 0x0A, CHR 0x00])"

definition charlist :: "string option \<Rightarrow> bytes" where
  "charlist listofchars = (case listofchars of None \<Rightarrow> CHARS | Some cs \<Rightarrow> map of_char cs)"

definition char_at :: "bytes \<Rightarrow> int \<Rightarrow> u8 option" where
  "char_at cs cnt =
     (if cs = [] then None
      else let ind = cnt smod int (length cs) in if ind < 0 then None else Some (cs ! nat ind))"

definition dataasciigen :: "string option \<Rightarrow> int \<Rightarrow> nat \<Rightarrow> bytes option" where
  "dataasciigen listofchars offset bsize =
     Option.bind (add_int offset (int bsize)) (\<lambda>total.
       those (map (char_at (charlist listofchars)) [offset..total - 1]))"

fun ascii_loop :: "bytes \<Rightarrow> int \<Rightarrow> bytes \<Rightarrow> int option" where
  "ascii_loop cs cnt [] = Some (- 1)"
| "ascii_loop cs cnt (chr # buffer) =
     Option.bind (char_at cs cnt) (\<lambda>e. if chr \<noteq> e then Some cnt else ascii_loop cs (cnt + 1) buffer)"

definition dataasciichk :: "string option \<Rightarrow> int \<Rightarrow> bytes \<Rightarrow> int option" where
  "dataasciichk listofchars offset buffer =
     Option.bind (add_int offset (int (length buffer))) (\<lambda>_. ascii_loop (charlist listofchars) offset buffer)"

section \<open>The doubling copy repeats the pattern\<close>

definition periodic :: "bytes \<Rightarrow> nat \<Rightarrow> nat \<Rightarrow> bytes" where
  "periodic pat shift n = map (\<lambda>i. pat ! ((i + shift) mod length pat)) [0..<n]"

lemma length_periodic [simp, len_simps]: "length (periodic pat shift n) = n"
  by (simp add: periodic_def)

lemma nth_periodic [simp]: "i < n \<Longrightarrow> periodic pat shift n ! i = pat ! ((i + shift) mod length pat)"
  by (simp add: periodic_def)

lemma take_periodic: "take m (periodic pat shift n) = periodic pat shift (min m n)"
  by (rule nth_equalityI) simp_all

lemma periodic_shift: "pat \<noteq> [] \<Longrightarrow> periodic pat (pattern_shift pat shift) n = periodic pat shift n"
  by (rule nth_equalityI) (simp_all add: pattern_shift_def mod_simps)

lemma periodic_first: "shift < length pat \<Longrightarrow> n \<le> length pat - shift \<Longrightarrow> periodic pat shift n = take n (drop shift pat)"
  by (rule nth_equalityI) (simp_all add: add.commute)

lemma periodic_wrap:
  "shift < length pat \<Longrightarrow> n \<le> shift \<Longrightarrow> periodic pat shift (length pat - shift + n) = drop shift pat @ take n pat"
proof (rule nth_equalityI, goal_cases)
  case (2 i)
  show ?case
  proof (cases "i < length pat - shift")
    case True
    then show ?thesis using 2 by (simp add: nth_append add.commute)
  next
    case False
    then have "(i + shift) mod length pat = i - (length pat - shift)"
      using 2 le_mod_geq [of "length pat" "i + shift"] by simp
    then show ?thesis using 2 False by (simp add: nth_append)
  qed
qed simp

lemma periodic_add:
  "length pat dvd k \<Longrightarrow> m \<le> k \<Longrightarrow> periodic pat shift (k + m) = periodic pat shift k @ periodic pat shift m"
proof (rule nth_equalityI, goal_cases)
  case (2 i)
  obtain q where "k = length pat * q" using 2(1) by (elim dvdE)
  then have "(i - k + shift) mod length pat = (i + shift) mod length pat" if "\<not> i < k"
    using that mod_mult_self2 [of "i - k + shift" "length pat" q] by (simp add: algebra_simps)
  then show ?case using 2 by (simp add: nth_append)
qed simp

lemma fill_loop_periodic:
  "pat \<noteq> [] \<Longrightarrow> length pat dvd k \<Longrightarrow> 0 < k \<Longrightarrow> k \<le> n \<Longrightarrow> fill_loop (periodic pat shift k) (n - k) n = Some (periodic pat shift n)"
proof (induction "n - k" arbitrary: k rule: less_induct)
  case less
  show ?case
  proof (cases "k < n")
    case True
    define m where "m = (if k < n - k then k else n - k)"
    have m: "m \<le> k" "k + m \<le> n" "k + m \<noteq> n \<Longrightarrow> m = k" using True by (auto simp: m_def)
    have "periodic pat shift k @ take m (periodic pat shift k) = periodic pat shift (k + m)"
      using less.prems(2) m(1) by (simp add: take_periodic periodic_add)
    then have step: "fill_loop (periodic pat shift k) (n - k) n = fill_loop (periodic pat shift (k + m)) (n - (k + m)) n"
      by (subst fill_loop.simps) (simp only: Let_def length_periodic True if_True m_def [symmetric] diff_diff_left)
    show ?thesis
    proof (cases "k + m = n")
      case full: True
      then show ?thesis unfolding step by (subst fill_loop.simps) simp
    next
      case False
      then show ?thesis unfolding step using less.hyps [of "k + m"] less.prems m by simp
    qed
  next
    case False
    then show ?thesis using less.prems(4) by (subst fill_loop.simps) simp
  qed
qed

lemma pattern_fill_periodic:
  assumes "pat \<noteq> []"
  shows "pattern_fill n pat shift = Some (Done (periodic pat shift n))"
proof -
  let ?s = "pattern_shift pat shift"
  have s: "?s < length pat" using assms by (simp add: pattern_shift_def)
  let ?nb = "length pat - ?s"
  have first: "drop ?s pat = periodic pat ?s ?nb" using s by (simp add: periodic_first)
  have whole: "drop ?s pat @ take ?s pat = periodic pat ?s (length pat)" using periodic_wrap [OF s, of ?s] s by simp
  consider "n < ?nb" | "?nb \<le> n" "?s > 0" "n < length pat" | "length pat \<le> n" | "?nb \<le> n" "?s = 0" using s by linarith
  then have "pattern_fill n pat shift = Some (Done (periodic pat ?s n))"
  proof cases
    case 1
    then show ?thesis using s by (simp add: pattern_fill_def Let_def periodic_first)
  next
    case 2
    then have "n - ?nb < ?s" "n = ?nb + (n - ?nb)" using s by simp_all
    then show ?thesis using s 2 periodic_wrap [OF s, of "n - ?nb"] by (simp add: pattern_fill_def Let_def)
  next
    case 3
    then have "n - ?nb - ?s = n - length pat" "\<not> n - ?nb < ?s" "\<not> n < ?nb" using s by simp_all
    then show ?thesis using s 3 assms fill_loop_periodic [OF assms, of "length pat" n ?s] whole first
      by (auto simp: pattern_fill_def Let_def)
  next
    case 4
    then show ?thesis using assms fill_loop_periodic [OF assms, of "length pat" n 0] first
      by (auto simp: pattern_fill_def Let_def)
  qed
  then show ?thesis by (simp add: periodic_shift [OF assms])
qed

lemma take_eq_periodic: "n \<le> length buf \<Longrightarrow> take n buf = periodic pat s n \<longleftrightarrow> (\<forall>i < n. buf ! i = pat ! ((i + s) mod length pat))"
  by (auto simp: list_eq_iff_nth_eq)

lemma check_loop_periodic:
  "pat \<noteq> [] \<Longrightarrow> length pat dvd k \<Longrightarrow> 0 < k \<Longrightarrow> k \<le> length buf \<Longrightarrow> take k buf = periodic pat shift k \<Longrightarrow>
    check_loop buf k (length buf - k) = Some (if buf = periodic pat shift (length buf) then 0 else - 1)"
proof (induction "length buf - k" arbitrary: k rule: less_induct)
  case less
  show ?case
  proof (cases "k < length buf")
    case True
    define m where "m = (if k < length buf - k then k else length buf - k)"
    have m: "m \<le> k" "k + m \<le> length buf" "k + m \<noteq> length buf \<Longrightarrow> m = k" using True by (auto simp: m_def)
    have add: "take (k + m) buf = periodic pat shift (k + m) \<longleftrightarrow> slice buf k m = periodic pat shift m"
      using less.prems(5) by (simp add: take_add periodic_add [OF less.prems(2) m(1)] slice_def)
    have low: "take m buf = periodic pat shift m"
      using arg_cong [OF less.prems(5), of "take m"] m(1) by (simp add: take_periodic min_def)
    have step: "check_loop buf k (length buf - k) =
      (if take (k + m) buf = periodic pat shift (k + m) then check_loop buf (k + m) (length buf - (k + m)) else Some (- 1))"
      unfolding add using True low by (subst check_loop.simps) (auto simp: Let_def simp flip: m_def)
    show ?thesis
    proof (cases "take (k + m) buf = periodic pat shift (k + m)")
      case ok: True
      show ?thesis
      proof (cases "k + m = length buf")
        case full: True
        then show ?thesis using ok step by (simp add: check_loop.simps [of buf "length buf"])
      next
        case False
        then show ?thesis using less.hyps [of "k + m"] less.prems ok step m by simp
      qed
    next
      case False
      then have "buf \<noteq> periodic pat shift (length buf)"
        using m(2) take_periodic [of "k + m" pat shift "length buf"] by (metis min_absorb1)
      then show ?thesis using step False by simp
    qed
  next
    case False
    then have "k = length buf" using less.prems(4) by simp
    then show ?thesis using less.prems(5) by (subst check_loop.simps) simp
  qed
qed

lemma take_periodic_neq: "n \<le> length buf \<Longrightarrow> take n buf \<noteq> periodic pat s n \<Longrightarrow> buf \<noteq> periodic pat s (length buf)"
  using take_periodic [of n pat s "length buf"] by (metis min_absorb1)

lemma pattern_check_cases:
  assumes "pattern_shift pat shift = sh" "nb + sh = length pat"
  shows "pattern_check buf pat shift =
    (if length buf < nb then Some (Done (if buf = take (length buf) (drop sh pat) then 0 else - 1))
     else if take nb buf \<noteq> drop sh pat then Some (Done (- 1))
     else if length buf < length pat then Some (Done (if slice buf nb (length buf - nb) = take (length buf - nb) pat then 0 else - 1))
     else if slice buf nb sh \<noteq> take sh pat then Some (Done (- 1))
     else map_option Done (check_loop buf (length pat) (length buf - length pat)))"
proof -
  have nb: "length pat - sh = nb" "\<not> sh > length pat" "length buf - nb - sh = length buf - length pat" using assms(2) by auto
  have lt: "length buf < length pat \<longleftrightarrow> sh > 0 \<and> length buf - nb < sh" if "\<not> length buf < nb" using that assms(2) by auto
  show ?thesis
  proof (cases "sh = 0")
    case True
    then have "nb = length pat" using assms(2) by simp
    then show ?thesis unfolding pattern_check_def Let_def assms(1) nb(1) using nb True by (simp add: slice_def)
  next
    case False
    then show ?thesis unfolding pattern_check_def Let_def assms(1) nb(1) using nb lt assms(2) by (simp add: slice_def)
  qed
qed

lemma pattern_check_periodic:
  assumes "pat \<noteq> []"
  shows "pattern_check buf pat shift = Some (Done (if buf = periodic pat shift (length buf) then 0 else - 1))"
proof -
  define sh nb where "sh = pattern_shift pat shift" and "nb = length pat - sh"
  have s: "sh < length pat" "nb + sh = length pat" using assms by (auto simp: pattern_shift_def sh_def nb_def)
  have wrap: "drop sh pat @ take k pat = periodic pat sh (nb + k)" if "k \<le> sh" for k
    using periodic_wrap [OF s(1) that] by (simp add: nb_def)
  have first: "drop sh pat = periodic pat sh nb" using wrap [of 0] by simp
  have both: "take (nb + k) buf = periodic pat sh (nb + k) \<longleftrightarrow> take nb buf = drop sh pat \<and> slice buf nb k = take k pat"
    if "k \<le> sh" "nb + k \<le> length buf" for k
    using that s unfolding wrap [OF that(1), symmetric] take_add slice_def by (subst append_eq_append_conv) auto
  let ?ok = "buf = periodic pat sh (length buf)"
  have "pattern_check buf pat shift = Some (Done (if ?ok then 0 else - 1))"
  proof (cases "length buf < nb")
    case True
    then have "?ok \<longleftrightarrow> buf = take (length buf) (drop sh pat)" using periodic_first [OF s(1), of "length buf"] by (simp add: nb_def)
    then show ?thesis using True pattern_check_cases [OF sh_def [symmetric] s(2), of buf] by simp
  next
    case nb: False
    show ?thesis
    proof (cases "length buf < length pat")
      case True
      then have "?ok \<longleftrightarrow> take nb buf = drop sh pat \<and> slice buf nb (length buf - nb) = take (length buf - nb) pat"
        using both [of "length buf - nb"] nb s(2) by simp
      then show ?thesis using True nb pattern_check_cases [OF sh_def [symmetric] s(2), of buf] by simp
    next
      case False
      then have eq: "take (length pat) buf = periodic pat sh (length pat) \<longleftrightarrow> take nb buf = drop sh pat \<and> slice buf nb sh = take sh pat"
        using both [of sh] s(2) by simp
      have "?ok \<Longrightarrow> take (length pat) buf = periodic pat sh (length pat)"
        using take_periodic_neq [of "length pat" buf pat sh] False by auto
      then show ?thesis
        using False nb eq check_loop_periodic [OF assms, of "length pat" buf sh] assms
          pattern_check_cases [OF sh_def [symmetric] s(2), of buf] by auto
    qed
  qed
  then show ?thesis by (simp add: sh_def periodic_shift [OF assms])
qed

section \<open>Generators and checkers\<close>

text \<open>
  The contract between a generator and its checker: for offsets within the range of \<open>int\<close> the generator writes at
  each offset of the file a byte that depends on the offset only, and the checker compares position by position.
  What follows from it is that data can be checked in pieces of any size, and that the first wrong byte is located.
\<close>

definition int_range :: "int \<Rightarrow> nat \<Rightarrow> bool" where
  "int_range offset n \<longleftrightarrow> 0 \<le> offset \<and> offset + int n < 2 ^ 31"

definition bytes_from :: "(int \<Rightarrow> u8) \<Rightarrow> int \<Rightarrow> nat \<Rightarrow> bytes" where
  "bytes_from expected offset n = map (\<lambda>i. expected (offset + int i)) [0..<n]"

lemma length_bytes_from [simp, len_simps]: "length (bytes_from expected offset n) = n"
  by (simp add: bytes_from_def)

lemma nth_bytes_from [simp]: "i < n \<Longrightarrow> bytes_from expected offset n ! i = expected (offset + int i)"
  by (simp add: bytes_from_def)

lemma bytes_from_Suc: "bytes_from expected offset (Suc n) = expected offset # bytes_from expected (offset + 1) n"
  by (simp add: bytes_from_def upt_conv_Cons map_Suc_upt [symmetric] del: upt_Suc map_Suc_upt) (simp add: algebra_simps)

lemma slice_bytes_from: "k + m \<le> n \<Longrightarrow> slice (bytes_from expected offset n) k m = bytes_from expected (offset + int k) m"
  by (rule nth_equalityI) (simp_all add: slice_def add.assoc)

lemma those_map_Some: "\<forall>x \<in> set xs. f x = Some (g x) \<Longrightarrow> those (map f xs) = Some (map g xs)"
  by (induction xs) simp_all

definition first_difference :: "bytes \<Rightarrow> bytes \<Rightarrow> nat" where
  "first_difference xs ys = (LEAST k. k < length xs \<and> xs ! k \<noteq> ys ! k)"

lemma first_difference_eq:
  assumes "k < length xs" "xs ! k \<noteq> ys ! k" "\<forall>i < k. xs ! i = ys ! i"
  shows "first_difference xs ys = k"
  unfolding first_difference_def using assms by (intro Least_equality) (auto simp: not_less [symmetric])

locale data_pattern =
  fixes gen :: "int \<Rightarrow> nat \<Rightarrow> bytes option" and chk :: "int \<Rightarrow> bytes \<Rightarrow> int option" and expected :: "int \<Rightarrow> u8"
  assumes gen_expected: "int_range offset n \<Longrightarrow> gen offset n = Some (bytes_from expected offset n)"
    and chk_Nil: "int_range offset 0 \<Longrightarrow> chk offset [] = Some (- 1)"
    and chk_Cons: "int_range offset (Suc (length buf)) \<Longrightarrow>
      chk offset (c # buf) = (if c \<noteq> expected offset then Some offset else chk (offset + 1) buf)"
begin

lemma chk_result:
  "int_range offset (length buf) \<Longrightarrow>
    chk offset buf = Some (if buf = bytes_from expected offset (length buf) then - 1
      else offset + int (first_difference buf (bytes_from expected offset (length buf))))"
proof (induction buf arbitrary: offset)
  case Nil
  then show ?case by (simp add: chk_Nil bytes_from_def)
next
  case (Cons c buf)
  let ?b = "bytes_from expected (offset + 1) (length buf)"
  have rng: "int_range (offset + 1) (length buf)" using Cons.prems by (simp add: int_range_def)
  show ?case
  proof (cases "c = expected offset")
    case False
    then have "first_difference (c # buf) (expected offset # ?b) = 0" by (intro first_difference_eq) simp_all
    then show ?thesis using False Cons.prems by (simp add: chk_Cons bytes_from_Suc)
  next
    case True
    have "first_difference (c # buf) (expected offset # ?b) = Suc (first_difference buf ?b)" if neq: "buf \<noteq> ?b"
    proof -
      obtain k where "k < length buf \<and> buf ! k \<noteq> ?b ! k" using neq nth_equalityI [of buf ?b] length_bytes_from by metis
      then have least: "first_difference buf ?b < length buf \<and> buf ! first_difference buf ?b \<noteq> ?b ! first_difference buf ?b"
        unfolding first_difference_def by (rule LeastI)
      have "buf ! i = ?b ! i" if "i < first_difference buf ?b" for i
        using not_less_Least [of i "\<lambda>k. k < length buf \<and> buf ! k \<noteq> ?b ! k"] that least
        unfolding first_difference_def by auto
      then show ?thesis using True least by (intro first_difference_eq) (auto simp: nth_Cons')
    qed
    then show ?thesis using True Cons.prems Cons.IH [OF rng] by (auto simp: chk_Cons bytes_from_Suc)
  qed
qed

lemma chk_part:
  assumes "int_range offset n" "k + m \<le> n"
  shows "chk (offset + int k) (slice (bytes_from expected offset n) k m) = Some (- 1)"
  using assms chk_result [of "offset + int k" "bytes_from expected (offset + int k) m"]
  by (simp add: slice_bytes_from int_range_def)

end

text \<open>The value a mode of \<open>databingen\<close> has at an offset of the file.\<close>

definition databin_value :: "char \<Rightarrow> int \<Rightarrow> int" where
  "databin_value mode i =
     (if mode = CHR ''c'' then 0xf0 else if mode = CHR ''C'' then i mod 8
      else if mode = CHR ''o'' then 0xff else if mode = CHR ''z'' then 0 else 0x55)"

lemma smod_8_mask: "0 \<le> (x :: int) \<Longrightarrow> x smod 8 AND 127 = x mod 8"
proof -
  assume "0 \<le> x"
  then have "x smod 8 = x mod 8" by (simp add: smod_nonneg)
  moreover have "take_bit 7 (x mod 8) = x mod 8" using pos_mod_bound [of 8 x] by (simp add: take_bit_int_eq_self_iff)
  ultimately show ?thesis by (simp add: take_bit_eq_mask mask_numeral)
qed

lemma databin_value_byte: "uint (word_of_int (databin_value mode i) :: u8) = databin_value mode i"
proof -
  have "0 \<le> i mod 8" "i mod 8 < 256" using pos_mod_bound [of 8 i] by simp_all
  then show ?thesis by (auto simp: databin_value_def uint_word_of_int)
qed

lemma add_int_range: "int_range offset n \<Longrightarrow> i \<le> n \<Longrightarrow> add_int offset (int i) = Some (offset + int i)"
  by (auto simp: int_range_def add_int_def)

lemma databingen_value:
  assumes "mode \<noteq> CHR ''r''" "int_range offset n"
  shows "databingen rand mode offset n = Some (bytes_from (\<lambda>i. word_of_int (databin_value mode i)) offset n)"
proof (cases "mode = CHR ''C''")
  case True
  have "those (map (\<lambda>ind. map_option (\<lambda>x. word_of_int (x smod 8 AND 127)) (add_int offset (int ind))) [0..<n]) =
      Some (bytes_from (\<lambda>i. word_of_int (i mod 8)) offset n)"
    unfolding bytes_from_def
  proof (rule those_map_Some, rule ballI)
    fix ind assume "ind \<in> set [0..<n]"
    then have "add_int offset (int ind) = Some (offset + int ind)" "0 \<le> offset + int ind"
      using assms(2) by (auto simp: add_int_range int_range_def)
    then show "map_option (\<lambda>x. word_of_int (x smod 8 AND 127)) (add_int offset (int ind)) = Some (word_of_int ((offset + int ind) mod 8))"
      by (simp add: smod_8_mask)
  qed
  then show ?thesis using True by (simp add: databingen_def databin_value_def)
next
  case False
  then show ?thesis using assms(1) by (auto simp: databingen_def databin_value_def bytes_from_def map_replicate_const)
qed

lemma chk_loop_Suc:
  "int_range offset (Suc c + length buf) \<Longrightarrow>
    chk_loop f offset (Suc c) buf = chk_loop (\<lambda>i. f (Suc i)) (offset + 1) c buf"
  by (induction buf arbitrary: c) (auto simp: add_int_range int_range_def add_int_def algebra_simps split: Option.bind_split)

lemma databinchk_value:
  assumes "mode \<noteq> CHR ''r''" "int_range offset (length buf)"
  shows "databinchk mode offset buf = chk_loop (\<lambda>i. Some (databin_value mode (offset + int i))) offset 0 buf"
proof -
  have "chk_loop (\<lambda>cnt. map_option (\<lambda>x. x smod 8 AND 127) (add_int offset (int cnt))) offset c buf =
      chk_loop (\<lambda>i. Some ((offset + int i) mod 8)) offset c buf" if "int_range offset (c + length buf)" for c
    using that by (induction buf arbitrary: c) (auto simp: add_int_def int_range_def smod_8_mask)
  from this [of 0] show ?thesis using assms by (simp add: databinchk_def databin_value_def)
qed

lemma databin_pattern:
  assumes "mode \<noteq> CHR ''r''"
  shows "data_pattern (databingen rand mode) (databinchk mode) (\<lambda>i. word_of_int (databin_value mode i))"
proof (unfold_locales, goal_cases)
  case (3 offset buf c)
  have c: "uint c = databin_value mode offset \<longleftrightarrow> c = word_of_int (databin_value mode offset)"
    using databin_value_byte [of mode offset] by (metis word_of_int_uint)
  have rng: "int_range (offset + 1) (length buf)" "int_range offset (Suc 0 + length buf)" "add_int offset 0 = Some offset"
    using 3 by (auto simp: int_range_def add_int_def)
  have "databinchk mode offset (c # buf) =
      (if uint c \<noteq> databin_value mode offset then Some offset
       else chk_loop (\<lambda>i. Some (databin_value mode (offset + int i))) offset (Suc 0) buf)"
    using 3 rng(3) by (simp add: databinchk_value [OF assms])
  also have "chk_loop (\<lambda>i. Some (databin_value mode (offset + int i))) offset (Suc 0) buf = databinchk mode (offset + 1) buf"
    unfolding chk_loop_Suc [OF rng(2)] databinchk_value [OF assms rng(1)] by (simp add: add.assoc)
  finally show ?case using c by simp
qed (simp_all add: databingen_value [OF assms] databinchk_value [OF assms])

interpretation alternating: data_pattern "databingen rand (CHR ''a'')" "databinchk (CHR ''a'')"
  "\<lambda>i. word_of_int (databin_value (CHR ''a'') i)" for rand
  by (rule databin_pattern) simp

interpretation checkerboard: data_pattern "databingen rand (CHR ''c'')" "databinchk (CHR ''c'')"
  "\<lambda>i. word_of_int (databin_value (CHR ''c'') i)" for rand
  by (rule databin_pattern) simp

interpretation counting: data_pattern "databingen rand (CHR ''C'')" "databinchk (CHR ''C'')"
  "\<lambda>i. word_of_int (databin_value (CHR ''C'') i)" for rand
  by (rule databin_pattern) simp

definition ascii_value :: "string option \<Rightarrow> int \<Rightarrow> u8" where
  "ascii_value listofchars i = charlist listofchars ! nat (i mod int (length (charlist listofchars)))"

lemma char_at_value: "charlist cs \<noteq> [] \<Longrightarrow> 0 \<le> i \<Longrightarrow> char_at (charlist cs) i = Some (ascii_value cs i)"
  using pos_mod_sign [of "int (length (charlist cs))" i] by (auto simp: char_at_def ascii_value_def smod_nonneg Let_def not_less [symmetric])

lemma ascii_pattern:
  assumes "charlist cs \<noteq> []"
  shows "data_pattern (dataasciigen cs) (dataasciichk cs) (ascii_value cs)"
proof (unfold_locales, goal_cases)
  case (1 offset n)
  then have "those (map (char_at (charlist cs)) [offset..offset + int n - 1]) = Some (map (ascii_value cs) [offset..offset + int n - 1])"
    by (intro those_map_Some) (auto simp: char_at_value [OF assms] int_range_def)
  moreover have "map (ascii_value cs) [offset..offset + int n - 1] = bytes_from (ascii_value cs) offset n"
    by (rule nth_equalityI) (simp_all add: nth_upto)
  ultimately show ?case using 1 by (simp add: dataasciigen_def add_int_range)
next
  case (3 offset buf c)
  then show ?case
    by (auto simp: dataasciichk_def char_at_value [OF assms] int_range_def add_int_def)
qed (simp add: dataasciichk_def add_int_def int_range_def)

interpretation ascii: data_pattern "dataasciigen None" "dataasciichk None" "ascii_value None"
  by (rule ascii_pattern) (simp add: charlist_def CHARS_def)

lemma fill_loop_empty:
  assumes "0 < n"
  shows "fill_loop [] k n = None"
proof (rule ccontr)
  assume "fill_loop [] k n \<noteq> None"
  then obtain r where run: "fill_loop [] k n = Some r" by auto
  have "\<not> (([] :: bytes) = [] \<and> 0 < n)"
  proof (rule fill_loop.raw_induct [OF _ run, where P = "\<lambda>buf nleft len r. \<not> (buf = [] \<and> 0 < len)"], goal_cases)
    case (1 loop buf nleft len r)
    then show ?case by (auto simp: Let_def split: if_splits)
  qed
  then show False using assms by simp
qed

section \<open>Properties\<close>

text \<open>
  C35. For a pattern that is not empty, \<open>pattern_fill\<close> returns and the buffer is the pattern repeated from the
  shift on, although it is built by copying the buffer onto itself in pieces of doubling size; \<open>pattern_check\<close>
  returns 0 exactly for such a buffer.  With an empty pattern \<open>pattern_fill\<close> never returns.
\<close>

theorem pattern_fill_and_check_agree:
  "(pat \<noteq> [] \<longrightarrow>
     pattern_fill n pat shift = Some (Done (periodic pat shift n)) \<and>
     pattern_check buf pat shift = Some (Done (if buf = periodic pat shift (length buf) then 0 else - 1))) \<and>
   (0 < n \<longrightarrow> pattern_fill n [] 0 = None)"
  by (simp add: pattern_fill_periodic pattern_check_periodic) (simp add: pattern_fill_def pattern_shift_def fill_loop_empty)

theorem pattern_fill_and_check_agree_witness:
  "pattern_fill 7 [1, 2, 3] 4 = Some (Done [2, 3, 1, 2, 3, 1, 2])"
proof -
  have "periodic [1, 2, 3] 4 7 = [2, 3, 1, 2, 3, 1, 2]" by code_simp
  then show ?thesis using pattern_fill_and_check_agree [of "[1, 2, 3]" 7 4] by simp
qed



end
