(* ===== verification/Lib_Wlog.thy ===== *)
theory Lib_Wlog
  imports Bytes
begin

text \<open>
  The write log of \<open>src/lib/write_log.c\<close>, in which \<open>doio\<close> records every write it has done: records packed
  into bit fields, appended with their length behind them, and scanned from the end of the file.
\<close>

section \<open>Records\<close>

text \<open>
  The character arrays are lists of their declared length; the lengths are fields of their own, as in the
  structure of \<open>src/include/write_log.h\<close>.
\<close>

record wlog_rec =
  w_pid :: int
  w_offset :: int
  w_nbytes :: int
  w_oflags :: int
  w_done :: int
  w_async :: int
  w_host :: bytes
  w_hostlen :: int
  w_path :: bytes
  w_pathlen :: int
  w_pattern :: bytes
  w_patternlen :: int

definition WLOG_MAX_PATH :: nat where "WLOG_MAX_PATH = 128"
definition WLOG_MAX_PATTERN :: nat where "WLOG_MAX_PATTERN = 64"
definition WLOG_MAX_HOST :: nat where "WLOG_MAX_HOST = 8"

lemmas wlog_maxima = WLOG_MAX_PATH_def WLOG_MAX_PATTERN_def WLOG_MAX_HOST_def

text \<open>The size of \<open>struct wlog_rec\<close> is 248 with the padding of the arrays to four bytes.\<close>

definition WLOG_REC_MAX_SIZE :: nat where
  "WLOG_REC_MAX_SIZE = 248 + WLOG_MAX_PATH + WLOG_MAX_PATTERN + WLOG_MAX_HOST + 2"

text \<open>Access to \<open>n\<close> bits of a word from bit \<open>p\<close> on; an assignment to a bit field keeps the other bits.\<close>

definition get_bits :: "nat \<Rightarrow> nat \<Rightarrow> u32 \<Rightarrow> u32" where
  "get_bits p n w = take_bit n (drop_bit p w)"

definition put_bits :: "nat \<Rightarrow> nat \<Rightarrow> u32 \<Rightarrow> u32 \<Rightarrow> u32" where
  "put_bits p n v w = (w AND NOT (push_bit p (mask n))) OR push_bit p (take_bit n v)"

definition field_len :: "nat \<Rightarrow> int \<Rightarrow> u32" where
  "field_len n len = (if len > 0 then take_bit n (word_of_int len) else 0)"

text \<open>
  The layout of \<open>struct wlog_rec_disk\<close>: four words, then the fields of 17, 7 and 6 bits in the fifth word,
  those of 4, 1 and 1 bits in the sixth, and \<open>w_extra2\<close> in a seventh, because its 28 bits do not fit behind
  them.  The fields \<open>w_extra0\<close> and \<open>w_extra2\<close> are never assigned, so they keep what the buffer held, as do
  the bits that no field covers.  The lengths in a record are at most those of its arrays.
\<close>

definition sizeof_wlog_rec_disk :: nat where
  "sizeof_wlog_rec_disk = 28"

definition wlog_rec_pack :: "wlog_rec \<Rightarrow> bytes \<Rightarrow> bool \<Rightarrow> bytes" where
  "wlog_rec_pack wrec buf flag =
     (let pathlen = field_len 7 (w_pathlen wrec);
          hostlen = field_len 4 (w_hostlen wrec);
          patternlen = field_len 6 (w_patternlen wrec);
          word4 = put_bits 24 6 patternlen (put_bits 17 7 pathlen
                   (put_bits 0 17 (word_of_int (w_pid wrec)) (get_unaligned_le32 (slice buf 16 4))));
          word5 = put_bits 5 1 (word_of_int (w_async wrec)) (put_bits 4 1 (word_of_int (w_done wrec))
                   (put_bits 0 4 hostlen (get_unaligned_le32 (slice buf 20 4))));
          wrecd = put_unaligned_le32 (word_of_int (w_offset wrec)) @ slice buf 4 4 @
                  put_unaligned_le32 (word_of_int (w_nbytes wrec)) @
                  put_unaligned_le32 (word_of_int (w_oflags wrec)) @
                  put_unaligned_le32 word4 @ put_unaligned_le32 word5 @ slice buf 24 4
      in if flag
         then wrecd @ take (unat pathlen) (w_path wrec) @ take (unat hostlen) (w_host wrec) @
              take (unat patternlen) (w_pattern wrec)
         else wrecd)"

definition fill_array :: "nat \<Rightarrow> bytes \<Rightarrow> bytes" where
  "fill_array n xs = xs @ replicate (n - length xs) 0"

definition wlog_rec_unpack :: "bytes \<Rightarrow> wlog_rec" where
  "wlog_rec_unpack buf =
     (let word4 = get_unaligned_le32 (slice buf 16 4);
          word5 = get_unaligned_le32 (slice buf 20 4);
          pathlen = unat (get_bits 17 7 word4);
          patternlen = unat (get_bits 24 6 word4);
          hostlen = unat (get_bits 0 4 word5)
      in \<lparr>w_pid = uint (get_bits 0 17 word4),
          w_offset = sint (get_unaligned_le32 (slice buf 0 4)),
          w_nbytes = sint (get_unaligned_le32 (slice buf 8 4)),
          w_oflags = sint (get_unaligned_le32 (slice buf 12 4)),
          w_done = uint (get_bits 4 1 word5),
          w_async = uint (get_bits 5 1 word5),
          w_host = fill_array (WLOG_MAX_HOST + 1) (slice buf (sizeof_wlog_rec_disk + pathlen) hostlen),
          w_hostlen = int hostlen,
          w_path = fill_array (WLOG_MAX_PATH + 1) (slice buf sizeof_wlog_rec_disk pathlen),
          w_pathlen = int pathlen,
          w_pattern = fill_array (WLOG_MAX_PATTERN + 1) (slice buf (sizeof_wlog_rec_disk + pathlen + hostlen) patternlen),
          w_patternlen = int patternlen\<rparr>)"

section \<open>The log file\<close>

text \<open>
  The system calls on the log file are parameters: appending to it, its size, overwriting and reading at an
  offset, where \<open>None\<close> is an error.  The code keeps offsets in an \<open>int\<close>, to which they are converted.
\<close>

definition as_int32 :: "int \<Rightarrow> int" where
  "as_int32 x = sint (word_of_int x :: u32)"

record 'f log_sys =
  log_append :: "'f \<Rightarrow> bytes \<Rightarrow> 'f"
  log_end :: "'f \<Rightarrow> nat"
  log_pwrite :: "'f \<Rightarrow> nat \<Rightarrow> bytes \<Rightarrow> 'f"
  log_pread :: "'f \<Rightarrow> nat \<Rightarrow> nat \<Rightarrow> bytes option"

definition wlog_record_write :: "'f log_sys \<Rightarrow> bytes \<Rightarrow> wlog_rec \<Rightarrow> int \<Rightarrow> 'f \<Rightarrow> int \<times> 'f" where
  "wlog_record_write sys wbuf wrec offset wfile =
     (let packed = wlog_rec_pack wrec wbuf (offset < 0); reclen = length packed
      in if offset < 0
         then let wfile = log_append sys wfile (packed @ [of_nat (reclen div 256), of_nat (reclen mod 256)])
              in (as_int32 (int (log_end sys wfile) - int (reclen + 2)), wfile)
         else (as_int32 offset, log_pwrite sys wfile (nat offset) packed))"

text \<open>
  The scan reads the file from its end in pieces of \<open>BUFSIZE\<close> bytes.  \<open>Bad_copy\<close> is a copy past
  the end of the record buffer.  The build makes \<open>char\<close> unsigned (\<open>-funsigned-char\<close>).
\<close>

definition BUFSIZE :: nat where
  "BUFSIZE = 512 * 32"

datatype scan_error = Bad_copy | Read_failed

text \<open>The bytes before \<open>cp\<close> that do not hold a complete record are moved to the end of the buffer.\<close>

definition keep_leftover :: "nat \<Rightarrow> bytes \<Rightarrow> nat \<Rightarrow> nat \<times> bytes" where
  "keep_leftover bufstart buf cp =
     (cp - bufstart, put_at buf (BUFSIZE - (cp - bufstart)) (slice buf bufstart (cp - bufstart)))"

function scan_records ::
  "(wlog_rec \<Rightarrow> 's \<Rightarrow> bool \<times> 's) \<Rightarrow> nat \<Rightarrow> nat \<Rightarrow> bytes \<Rightarrow> nat \<Rightarrow> bytes \<Rightarrow> nat \<Rightarrow> 's \<Rightarrow>
    scan_error + (nat \<times> bytes) \<times> bytes \<times> nat \<times> 's" where
  "scan_records func nrecs bufstart buf cp albuf recnum s =
     (if cp < bufstart + 2 then Inr (keep_leftover bufstart buf cp, albuf, recnum, s)
      else
        let reclen = unat (buf ! (cp - 2)) * 256 + unat (buf ! (cp - 1))
        in if cp - bufstart < reclen + 2 then Inr (keep_leftover bufstart buf cp, albuf, recnum, s)
           else if reclen > WLOG_REC_MAX_SIZE then Inl Bad_copy
           else
             let cp = cp - (reclen + 2);
                 albuf = put_at albuf 0 (slice buf cp reclen);
                 (continue, s) = func (wlog_rec_unpack albuf) s
             in if \<not> continue then Inr ((0, buf), albuf, recnum, s)
                else if nrecs \<noteq> 0 \<and> recnum + 1 \<ge> nrecs then Inr ((0, buf), albuf, recnum + 1, s)
                else scan_records func nrecs bufstart buf cp albuf (recnum + 1) s)"
  by pat_completeness auto
termination
  by (relation "measure (\<lambda>(func, nrecs, bufstart, buf, cp, albuf, recnum, s). cp)") auto

declare scan_records.simps [simp del]

partial_function (option) scan_loop ::
  "'f log_sys \<Rightarrow> (wlog_rec \<Rightarrow> 's \<Rightarrow> bool \<times> 's) \<Rightarrow> nat \<Rightarrow> 'f \<Rightarrow> nat \<Rightarrow> nat \<Rightarrow> bytes \<Rightarrow> bytes \<Rightarrow> nat \<Rightarrow> 's \<Rightarrow>
    (scan_error + 's) option" where
  [code]: "scan_loop sys func nrecs wfile offset leftover buf albuf recnum s =
     (if (nrecs = 0 \<or> recnum < nrecs) \<and> offset > 0
      then
        let (bufstart, offset) = (if offset + leftover < BUFSIZE then (BUFSIZE - (offset + leftover), 0)
                                  else (0, offset - (BUFSIZE - leftover)))
        in case log_pread sys wfile offset (BUFSIZE - bufstart - leftover) of
             None \<Rightarrow> Some (Inl Read_failed)
           | Some data \<Rightarrow>
               (case scan_records func nrecs bufstart (put_at buf bufstart data) BUFSIZE albuf recnum s of
                  Inl e \<Rightarrow> Some (Inl e)
                | Inr ((leftover, buf), albuf, recnum, s) \<Rightarrow>
                    scan_loop sys func nrecs wfile offset leftover buf albuf recnum s)
      else Some (Inr s))"

text \<open>
  The initial contents of the two buffers on the stack are arguments.  With a negative offset the loop ends at
  once, as it does with 0.
\<close>

definition wlog_scan_backward ::
  "'f log_sys \<Rightarrow> bytes \<Rightarrow> bytes \<Rightarrow> 'f \<Rightarrow> nat \<Rightarrow> (wlog_rec \<Rightarrow> 's \<Rightarrow> bool \<times> 's) \<Rightarrow> 's \<Rightarrow> (scan_error + 's) option" where
  "wlog_scan_backward sys buf albuf wfile nrecs func s =
     scan_loop sys func nrecs wfile (nat (as_int32 (int (log_end sys wfile)))) 0 buf albuf 0 s"

section \<open>Packing keeps a record\<close>

lemma get_put_bits: "p + n \<le> 32 \<Longrightarrow> get_bits p n (put_bits p n v w) = take_bit n v"
  by (rule bit_word_eqI) (auto simp: get_bits_def put_bits_def bit_simps)

lemma get_put_bits_other:
  "p + n \<le> q \<or> q + m \<le> p \<Longrightarrow> get_bits p n (put_bits q m v w) = get_bits p n w"
  by (rule bit_word_eqI) (auto simp: get_bits_def put_bits_def bit_simps dest: bit_imp_le_length)

definition wlog_ok :: "wlog_rec \<Rightarrow> bool" where
  "wlog_ok r \<longleftrightarrow>
     0 \<le> w_pid r \<and> w_pid r < 2 ^ 17 \<and> w_done r \<in> {0, 1} \<and> w_async r \<in> {0, 1} \<and>
     (\<forall>x \<in> {w_offset r, w_nbytes r, w_oflags r}. - (2 ^ 31) \<le> x \<and> x < 2 ^ 31) \<and>
     0 \<le> w_hostlen r \<and> w_hostlen r \<le> int WLOG_MAX_HOST \<and> 0 \<le> w_pathlen r \<and> w_pathlen r < int WLOG_MAX_PATH \<and>
     0 \<le> w_patternlen r \<and> w_patternlen r < int WLOG_MAX_PATTERN \<and>
     w_host r = fill_array (WLOG_MAX_HOST + 1) (take (nat (w_hostlen r)) (w_host r)) \<and>
     w_path r = fill_array (WLOG_MAX_PATH + 1) (take (nat (w_pathlen r)) (w_path r)) \<and>
     w_pattern r = fill_array (WLOG_MAX_PATTERN + 1) (take (nat (w_patternlen r)) (w_pattern r))"

lemma unat_field:
  assumes "0 \<le> x" "x < 2 ^ n" "n \<le> 32"
  shows "uint (take_bit n (word_of_int x :: u32)) = x" "unat (take_bit n (word_of_int x :: u32)) = nat x"
proof -
  have "x < 2 ^ 32" using assms(2) power_increasing [OF assms(3), of "2 :: int"] by simp
  then have "uint (word_of_int x :: u32) = x" using assms(1) by (simp add: uint_word_of_int)
  then show "uint (take_bit n (word_of_int x :: u32)) = x"
    using assms(1,2) by (simp add: unsigned_take_bit_eq take_bit_int_eq_self)
  then show "unat (take_bit n (word_of_int x :: u32)) = nat x" by (simp only: unat_eq_nat_uint)
qed

lemma unat_field_len: "0 \<le> len \<Longrightarrow> len < 2 ^ n \<Longrightarrow> n \<le> 32 \<Longrightarrow> unat (field_len n len) = nat len"
  by (simp add: field_len_def unat_field)

lemma take_bit_field_len: "take_bit n (field_len n len) = field_len n len"
  by (simp add: field_len_def)

lemma sint_int32: "- (2 ^ 31) \<le> x \<Longrightarrow> x < 2 ^ 31 \<Longrightarrow> sint (word_of_int x :: u32) = x"
  by (simp add: signed_of_int signed_take_bit_int_eq_self)

lemma as_int32_small: "0 \<le> x \<Longrightarrow> x < 2 ^ 31 \<Longrightarrow> as_int32 x = x"
  by (simp add: as_int32_def sint_int32)

lemma length_fill_array: "n \<le> m \<Longrightarrow> xs = fill_array m (take n xs) \<Longrightarrow> length xs = m"
  by (drule arg_cong [of _ _ length]) (auto simp: fill_array_def split: if_splits)

lemma length_put_le32 [simp]: "length (put_unaligned_le32 w) = 4"
  by (simp add: put_unaligned_le32_def)

lemma wlog_rec_fields:
  assumes "wlog_ok r" "sizeof_wlog_rec_disk \<le> length buf"
  obtains word4 word5 extra0 extra2 where
    "wlog_rec_pack r buf True = put_unaligned_le32 (word_of_int (w_offset r)) @ extra0 @
       put_unaligned_le32 (word_of_int (w_nbytes r)) @ put_unaligned_le32 (word_of_int (w_oflags r)) @
       put_unaligned_le32 word4 @ put_unaligned_le32 word5 @ extra2 @
       take (nat (w_pathlen r)) (w_path r) @ take (nat (w_hostlen r)) (w_host r) @ take (nat (w_patternlen r)) (w_pattern r)"
    "length extra0 = 4" "length extra2 = 4"
    "uint (get_bits 0 17 word4) = w_pid r" "unat (get_bits 17 7 word4) = nat (w_pathlen r)"
    "unat (get_bits 24 6 word4) = nat (w_patternlen r)" "unat (get_bits 0 4 word5) = nat (w_hostlen r)"
    "uint (get_bits 4 1 word5) = w_done r" "uint (get_bits 5 1 word5) = w_async r"
proof -
  let ?path = "field_len 7 (w_pathlen r)" and ?host = "field_len 4 (w_hostlen r)" and ?patn = "field_len 6 (w_patternlen r)"
  let ?w4 = "put_bits 24 6 ?patn (put_bits 17 7 ?path
                   (put_bits 0 17 (word_of_int (w_pid r)) (get_unaligned_le32 (slice buf 16 4))))"
  let ?w5 = "put_bits 5 1 (word_of_int (w_async r)) (put_bits 4 1 (word_of_int (w_done r))
                   (put_bits 0 4 ?host (get_unaligned_le32 (slice buf 20 4))))"
  have lens: "unat ?path = nat (w_pathlen r)" "unat ?host = nat (w_hostlen r)" "unat ?patn = nat (w_patternlen r)"
    using assms(1) by (auto simp: wlog_ok_def wlog_maxima unat_field_len)
  have "uint (take_bit 17 (word_of_int (w_pid r) :: u32)) = w_pid r" "uint (take_bit 1 (word_of_int (w_done r) :: u32)) = w_done r"
    "uint (take_bit 1 (word_of_int (w_async r) :: u32)) = w_async r"
    using assms(1) by (auto simp: wlog_ok_def unat_field)
  then show ?thesis
    using lens assms(2)
    by (intro that [of "slice buf 4 4" ?w4 ?w5 "slice buf 24 4"])
      (simp_all add: sizeof_wlog_rec_disk_def wlog_rec_pack_def Let_def get_put_bits get_put_bits_other take_bit_field_len)
qed

lemma unpack_pack:
  assumes "wlog_ok r" "sizeof_wlog_rec_disk \<le> length buf"
  shows "wlog_rec_unpack (wlog_rec_pack r buf True @ rest) = r"
proof -
  obtain word4 word5 extra0 extra2 where pack: "wlog_rec_pack r buf True = put_unaligned_le32 (word_of_int (w_offset r)) @ extra0 @
       put_unaligned_le32 (word_of_int (w_nbytes r)) @ put_unaligned_le32 (word_of_int (w_oflags r)) @
       put_unaligned_le32 word4 @ put_unaligned_le32 word5 @ extra2 @
       take (nat (w_pathlen r)) (w_path r) @ take (nat (w_hostlen r)) (w_host r) @ take (nat (w_patternlen r)) (w_pattern r)"
    and extra: "length extra0 = 4" "length extra2 = 4"
    and fields: "uint (get_bits 0 17 word4) = w_pid r" "unat (get_bits 17 7 word4) = nat (w_pathlen r)"
    "unat (get_bits 24 6 word4) = nat (w_patternlen r)" "unat (get_bits 0 4 word5) = nat (w_hostlen r)"
    "uint (get_bits 4 1 word5) = w_done r" "uint (get_bits 5 1 word5) = w_async r"
    by (rule wlog_rec_fields [OF assms])
  let ?buf = "wlog_rec_pack r buf True @ rest"
  have lens: "length (w_path r) = 129" "length (w_host r) = 9" "length (w_pattern r) = 65"
    "nat (w_pathlen r) \<le> 129" "nat (w_hostlen r) \<le> 9" "nat (w_patternlen r) \<le> 65"
    using assms(1) length_fill_array [of "nat (w_pathlen r)" 129 "w_path r"] length_fill_array [of "nat (w_hostlen r)" 9 "w_host r"]
      length_fill_array [of "nat (w_patternlen r)" 65 "w_pattern r"]
    by (auto simp: wlog_ok_def wlog_maxima)
  have words: "slice ?buf 0 4 = put_unaligned_le32 (word_of_int (w_offset r))"
    "slice ?buf 8 4 = put_unaligned_le32 (word_of_int (w_nbytes r))"
    "slice ?buf 12 4 = put_unaligned_le32 (word_of_int (w_oflags r))"
    "slice ?buf 16 4 = put_unaligned_le32 word4" "slice ?buf 20 4 = put_unaligned_le32 word5"
    using extra by (simp_all add: pack slice_def)
  have strings: "slice ?buf 28 (nat (w_pathlen r)) = take (nat (w_pathlen r)) (w_path r)"
    "slice ?buf (28 + nat (w_pathlen r)) (nat (w_hostlen r)) = take (nat (w_hostlen r)) (w_host r)"
    "slice ?buf (28 + nat (w_pathlen r) + nat (w_hostlen r)) (nat (w_patternlen r)) = take (nat (w_patternlen r)) (w_pattern r)"
    using extra lens by (simp_all add: pack slice_def)
  show ?thesis
    unfolding wlog_rec_unpack_def sizeof_wlog_rec_disk_def Let_def words get_put_le32 fields strings
    using assms(1) by (cases r) (simp add: wlog_ok_def sint_int32)
qed

section \<open>The scan finds the records\<close>

text \<open>What is appended for a record that is packed in a buffer: the record and its length.\<close>

definition wlog_entry :: "wlog_rec \<times> bytes \<Rightarrow> bytes" where
  "wlog_entry e = (let packed = wlog_rec_pack (fst e) (snd e) True
                  in packed @ [of_nat (length packed div 256), of_nat (length packed mod 256)])"

lemma length_wlog_rec_pack:
  assumes "wlog_ok r" "sizeof_wlog_rec_disk \<le> length buf"
  shows "length (wlog_rec_pack r buf True) \<le> sizeof_wlog_rec_disk + nat (w_pathlen r) + nat (w_hostlen r) + nat (w_patternlen r)"
  by (rule wlog_rec_fields [OF assms]) (simp add: sizeof_wlog_rec_disk_def add_mono)

definition entry_ok :: "wlog_rec \<times> bytes \<Rightarrow> bool" where
  "entry_ok e \<longleftrightarrow> wlog_ok (fst e) \<and> sizeof_wlog_rec_disk \<le> length (snd e)"

lemma wlog_entry_form:
  assumes "entry_ok e"
  obtains packed where "wlog_entry e = packed @ [0, of_nat (length packed)]" "length packed < 256"
    "packed = wlog_rec_pack (fst e) (snd e) True" "\<And>rest. wlog_rec_unpack (packed @ rest) = fst e"
proof -
  let ?packed = "wlog_rec_pack (fst e) (snd e) True"
  have ok: "wlog_ok (fst e)" "sizeof_wlog_rec_disk \<le> length (snd e)" using assms by (simp_all add: entry_ok_def)
  then have "length ?packed < 256"
    using length_wlog_rec_pack [OF ok] by (auto simp: wlog_ok_def wlog_maxima sizeof_wlog_rec_disk_def)
  then show ?thesis using that unpack_pack [OF ok] by (simp add: wlog_entry_def Let_def)
qed

lemma length_wlog_entry: "entry_ok e \<Longrightarrow> length (wlog_entry e) < 258"
  by (rule wlog_entry_form) auto

lemma unat_length_byte: "n < 256 \<Longrightarrow> unat (of_nat n :: u8) = n"
  by (simp add: unsigned_of_nat take_bit_nat_eq_self)

definition run_records :: "(wlog_rec \<Rightarrow> 's \<Rightarrow> bool \<times> 's) \<Rightarrow> wlog_rec list \<Rightarrow> 's \<Rightarrow> 's" where
  "run_records func rs s = fold (\<lambda>r s. snd (func r s)) rs s"

text \<open>
  The inner loop on a buffer whose bytes from \<open>bufstart\<close> to \<open>cp\<close> are the end of a sequence of entries:
  it takes complete entries from the end, as many as are wanted and present.
\<close>

definition taken :: "(wlog_rec \<Rightarrow> 's \<Rightarrow> bool \<times> 's) \<Rightarrow> nat \<Rightarrow> nat \<Rightarrow> 's \<Rightarrow> bytes \<Rightarrow> (wlog_rec \<times> bytes) list \<Rightarrow>
    scan_error + (nat \<times> bytes) \<times> bytes \<times> nat \<times> 's \<Rightarrow> bool" where
  "taken func nrecs recnum s pre es res \<longleftrightarrow>
     (\<exists>es1 es2 l buf albuf. es = es1 @ es2 \<and>
        res = Inr ((l, buf), albuf, recnum + length es2, run_records func (rev (map fst es2)) s) \<and>
        length albuf \<ge> 256 \<and> (nrecs \<noteq> 0 \<and> recnum + length es2 = nrecs \<or>
         (nrecs = 0 \<or> recnum + length es2 < nrecs) \<and> length buf = BUFSIZE \<and> l \<le> BUFSIZE \<and> l < 258 \<and>
         pre @ drop (BUFSIZE - l) buf = concat (map wlog_entry es1) \<and> (es1 \<noteq> [] \<longrightarrow> l < length (wlog_entry (last es1)))))"

lemma keep_leftover_region:
  assumes "length buf = BUFSIZE" "bufstart \<le> cp" "cp \<le> BUFSIZE" "keep_leftover bufstart buf cp = (l, buf')"
  shows "l = cp - bufstart" "length buf' = BUFSIZE" "drop (BUFSIZE - l) buf' = slice buf bufstart (cp - bufstart)"
  using assms by (auto simp: keep_leftover_def put_at_def slice_def)

lemma taken_none:
  assumes "length buf = BUFSIZE" "bufstart \<le> cp" "cp \<le> BUFSIZE" "nrecs = 0 \<or> recnum < nrecs"
    and "pre @ slice buf bufstart (cp - bufstart) = concat (map wlog_entry es)" "cp - bufstart < 258"
    and "es \<noteq> [] \<longrightarrow> cp - bufstart < length (wlog_entry (last es))" "length albuf \<ge> 256"
  shows "taken func nrecs recnum s pre es (Inr (keep_leftover bufstart buf cp, albuf, recnum, s))"
proof -
  obtain l buf' where k: "keep_leftover bufstart buf cp = (l, buf')" by (cases "keep_leftover bufstart buf cp")
  note r = keep_leftover_region [OF assms(1-3) k]
  show ?thesis unfolding taken_def k
    by (rule exI [of _ es], rule exI [of _ "[]"], rule exI [of _ l], rule exI [of _ buf'], rule exI [of _ albuf])
      (use r assms(3-8) le_trans [of "cp - bufstart" cp BUFSIZE] in \<open>simp add: run_records_def\<close>)
qed

lemma taken_more:
  assumes "taken func nrecs (recnum + 1) (snd (func (fst e) s)) pre es res"
  shows "taken func nrecs recnum s pre (es @ [e]) res"
  using assms unfolding taken_def
proof (elim exE conjE)
  fix es1 es2 l buf albuf
  assume t: "es = es1 @ es2"
    "res = Inr ((l, buf), albuf, recnum + 1 + length es2, run_records func (rev (map fst es2)) (snd (func (fst e) s)))"
    "length albuf \<ge> 256" "nrecs \<noteq> 0 \<and> recnum + 1 + length es2 = nrecs \<or>
         (nrecs = 0 \<or> recnum + 1 + length es2 < nrecs) \<and> length buf = BUFSIZE \<and> l \<le> BUFSIZE \<and> l < 258 \<and>
         pre @ drop (BUFSIZE - l) buf = concat (map wlog_entry es1) \<and> (es1 \<noteq> [] \<longrightarrow> l < length (wlog_entry (last es1)))"
  show "\<exists>es1 es2 l buf albuf. es @ [e] = es1 @ es2 \<and>
        res = Inr ((l, buf), albuf, recnum + length es2, run_records func (rev (map fst es2)) s) \<and>
        length albuf \<ge> 256 \<and> (nrecs \<noteq> 0 \<and> recnum + length es2 = nrecs \<or>
         (nrecs = 0 \<or> recnum + length es2 < nrecs) \<and> length buf = BUFSIZE \<and> l \<le> BUFSIZE \<and> l < 258 \<and>
         pre @ drop (BUFSIZE - l) buf = concat (map wlog_entry es1) \<and> (es1 \<noteq> [] \<longrightarrow> l < length (wlog_entry (last es1))))"
    by (rule exI [of _ es1], rule exI [of _ "es2 @ [e]"], rule exI [of _ l], rule exI [of _ buf], rule exI [of _ albuf])
      (use t in \<open>simp add: run_records_def\<close>)
qed

lemma slice_split: "a \<le> b \<Longrightarrow> b \<le> c \<Longrightarrow> slice buf a (c - a) = slice buf a (b - a) @ slice buf b (c - b)"
  unfolding slice_def using take_add [of "b - a" "c - b" "drop a buf"] by simp

text \<open>The end of a region that extends over the end of a list is the end of that list.\<close>

lemma region_end:
  assumes "pre @ slice buf a (c - a) = xs @ ys" "a + length ys \<le> c" "c \<le> length buf"
  shows "slice buf (c - length ys) (length ys) = ys" "pre @ slice buf a (c - length ys - a) = xs"
proof -
  let ?b = "c - length ys"
  have "slice buf a (c - a) = slice buf a (?b - a) @ slice buf ?b (c - ?b)" using assms(2) by (intro slice_split) auto
  moreover have b: "c - ?b = length ys" using assms(2) by simp
  moreover have "length (slice buf ?b (length ys)) = length ys" using assms(2,3) by (intro length_slice) auto
  ultimately show "slice buf ?b (length ys) = ys" "pre @ slice buf a (c - length ys - a) = xs"
    using assms(1) by (simp_all add: append_eq_append_conv flip: append_assoc)
qed

lemma slice_last_two: "2 \<le> c \<Longrightarrow> c \<le> length buf \<Longrightarrow> slice buf (c - 2) 2 = [x, y] \<Longrightarrow> buf ! (c - 2) = x \<and> buf ! (c - 1) = y"
proof -
  assume c: "2 \<le> c" "c \<le> length buf" and eq: "slice buf (c - 2) 2 = [x, y]"
  have "slice buf (c - 2) 2 ! i = buf ! (c - 2 + i)" if "i < 2" for i using that c by (simp add: slice_def)
  moreover have "Suc (c - 2) = c - 1" using c(1) by simp
  ultimately show ?thesis unfolding eq by (metis One_nat_def Suc_1 add.right_neutral add_Suc_right lessI nth_Cons_0 nth_Cons_Suc zero_less_Suc)
qed

lemma scan_records_taken:
  assumes "\<forall>r s. fst (func r s)" "length buf = BUFSIZE" "length albuf \<ge> 256"
    and "bufstart \<le> cp" "cp \<le> BUFSIZE" "nrecs = 0 \<or> recnum < nrecs"
    and "pre @ slice buf bufstart (cp - bufstart) = concat (map wlog_entry es)" "\<forall>e \<in> set es. entry_ok e"
  shows "taken func nrecs recnum s pre es (scan_records func nrecs bufstart buf cp albuf recnum s)"
  using assms(3-)
proof (induction es arbitrary: cp albuf recnum s rule: rev_induct)
  case Nil
  then have "slice buf bufstart (cp - bufstart) = []" by simp
  then have "cp = bufstart" using Nil.prems(2,3) assms(2) by (auto simp: slice_def)
  then show ?case using taken_none [OF assms(2) Nil.prems(2-5)] Nil.prems(1) by (subst scan_records.simps) simp
next
  case (snoc e es)
  let ?D = "slice buf bufstart (cp - bufstart)"
  obtain packed where packed: "wlog_entry e = packed @ [0, of_nat (length packed)]" "length packed < 256"
    "\<And>rest. wlog_rec_unpack (packed @ rest) = fst e"
    using wlog_entry_form [of e] snoc.prems(6) by auto
  have D: "pre @ ?D = concat (map wlog_entry es) @ packed @ [0, of_nat (length packed)]" using snoc.prems(5) packed(1) by simp
  have lenD: "length ?D = cp - bufstart" using assms(2) snoc.prems(3) by (simp add: slice_def)
  have last: "buf ! (cp - 2) = 0 \<and> buf ! (cp - 1) = of_nat (length packed)" if "bufstart + 2 \<le> cp"
  proof (rule slice_last_two)
    show "slice buf (cp - 2) 2 = [0, of_nat (length packed)]"
      using region_end(1) [of pre buf bufstart cp "concat (map wlog_entry es) @ packed" "[0, of_nat (length packed)]"] D that
        assms(2) snoc.prems(3) by (simp add: numeral_2_eq_2)
  qed (use that assms(2) snoc.prems(3) in auto)
  have reclen: "unat (buf ! (cp - 2)) * 256 + unat (buf ! (cp - 1)) = length packed" if "bufstart + 2 \<le> cp"
    using last [OF that] unat_length_byte [OF packed(2)] by simp
  show ?case
  proof (cases "cp - bufstart < length packed + 2")
    case True
    then have "taken func nrecs recnum s pre (es @ [e]) (Inr (keep_leftover bufstart buf cp, albuf, recnum, s))"
      using taken_none [OF assms(2) snoc.prems(2-5)] snoc.prems(1) packed(1,2) by simp
    then show ?thesis
      using reclen True by (subst scan_records.simps) (cases "cp < bufstart + 2", simp_all add: Let_def)
  next
    case False
    let ?cp = "cp - length (wlog_entry e)"
    have len: "length (wlog_entry e) = length packed + 2" "bufstart + length (wlog_entry e) \<le> cp"
      using False snoc.prems(2) by (simp_all add: packed(1))
    note ends = region_end [of pre buf bufstart cp "concat (map wlog_entry es)" "wlog_entry e"]
    have whole: "slice buf ?cp (length (wlog_entry e)) = wlog_entry e" "pre @ slice buf bufstart (?cp - bufstart) = concat (map wlog_entry es)"
      using ends D len(2) snoc.prems(3) assms(2) by (simp_all add: packed(1))
    have rec: "slice buf ?cp (length packed) = packed"
      using arg_cong [OF whole(1), of "take (length packed)"] len(1) by (simp add: slice_def packed(1))
    let ?al = "put_at albuf 0 packed"
    have al: "wlog_rec_unpack ?al = fst e" "length ?al \<ge> 256"
      using packed(2,3) snoc.prems(1) by (simp_all add: put_at_def)
    have step: "scan_records func nrecs bufstart buf cp albuf recnum s =
      (if nrecs \<noteq> 0 \<and> recnum + 1 \<ge> nrecs then Inr ((0, buf), ?al, recnum + 1, snd (func (fst e) s))
       else scan_records func nrecs bufstart buf ?cp ?al (recnum + 1) (snd (func (fst e) s)))"
    proof -
      have go: "bufstart + 2 \<le> cp" "\<not> cp - bufstart < length packed + 2" "\<not> length packed > WLOG_REC_MAX_SIZE"
        using len packed(2) by (auto simp: WLOG_REC_MAX_SIZE_def wlog_maxima)
      obtain s' where s': "func (fst e) s = (True, s')" using assms(1) by (metis prod.collapse)
      show ?thesis
        unfolding scan_records.simps [of func nrecs bufstart buf cp] Let_def reclen [OF go(1)]
        unfolding len(1) [symmetric] rec al(1) s' using go by (simp add: len(1))
    qed
    show ?thesis
    proof (cases "nrecs \<noteq> 0 \<and> recnum + 1 \<ge> nrecs")
      case True
      then show ?thesis unfolding step taken_def using snoc.prems(4) al(2)
        by (intro exI [of _ es] exI [of _ "[e]"]) (simp add: run_records_def)
    next
      case False
      then have "taken func nrecs (recnum + 1) (snd (func (fst e) s)) pre es
        (scan_records func nrecs bufstart buf ?cp ?al (recnum + 1) (snd (func (fst e) s)))"
        using snoc.IH [OF al(2), of ?cp "recnum + 1"] whole(2) len snoc.prems by auto
      then show ?thesis unfolding step if_not_P [OF False] by (rule taken_more)
    qed
  qed
qed

text \<open>What the write log relies on: appended bytes end up at the end of the file, and reads deliver it.\<close>

definition log_sys_ok :: "'f log_sys \<Rightarrow> ('f \<Rightarrow> bytes) \<Rightarrow> bool" where
  "log_sys_ok sys contents \<longleftrightarrow>
     (\<forall>f xs. contents (log_append sys f xs) = contents f @ xs) \<and> (\<forall>f. log_end sys f = length (contents f)) \<and>
     (\<forall>f off xs. off + length xs \<le> length (contents f) \<longrightarrow> contents (log_pwrite sys f off xs) = put_at (contents f) off xs) \<and>
     (\<forall>f off n. off + n \<le> length (contents f) \<longrightarrow> log_pread sys f off n = Some (slice (contents f) off n))"

definition wanted :: "nat \<Rightarrow> 'a list \<Rightarrow> 'a list" where
  "wanted nrecs xs = (if nrecs = 0 then xs else take nrecs xs)"

lemma run_records_append: "run_records func (xs @ ys) s = run_records func ys (run_records func xs s)"
  by (simp add: run_records_def)

lemma concat_entries_empty: "concat (map wlog_entry es) = [] \<longleftrightarrow> es = []"
  by (cases es) (auto simp: wlog_entry_def Let_def)

lemma scan_loop_records:
  assumes "log_sys_ok sys contents" "\<forall>r s. fst (func r s)" "\<forall>e \<in> set es. entry_ok e"
    and "length buf = BUFSIZE" "length albuf \<ge> 256" "l < 258" "offset \<le> length (contents f)"
    and "take offset (contents f) @ drop (BUFSIZE - l) buf = concat (map wlog_entry es)"
    and "offset = 0 \<longrightarrow> es = []" "nrecs = 0 \<or> recnum \<le> nrecs"
  shows "scan_loop sys func nrecs f offset l buf albuf recnum s =
    Some (Inr (run_records func (if nrecs = 0 then rev (map fst es) else take (nrecs - recnum) (rev (map fst es))) s))"
  using assms(3-)
proof (induction offset arbitrary: es l buf albuf recnum s rule: less_induct)
  case (less offset)
  show ?case
  proof (cases "(nrecs = 0 \<or> recnum < nrecs) \<and> offset > 0")
    case False
    then have "nrecs \<noteq> 0 \<and> recnum = nrecs \<or> es = []" using less.prems(7,8) by auto
    then show ?thesis using False by (subst scan_loop.simps) (auto simp: run_records_def)
  next
    case True
    define bs off where "bs = (if offset + l < BUFSIZE then BUFSIZE - (offset + l) else 0)"
      and "off = (if offset + l < BUFSIZE then 0 else offset - (BUFSIZE - l))"
    have sizes: "off < offset" "bs + (offset - off) + l = BUFSIZE" "BUFSIZE - bs - l = offset - off"
      using True less.prems(4) by (auto simp: bs_def off_def BUFSIZE_def)
    have read: "log_pread sys f off (offset - off) = Some (slice (contents f) off (offset - off))"
      using assms(1) less.prems(5) sizes(1) by (simp add: log_sys_ok_def)
    let ?data = "slice (contents f) off (offset - off)"
    let ?buf = "put_at buf bs ?data"
    have len: "length ?data = offset - off" using less.prems(5) sizes(1) by (intro length_slice) auto
    have at: "bs + (offset - off) = BUFSIZE - l" "bs \<le> BUFSIZE" using sizes(2) by simp_all
    have buf: "length ?buf = BUFSIZE" "slice ?buf bs (BUFSIZE - bs) = ?data @ drop (BUFSIZE - l) buf"
      using at sizes(2) len less.prems(2) by (simp_all add: put_at_def slice_def)
    have "take off (contents f) @ ?data = take offset (contents f)"
      using sizes(1) less.prems(5) by (simp add: slice_def flip: take_add)
    then have all: "take off (contents f) @ slice ?buf bs (BUFSIZE - bs) = concat (map wlog_entry es)"
      using less.prems(6) buf(2) by (metis append_assoc)
    have "taken func nrecs recnum s (take off (contents f)) es (scan_records func nrecs bs ?buf BUFSIZE albuf recnum s)"
      using sizes(2) True by (intro scan_records_taken [OF assms(2) buf(1) less.prems(3)] all less.prems(1)) auto
    then obtain es1 es2 l' buf' albuf' where es: "es = es1 @ es2"
      and res: "scan_records func nrecs bs ?buf BUFSIZE albuf recnum s =
        Inr ((l', buf'), albuf', recnum + length es2, run_records func (rev (map fst es2)) s)"
      and al: "length albuf' \<ge> 256"
      and more: "nrecs \<noteq> 0 \<and> recnum + length es2 = nrecs \<or>
         (nrecs = 0 \<or> recnum + length es2 < nrecs) \<and> length buf' = BUFSIZE \<and> l' \<le> BUFSIZE \<and> l' < 258 \<and>
         take off (contents f) @ drop (BUFSIZE - l') buf' = concat (map wlog_entry es1) \<and>
         (es1 \<noteq> [] \<longrightarrow> l' < length (wlog_entry (last es1)))"
      unfolding taken_def by blast
    have step: "scan_loop sys func nrecs f offset l buf albuf recnum s =
      scan_loop sys func nrecs f off l' buf' albuf' (recnum + length es2) (run_records func (rev (map fst es2)) s)"
    proof -
      have pair: "(if offset + l < BUFSIZE then (BUFSIZE - (offset + l), 0) else (0, offset - (BUFSIZE - l))) = (bs, off)"
        by (simp add: bs_def off_def)
      show ?thesis
        unfolding scan_loop.simps [of sys func nrecs f offset] pair using True read res sizes(3) by (simp add: Let_def)
    qed
    have rev: "rev (map fst es) = rev (map fst es2) @ rev (map fst es1)" by (simp add: es)
    show ?thesis
    proof (cases "nrecs \<noteq> 0 \<and> recnum + length es2 = nrecs")
      case reached: True
      then have "scan_loop sys func nrecs f off l' buf' albuf' (recnum + length es2) (run_records func (rev (map fst es2)) s) =
          Some (Inr (run_records func (rev (map fst es2)) s))"
        by (subst scan_loop.simps) simp
      moreover have "nrecs - recnum = length es2" using reached by linarith
      ultimately show ?thesis unfolding step rev using reached by simp
    next
      case False
      then have left: "nrecs = 0 \<or> recnum + length es2 < nrecs" "length buf' = BUFSIZE" "l' \<le> BUFSIZE" "l' < 258"
        "take off (contents f) @ drop (BUFSIZE - l') buf' = concat (map wlog_entry es1)"
        "es1 \<noteq> [] \<longrightarrow> l' < length (wlog_entry (last es1))" using more by blast+
      have "es1 = []" if "off = 0"
      proof (rule ccontr)
        assume "es1 \<noteq> []"
        then have "concat (map wlog_entry es1) = concat (map wlog_entry (butlast es1)) @ wlog_entry (last es1)"
          by (subst append_butlast_last_id [symmetric]) (simp_all del: append_butlast_last_id)
        moreover have "length (concat (map wlog_entry es1)) = l'" using left(2,3,5) that by (simp flip: left(5))
        ultimately show False using left(6) \<open>es1 \<noteq> []\<close> by simp
      qed
      then have "scan_loop sys func nrecs f off l' buf' albuf' (recnum + length es2) (run_records func (rev (map fst es2)) s) =
        Some (Inr (run_records func (if nrecs = 0 then rev (map fst es1) else take (nrecs - (recnum + length es2)) (rev (map fst es1)))
          (run_records func (rev (map fst es2)) s)))"
        using less.IH [OF sizes(1), of es1 buf' albuf' l' "recnum + length es2"] less.prems(1,5) sizes(1) al left
        by (auto simp: es)
      then show ?thesis unfolding step rev using left(1)
        by (auto simp: run_records_append diff_diff_left)
    qed
  qed
qed

definition append_all :: "'f log_sys \<Rightarrow> (wlog_rec \<times> bytes) list \<Rightarrow> 'f \<Rightarrow> 'f" where
  "append_all sys es f = fold (\<lambda>(r, wbuf) f. snd (wlog_record_write sys wbuf r (- 1) f)) es f"

lemma append_all_contents:
  assumes "log_sys_ok sys contents"
  shows "contents (append_all sys es f) = contents f @ concat (map wlog_entry es)"
  using assms by (induction es arbitrary: f)
    (auto simp: append_all_def wlog_record_write_def wlog_entry_def Let_def log_sys_ok_def split: prod.splits)

text \<open>A file in memory.\<close>

definition mem_log :: "bytes log_sys" where
  "mem_log = \<lparr>log_append = (@), log_end = length, log_pwrite = put_at,
     log_pread = (\<lambda>f off n. Some (slice f off n))\<rparr>"

lemma mem_log_ok: "log_sys_ok mem_log (\<lambda>f. f)"
  by (simp add: log_sys_ok_def mem_log_def)

section \<open>Properties\<close>

text \<open>
  C34. A record whose fields fit their bit fields is unpacked from what \<open>wlog_rec_pack\<close> made of it, whatever the
  buffer held before and whatever follows it, so that the bits no field covers do not matter.
\<close>

theorem wlog_rec_unpack_pack:
  assumes "wlog_ok wrec" "sizeof_wlog_rec_disk \<le> length wbuf"
  shows "wlog_rec_unpack (wlog_rec_pack wrec wbuf True @ rest) = wrec"
  by (rule unpack_pack [OF assms])

definition sample_rec :: wlog_rec where
  "sample_rec = \<lparr>w_pid = 4711, w_offset = 512, w_nbytes = 20, w_oflags = 1025, w_done = 1, w_async = 0,
     w_host = [104, 0, 0, 0, 0, 0, 0, 0, 0], w_hostlen = 1, w_path = fill_array 129 [47, 102], w_pathlen = 2,
     w_pattern = fill_array 65 [42], w_patternlen = 1\<rparr>"

lemma sample_rec_ok: "wlog_ok sample_rec"
  by code_simp

theorem wlog_rec_unpack_pack_witness:
  "wlog_rec_unpack (wlog_rec_pack sample_rec (replicate 28 255) True @ [9, 9]) = sample_rec"
  by (rule wlog_rec_unpack_pack [OF sample_rec_ok]) (simp add: sizeof_wlog_rec_disk_def)

text \<open>
  C33. Records that are appended to an empty log, which stays below two gigabytes, are handed to the function of
  \<open>wlog_scan_backward\<close> from the last to the first, as many as asked for, across the boundaries of the pieces the
  file is read in, and the scan returns.  The fields of the records fit their bits, and the function never asks
  to stop.
\<close>

theorem wlog_scan_visits_records_backward:
  assumes "log_sys_ok sys contents" "contents f = []" "\<forall>e \<in> set es. entry_ok e" "\<forall>r s. fst (func r s)"
    and "length buf = BUFSIZE" "length albuf = WLOG_REC_MAX_SIZE" "length (contents (append_all sys es f)) < 2 ^ 31"
  shows "wlog_scan_backward sys buf albuf (append_all sys es f) nrecs func s =
    Some (Inr (run_records func (wanted nrecs (rev (map fst es))) s))"
proof -
  have c: "contents (append_all sys es f) = concat (map wlog_entry es)"
    using append_all_contents [OF assms(1)] assms(2) by simp
  have "log_end sys (append_all sys es f) = length (concat (map wlog_entry es))" using assms(1) by (simp only: log_sys_ok_def c)
  then have "nat (as_int32 (int (log_end sys (append_all sys es f)))) = length (concat (map wlog_entry es))"
    using assms(7) by (simp add: as_int32_small c)
  then show ?thesis
    unfolding wlog_scan_backward_def
    using scan_loop_records [OF assms(1,4,3,5), of albuf 0 "length (concat (map wlog_entry es))" "append_all sys es f" nrecs 0 s]
      assms(5,6) concat_entries_empty [of es] by (simp add: c wanted_def WLOG_REC_MAX_SIZE_def wlog_maxima)
qed

theorem wlog_scan_visits_records_backward_witness:
  "wlog_scan_backward mem_log (replicate BUFSIZE 0) (replicate WLOG_REC_MAX_SIZE 0)
     (append_all mem_log [(sample_rec, replicate 28 0), (sample_rec\<lparr>w_offset := 7\<rparr>, replicate 28 255)] [])
     0 (\<lambda>r s. (True, s @ [w_offset r])) [] = Some (Inr [7, 512])"
proof -
  have ok: "wlog_ok (sample_rec\<lparr>w_offset := 7\<rparr>)" using sample_rec_ok by (simp add: wlog_ok_def)
  let ?es = "[(sample_rec, replicate 28 0), (sample_rec\<lparr>w_offset := 7\<rparr>, replicate 28 255)]"
  have es: "\<forall>e \<in> set ?es. entry_ok e" using sample_rec_ok ok by (simp add: entry_ok_def sizeof_wlog_rec_disk_def)
  then have "length (append_all mem_log ?es []) < 2 ^ 31"
    using append_all_contents [OF mem_log_ok, of ?es "[]"] length_wlog_entry [of "?es ! 0"] length_wlog_entry [of "?es ! 1"] by simp
  then show ?thesis
    using wlog_scan_visits_records_backward [OF mem_log_ok refl es, of "\<lambda>r s. (True, s @ [w_offset r])"
      "replicate BUFSIZE 0" "replicate WLOG_REC_MAX_SIZE 0" 0 "[]"] by (simp add: run_records_def wanted_def sample_rec_def)
qed

end
