(* ===== verification/MD5.thy ===== *)
theory MD5
  imports Bytes
begin

text \<open>
  The MD5 digest of \<open>src/src/md5.c\<close>, with which \<open>src/src/fssum.c\<close> compares directory trees when it is
  built without OpenSSL: the streaming interface \<open>MD5_Init\<close>, \<open>MD5_Update\<close>, \<open>MD5_Final\<close> on a context
  that buffers incomplete blocks, and RFC 1321 as the reference.
\<close>

section \<open>The transformation of a block\<close>

definition MD5_F :: "u32 \<Rightarrow> u32 \<Rightarrow> u32 \<Rightarrow> u32" where
  "MD5_F x y z = z XOR (x AND (y XOR z))"

definition MD5_G :: "u32 \<Rightarrow> u32 \<Rightarrow> u32 \<Rightarrow> u32" where
  "MD5_G x y z = y XOR (z AND (x XOR y))"

definition MD5_H :: "u32 \<Rightarrow> u32 \<Rightarrow> u32 \<Rightarrow> u32" where
  "MD5_H x y z = (x XOR y) XOR z"

definition MD5_H2 :: "u32 \<Rightarrow> u32 \<Rightarrow> u32 \<Rightarrow> u32" where
  "MD5_H2 x y z = x XOR (y XOR z)"

definition MD5_I :: "u32 \<Rightarrow> u32 \<Rightarrow> u32 \<Rightarrow> u32" where
  "MD5_I x y z = y XOR (x OR NOT z)"

definition STEP :: "(u32 \<Rightarrow> u32 \<Rightarrow> u32 \<Rightarrow> u32) \<Rightarrow> u32 \<Rightarrow> u32 \<Rightarrow> u32 \<Rightarrow> u32 \<Rightarrow> u32 \<Rightarrow> u32 \<Rightarrow> nat \<Rightarrow> u32" where
  "STEP f a b c d x t s =
     (let a = a + (f b c d + x + t); a = push_bit s a OR drop_bit (32 - s) (a AND 0xffffffff) in a + b)"

text \<open>
  The 64 lines of steps, with the function, the word of the block, the constant and the rotation of each.
  The registers of a line are those of the line before turned by one, so that a step maps \<open>(a, b, c, d)\<close> to
  \<open>(d, a', b, c)\<close>.
\<close>

definition md5_steps :: "((u32 \<Rightarrow> u32 \<Rightarrow> u32 \<Rightarrow> u32) \<times> nat \<times> u32 \<times> nat) list" where
  "md5_steps = [
    (MD5_F, 0, 0xd76aa478, 7), (MD5_F, 1, 0xe8c7b756, 12),
    (MD5_F, 2, 0x242070db, 17), (MD5_F, 3, 0xc1bdceee, 22),
    (MD5_F, 4, 0xf57c0faf, 7), (MD5_F, 5, 0x4787c62a, 12),
    (MD5_F, 6, 0xa8304613, 17), (MD5_F, 7, 0xfd469501, 22),
    (MD5_F, 8, 0x698098d8, 7), (MD5_F, 9, 0x8b44f7af, 12),
    (MD5_F, 10, 0xffff5bb1, 17), (MD5_F, 11, 0x895cd7be, 22),
    (MD5_F, 12, 0x6b901122, 7), (MD5_F, 13, 0xfd987193, 12),
    (MD5_F, 14, 0xa679438e, 17), (MD5_F, 15, 0x49b40821, 22),
    (MD5_G, 1, 0xf61e2562, 5), (MD5_G, 6, 0xc040b340, 9),
    (MD5_G, 11, 0x265e5a51, 14), (MD5_G, 0, 0xe9b6c7aa, 20),
    (MD5_G, 5, 0xd62f105d, 5), (MD5_G, 10, 0x02441453, 9),
    (MD5_G, 15, 0xd8a1e681, 14), (MD5_G, 4, 0xe7d3fbc8, 20),
    (MD5_G, 9, 0x21e1cde6, 5), (MD5_G, 14, 0xc33707d6, 9),
    (MD5_G, 3, 0xf4d50d87, 14), (MD5_G, 8, 0x455a14ed, 20),
    (MD5_G, 13, 0xa9e3e905, 5), (MD5_G, 2, 0xfcefa3f8, 9),
    (MD5_G, 7, 0x676f02d9, 14), (MD5_G, 12, 0x8d2a4c8a, 20),
    (MD5_H, 5, 0xfffa3942, 4), (MD5_H2, 8, 0x8771f681, 11),
    (MD5_H, 11, 0x6d9d6122, 16), (MD5_H2, 14, 0xfde5380c, 23),
    (MD5_H, 1, 0xa4beea44, 4), (MD5_H2, 4, 0x4bdecfa9, 11),
    (MD5_H, 7, 0xf6bb4b60, 16), (MD5_H2, 10, 0xbebfbc70, 23),
    (MD5_H, 13, 0x289b7ec6, 4), (MD5_H2, 0, 0xeaa127fa, 11),
    (MD5_H, 3, 0xd4ef3085, 16), (MD5_H2, 6, 0x04881d05, 23),
    (MD5_H, 9, 0xd9d4d039, 4), (MD5_H2, 12, 0xe6db99e5, 11),
    (MD5_H, 15, 0x1fa27cf8, 16), (MD5_H2, 2, 0xc4ac5665, 23),
    (MD5_I, 0, 0xf4292244, 6), (MD5_I, 7, 0x432aff97, 10),
    (MD5_I, 14, 0xab9423a7, 15), (MD5_I, 5, 0xfc93a039, 21),
    (MD5_I, 12, 0x655b59c3, 6), (MD5_I, 3, 0x8f0ccc92, 10),
    (MD5_I, 10, 0xffeff47d, 15), (MD5_I, 1, 0x85845dd1, 21),
    (MD5_I, 8, 0x6fa87e4f, 6), (MD5_I, 15, 0xfe2ce6e0, 10),
    (MD5_I, 6, 0xa3014314, 15), (MD5_I, 13, 0x4e0811a1, 21),
    (MD5_I, 4, 0xf7537e82, 6), (MD5_I, 11, 0xbd3af235, 10),
    (MD5_I, 2, 0x2ad7d2bb, 15), (MD5_I, 9, 0xeb86d391, 21)]"

type_synonym md5_state = "u32 \<times> u32 \<times> u32 \<times> u32"

definition md5_step :: "bytes \<Rightarrow> (u32 \<Rightarrow> u32 \<Rightarrow> u32 \<Rightarrow> u32) \<times> nat \<times> u32 \<times> nat \<Rightarrow> md5_state \<Rightarrow> md5_state" where
  "md5_step ptr = (\<lambda>(f, n, t, s) (a, b, c, d). (d, STEP f a b c d (get_unaligned_le32 (drop (n * 4) ptr)) t s, b, c))"

definition md5_add :: "md5_state \<Rightarrow> md5_state \<Rightarrow> md5_state" where
  "md5_add = (\<lambda>(a, b, c, d) (a', b', c', d'). (a + a', b + b', c + c', d + d'))"

definition md5_block :: "bytes \<Rightarrow> md5_state \<Rightarrow> md5_state" where
  "md5_block ptr st = md5_add (fold (md5_step ptr) md5_steps st) st"

section \<open>The context\<close>

record md5_ctx =
  md5_lo :: u32
  md5_hi :: u32
  md5_abcd :: md5_state
  md5_buffer :: bytes

text \<open>The loop body runs before the size is tested; the callers pass a positive multiple of 64.\<close>

function md5_body_loop :: "bytes \<Rightarrow> md5_state \<Rightarrow> md5_state" where
  "md5_body_loop ptr st =
     (let st = md5_block (take 64 ptr) st in if length ptr \<le> 64 then st else md5_body_loop (drop 64 ptr) st)"
  by pat_completeness auto
termination
  by (relation "measure (\<lambda>(ptr, st). length ptr)") auto

declare md5_body_loop.simps [simp del]

definition md5_body :: "bytes \<Rightarrow> md5_ctx \<Rightarrow> md5_ctx" where
  "md5_body data ctx = ctx\<lparr>md5_abcd := md5_body_loop data (md5_abcd ctx)\<rparr>"

definition MD5_Init :: "bytes \<Rightarrow> md5_ctx" where
  "MD5_Init junk =
     \<lparr>md5_lo = 0, md5_hi = 0, md5_abcd = (0x67452301, 0xefcdab89, 0x98badcfe, 0x10325476), md5_buffer = junk\<rparr>"

text \<open>The sum of \<open>saved_lo\<close> and the size is computed in 64 bits before it is cut to 29.\<close>

definition MD5_Update :: "bytes \<Rightarrow> md5_ctx \<Rightarrow> md5_ctx" where
  "MD5_Update data ctx =
     (let size = length data;
          saved_lo = md5_lo ctx;
          lo = ucast (((ucast saved_lo + of_nat size) :: u64) AND 0x1fffffff);
          hi = (if lo < saved_lo then md5_hi ctx + 1 else md5_hi ctx);
          hi = hi + ucast (drop_bit 29 (of_nat size :: u64));
          ctx = ctx\<lparr>md5_lo := lo, md5_hi := hi\<rparr>;
          used = unat (saved_lo AND 0x3f);
          available = 64 - used
      in if used \<noteq> 0 \<and> size < available
         then ctx\<lparr>md5_buffer := put_at (md5_buffer ctx) used data\<rparr>
         else
           let (data, ctx) =
                 (if used \<noteq> 0
                  then let buf = put_at (md5_buffer ctx) used (take available data)
                       in (drop available data, md5_body buf (ctx\<lparr>md5_buffer := buf\<rparr>))
                  else (data, ctx));
               (data, ctx) =
                 (if length data \<ge> 64
                  then let n = length data div 64 * 64 in (drop n data, md5_body (take n data) ctx)
                  else (data, ctx))
           in ctx\<lparr>md5_buffer := put_at (md5_buffer ctx) 0 data\<rparr>)"

definition MD5_Final :: "md5_ctx \<Rightarrow> bytes" where
  "MD5_Final ctx =
     (let used = unat (md5_lo ctx AND 0x3f);
          buf = put_at (md5_buffer ctx) used [0x80];
          used = used + 1;
          available = 64 - used;
          (ctx, buf, used, available) =
            (if available < 8
             then let buf = put_at buf used (replicate available 0) in (md5_body buf ctx, buf, 0, 64)
             else (ctx, buf, used, available));
          buf = put_at buf used (replicate (available - 8) 0);
          buf = put_at buf 56 (put_unaligned_le32 (push_bit 3 (md5_lo ctx)));
          buf = put_at buf 60 (put_unaligned_le32 (md5_hi ctx));
          (a, b, c, d) = md5_abcd (md5_body buf ctx)
      in put_unaligned_le32 a @ put_unaligned_le32 b @ put_unaligned_le32 c @ put_unaligned_le32 d)"

section \<open>RFC 1321\<close>

text \<open>
  The reference: the functions as the RFC writes them, the schedule of the words and rotations of each round by
  formula, the message padded as a whole.  The 64 additive constants are a table of their own.
\<close>

definition rfc_fun :: "nat \<Rightarrow> u32 \<Rightarrow> u32 \<Rightarrow> u32 \<Rightarrow> u32" where
  "rfc_fun i x y z =
     (if i < 16 then (x AND y) OR (NOT x AND z)
      else if i < 32 then (x AND z) OR (y AND NOT z)
      else if i < 48 then x XOR y XOR z
      else y XOR (x OR NOT z))"

definition rfc_word :: "nat \<Rightarrow> nat" where
  "rfc_word i = (if i < 16 then i else if i < 32 then (5 * i + 1) mod 16 else if i < 48 then (3 * i + 5) mod 16 else 7 * i mod 16)"

definition rfc_shift :: "nat \<Rightarrow> nat" where
  "rfc_shift i = [[7, 12, 17, 22], [5, 9, 14, 20], [4, 11, 16, 23], [6, 10, 15, 21]] ! (i div 16) ! (i mod 4)"

text \<open>The table \<open>T\<close>: the integer part of \<open>2^32\<close> times the absolute value of the sine of \<open>i + 1\<close>, four entries a row.\<close>

definition rfc_const :: "nat \<Rightarrow> u32" where
  "rfc_const i = [
    [3614090360, 3905402710, 606105819, 3250441966],
    [4118548399, 1200080426, 2821735955, 4249261313],
    [1770035416, 2336552879, 4294925233, 2304563134],
    [1804603682, 4254626195, 2792965006, 1236535329],
    [4129170786, 3225465664, 643717713, 3921069994],
    [3593408605, 38016083, 3634488961, 3889429448],
    [568446438, 3275163606, 4107603335, 1163531501],
    [2850285829, 4243563512, 1735328473, 2368359562],
    [4294588738, 2272392833, 1839030562, 4259657740],
    [2763975236, 1272893353, 4139469664, 3200236656],
    [681279174, 3936430074, 3572445317, 76029189],
    [3654602809, 3873151461, 530742520, 3299628645],
    [4096336452, 1126891415, 2878612391, 4237533241],
    [1700485571, 2399980690, 4293915773, 2240044497],
    [1873313359, 4264355552, 2734768916, 1309151649],
    [4149444226, 3174756917, 718787259, 3951481745]] ! (i div 4) ! (i mod 4)"

definition rfc_step :: "bytes \<Rightarrow> nat \<Rightarrow> md5_state \<Rightarrow> md5_state" where
  "rfc_step X i = (\<lambda>(a, b, c, d).
     (d, b + rol32 (a + rfc_fun i b c d + get_unaligned_le32 (drop (4 * rfc_word i) X) + rfc_const i) (rfc_shift i), b, c))"

definition rfc_block :: "bytes \<Rightarrow> md5_state \<Rightarrow> md5_state" where
  "rfc_block X st = md5_add (fold (rfc_step X) [0..<64] st) st"

function rfc_blocks :: "bytes \<Rightarrow> md5_state \<Rightarrow> md5_state" where
  "rfc_blocks msg st = (if msg = [] then st else rfc_blocks (drop 64 msg) (rfc_block (take 64 msg) st))"
  by pat_completeness auto
termination
  by (relation "measure (\<lambda>(msg, st). length msg)") auto

declare rfc_blocks.simps [simp del]

definition rfc_pad :: "bytes \<Rightarrow> bytes" where
  "rfc_pad msg = msg @ [0x80] @ replicate ((119 - length msg mod 64) mod 64) 0 @ put_unaligned_le64 (of_nat (8 * length msg))"

definition rfc_md5 :: "bytes \<Rightarrow> bytes" where
  "rfc_md5 msg =
     (case rfc_blocks (rfc_pad msg) (0x67452301, 0xefcdab89, 0x98badcfe, 0x10325476) of
        (a, b, c, d) \<Rightarrow> put_unaligned_le32 a @ put_unaligned_le32 b @ put_unaligned_le32 c @ put_unaligned_le32 d)"

section \<open>The steps of the program are those of the RFC\<close>

lemma md5_functions:
  "MD5_F x y z = (x AND y) OR (NOT x AND z)" "MD5_G x y z = (x AND z) OR (y AND NOT z)" "MD5_H x y z = x XOR y XOR z"
  "MD5_H2 x y z = x XOR y XOR z" "MD5_I x y z = y XOR (x OR NOT z)"
  by (rule bit_word_eqI; auto simp: MD5_F_def MD5_G_def MD5_H_def MD5_H2_def MD5_I_def bit_simps)+

lemma all_ones: "(0xffffffff :: u32) = - 1"
  by code_simp

lemma STEP_rol: "s < 32 \<Longrightarrow> STEP f a b c d x t s = b + rol32 (a + f b c d + x + t) s"
  by (simp add: STEP_def rol32_def Let_def add.assoc add.commute [of _ b] all_ones)

lemma length_md5_steps: "length md5_steps = 64"
  by (simp add: md5_steps_def)

lemma md5_steps_rows:
  "map (\<lambda>(f, n, t, s). (n, s)) md5_steps = map (\<lambda>i. (rfc_word i, rfc_shift i)) [0..<64]"
proof -
  have "map (\<lambda>i. (rfc_word i, rfc_shift i)) [0..<64] =
    [(0, 7), (1, 12), (2, 17), (3, 22), (4, 7), (5, 12), (6, 17), (7, 22), (8, 7), (9, 12), (10, 17), (11, 22),
     (12, 7), (13, 12), (14, 17), (15, 22), (1, 5), (6, 9), (11, 14), (0, 20), (5, 5), (10, 9), (15, 14), (4, 20),
     (9, 5), (14, 9), (3, 14), (8, 20), (13, 5), (2, 9), (7, 14), (12, 20), (5, 4), (8, 11), (11, 16), (14, 23),
     (1, 4), (4, 11), (7, 16), (10, 23), (13, 4), (0, 11), (3, 16), (6, 23), (9, 4), (12, 11), (15, 16), (2, 23),
     (0, 6), (7, 10), (14, 15), (5, 21), (12, 6), (3, 10), (10, 15), (1, 21), (8, 6), (15, 10), (6, 15), (13, 21),
     (4, 6), (11, 10), (2, 15), (9, 21)]" by code_simp
  then show ?thesis by (simp add: md5_steps_def)
qed

lemma md5_steps_funs: "map (\<lambda>(f, n, t, s). f) md5_steps = map rfc_fun [0..<64]"
proof -
  have f: "MD5_F = rfc_fun i" if "i < 16" for i using that by (simp add: fun_eq_iff rfc_fun_def md5_functions)
  have g: "MD5_G = rfc_fun (16 + i)" if "i < 16" for i using that by (simp add: fun_eq_iff rfc_fun_def md5_functions)
  have h: "MD5_H = rfc_fun (32 + i)" if "i < 16" for i using that by (simp add: fun_eq_iff rfc_fun_def md5_functions)
  have h2: "MD5_H2 = MD5_H" by (simp add: fun_eq_iff md5_functions)
  have i: "MD5_I = rfc_fun (48 + i)" for i by (simp add: fun_eq_iff rfc_fun_def md5_functions)
  have "[0..<64] = [0..<16] @ map ((+) 16) [0..<16] @ map ((+) 32) [0..<16] @ map ((+) 48) [0..<16]" by code_simp
  then have "map rfc_fun [0..<64] = map (\<lambda>_. MD5_F) [0..<16] @ map (\<lambda>_. MD5_G) [0..<16] @ map (\<lambda>_. MD5_H) [0..<16] @
      map (\<lambda>_. MD5_I) [0..<16]"
    by (simp add: f [symmetric] g [symmetric] h [symmetric] i [symmetric] comp_def)
  moreover have "[0..<16] = [0, 1, 2, 3, 4, 5, 6, 7, 8, 9, 10, 11, 12, 13, 14, 15]" by code_simp
  ultimately show ?thesis by (simp add: md5_steps_def h2)
qed

lemma md5_steps_consts: "map (\<lambda>(f, n, t, s). t) md5_steps = map rfc_const [0..<64]"
  by code_simp

lemma md5_steps_nth:
  assumes "i < 64"
  shows "md5_steps ! i = (rfc_fun i, rfc_word i, rfc_const i, rfc_shift i)"
proof -
  obtain f n t s where l: "md5_steps ! i = (f, n, t, s)" by (cases "md5_steps ! i")
  have "map (\<lambda>(f, n, t, s). f) md5_steps ! i = rfc_fun i" "map (\<lambda>(f, n, t, s). (n, s)) md5_steps ! i = (rfc_word i, rfc_shift i)"
    unfolding md5_steps_funs md5_steps_rows using assms by simp_all
  moreover have "map (\<lambda>(f, n, t, s). t) md5_steps ! i = rfc_const i" unfolding md5_steps_consts using assms by simp
  ultimately show ?thesis using assms l by (simp add: length_md5_steps)
qed

lemma rfc_shift_less: "i < 64 \<Longrightarrow> rfc_shift i < 32"
proof -
  have "\<forall>i \<in> set [0..<64]. rfc_shift i < 32" by code_simp
  then show "i < 64 \<Longrightarrow> rfc_shift i < 32" by simp
qed

lemma md5_block_rfc: "md5_block X st = rfc_block X st"
proof -
  have "map (md5_step X) md5_steps = map (rfc_step X) [0..<64]"
    by (rule nth_equalityI)
      (auto simp: length_md5_steps md5_steps_nth md5_step_def rfc_step_def fun_eq_iff STEP_rol rfc_shift_less mult.commute)
  then have "fold (md5_step X) md5_steps st = fold (rfc_step X) [0..<64] st"
    using fold_map [of id "md5_step X" md5_steps] fold_map [of id "rfc_step X" "[0..<64]"] by simp
  then show ?thesis by (simp add: md5_block_def rfc_block_def)
qed

lemma rfc_blocks_append: "64 dvd length x \<Longrightarrow> rfc_blocks (x @ y) st = rfc_blocks y (rfc_blocks x st)"
proof (induction x st rule: rfc_blocks.induct)
  case (1 x st)
  show ?case
  proof (cases "x = []")
    case True
    then show ?thesis by (simp add: rfc_blocks.simps [of "[]"])
  next
    case False
    then have "64 \<le> length x" using 1(2) by (auto dest: dvd_imp_le)
    then have "take 64 (x @ y) = take 64 x" "drop 64 (x @ y) = drop 64 x @ y" "64 dvd length (drop 64 x)"
      using 1(2) by (auto intro: dvd_diff_nat)
    then show ?thesis using False \<open>64 \<le> length x\<close> 1(1) by (simp add: rfc_blocks.simps [of "x @ y"] rfc_blocks.simps [of x])
  qed
qed

lemma md5_body_rfc: "ptr \<noteq> [] \<Longrightarrow> 64 dvd length ptr \<Longrightarrow> md5_body_loop ptr st = rfc_blocks ptr st"
proof (induction ptr st rule: md5_body_loop.induct)
  case (1 ptr st)
  then have len: "64 \<le> length ptr" by (auto dest: dvd_imp_le)
  show ?case
  proof (cases "length ptr \<le> 64")
    case True
    then have "drop 64 ptr = []" by simp
    then show ?thesis using True 1(2) by (simp add: md5_body_loop.simps [of ptr] rfc_blocks.simps [of ptr] rfc_blocks.simps [of "[]"] md5_block_rfc)
  next
    case False
    then have "64 dvd length (drop 64 ptr)" "drop 64 ptr \<noteq> []" using 1(3) by (auto intro: dvd_diff_nat)
    then show ?thesis using False 1(1) [OF refl] 1(2) by (simp add: md5_body_loop.simps [of ptr] rfc_blocks.simps [of ptr] md5_block_rfc)
  qed
qed

section \<open>The context after a message\<close>

definition md5_holds :: "md5_ctx \<Rightarrow> bytes \<Rightarrow> bool" where
  "md5_holds ctx msg \<longleftrightarrow>
     (let n = length msg; full = n div 64 * 64
      in unat (md5_lo ctx) = n mod 2 ^ 29 \<and> unat (md5_hi ctx) = n div 2 ^ 29 mod 2 ^ 32 \<and>
         length (md5_buffer ctx) = 64 \<and> take (n mod 64) (md5_buffer ctx) = drop full msg \<and>
         md5_abcd ctx = rfc_blocks (take full msg) (0x67452301, 0xefcdab89, 0x98badcfe, 0x10325476))"

lemma md5_holds_init: "length junk = 64 \<Longrightarrow> md5_holds (MD5_Init junk) []"
  by (simp add: md5_holds_def MD5_Init_def rfc_blocks.simps [of "[]"])

lemma low_six: "unat (lo :: u32) = n mod 2 ^ 29 \<Longrightarrow> unat (lo AND 0x3f) = n mod 64"
proof -
  assume lo: "unat lo = n mod 2 ^ 29"
  have "lo AND 0x3f = take_bit 6 lo" by (simp add: take_bit_eq_mask mask_numeral)
  then have "unat (lo AND 0x3f) = unat lo mod 64" by (simp add: take_bit_eq_mod unat_mod)
  then show ?thesis by (simp add: lo mod_mod_cancel)
qed

lemma div_add_carry:
  fixes n m K :: nat
  assumes "0 < K"
  shows "(n + m) div K = n div K + m div K + (if (n + m) mod K < n mod K then 1 else 0)"
proof -
  have r: "n mod K < K" "m mod K < K" using assms by simp_all
  have m: "(n + m) mod K = (n mod K + m mod K) mod K" by (simp add: mod_simps)
  show ?thesis
  proof (cases "n mod K + m mod K < K")
    case True
    then show ?thesis using m r div_add1_eq [of n m K] by simp
  next
    case False
    then have "(n mod K + m mod K) div K = 1" using r add_strict_mono [OF r] by (intro div_nat_eqI) simp_all
    moreover have "n mod K + m mod K - K < K" using add_strict_mono [OF r] False by linarith
    then have "(n mod K + m mod K) mod K = n mod K + m mod K - K" using False r le_mod_geq [of K "n mod K + m mod K"] by simp
    ultimately show ?thesis using m r False div_add1_eq [of n m K] by simp
  qed
qed

lemma count_update:
  fixes lo hi :: u32
  assumes "unat lo = n mod 2 ^ 29" "unat hi = n div 2 ^ 29 mod 2 ^ 32" "m < 2 ^ 64"
  defines "lo' \<equiv> ucast (((ucast lo + of_nat m) :: u64) AND 0x1fffffff) :: u32"
  shows "unat lo' = (n + m) mod 2 ^ 29"
    and "unat ((if lo' < lo then hi + 1 else hi) + ucast (drop_bit 29 (of_nat m :: u64))) = (n + m) div 2 ^ 29 mod 2 ^ 32"
proof -
  have "unat (((ucast lo + of_nat m) :: u64) AND 0x1fffffff) = (unat lo + m) mod 2 ^ 64 mod 2 ^ 29"
  proof -
    have "((ucast lo + of_nat m) :: u64) AND 0x1fffffff = take_bit 29 (ucast lo + of_nat m)"
      by (simp add: take_bit_eq_mask mask_numeral)
    moreover have "unat ((ucast lo + of_nat m) :: u64) = (unat lo + m) mod 2 ^ 64"
      by (simp add: unat_word_ariths unsigned_ucast_eq take_bit_eq_mod unat_of_nat mod_simps)
    ultimately show ?thesis by (simp add: take_bit_eq_mod unat_mod)
  qed
  also have "\<dots> = (n + m) mod 2 ^ 29" by (simp add: mod_mod_cancel assms(1) mod_simps)
  finally have "unat (((ucast lo + of_nat m) :: u64) AND 0x1fffffff) = (n + m) mod 2 ^ 29" .
  then show lo': "unat lo' = (n + m) mod 2 ^ 29" by (simp add: lo'_def unsigned_ucast_eq take_bit_eq_mod)
  have "unat (drop_bit 29 (of_nat m :: u64)) = m div 2 ^ 29"
    using assms(3) by (simp add: drop_bit_eq_div unat_div unat_of_nat)
  then have up: "unat (ucast (drop_bit 29 (of_nat m :: u64)) :: u32) = m div 2 ^ 29 mod 2 ^ 32" by (simp add: unsigned_ucast_eq take_bit_eq_mod)
  have "lo' < lo \<longleftrightarrow> (n + m) mod 2 ^ 29 < n mod 2 ^ 29" by (simp add: word_less_nat_alt lo' assms(1))
  then show "unat ((if lo' < lo then hi + 1 else hi) + ucast (drop_bit 29 (of_nat m :: u64))) = (n + m) div 2 ^ 29 mod 2 ^ 32"
    using div_add_carry [of "2 ^ 29" n m] up assms(2) by (simp add: unat_word_ariths mod_simps)
qed

abbreviation md5_start :: md5_state where
  "md5_start \<equiv> (0x67452301, 0xefcdab89, 0x98badcfe, 0x10325476)"

lemma rfc_blocks_Nil [simp]: "rfc_blocks [] st = st"
  by (simp add: rfc_blocks.simps [of "[]"])

lemma md5_holdsI:
  assumes "length msg = 64 * q + u" "u < 64"
    and "unat (md5_lo ctx) = length msg mod 2 ^ 29" "unat (md5_hi ctx) = length msg div 2 ^ 29 mod 2 ^ 32"
    and "length (md5_buffer ctx) = 64" "take u (md5_buffer ctx) = drop (64 * q) msg"
    and "md5_abcd ctx = rfc_blocks (take (64 * q) msg) md5_start"
  shows "md5_holds ctx msg"
proof -
  have "length msg mod 64 = u" "length msg div 64 * 64 = 64 * q" using assms(1,2) by simp_all
  then show ?thesis unfolding md5_holds_def Let_def using assms(3-7) by (simp only:)
qed

text \<open>The second half of \<open>MD5_Update\<close>, which starts on a block boundary.\<close>

definition update_blocks :: "bytes \<Rightarrow> md5_ctx \<Rightarrow> md5_ctx" where
  "update_blocks data ctx =
     (let (data, ctx) =
        (if length data \<ge> 64 then let n = length data div 64 * 64 in (drop n data, md5_body (take n data) ctx) else (data, ctx))
      in ctx\<lparr>md5_buffer := put_at (md5_buffer ctx) 0 data\<rparr>)"

lemma update_blocks_holds:
  assumes "64 dvd length msg" "md5_abcd ctx = rfc_blocks msg md5_start" "length (md5_buffer ctx) = 64"
    and "unat (md5_lo ctx) = length (msg @ data) mod 2 ^ 29" "unat (md5_hi ctx) = length (msg @ data) div 2 ^ 29 mod 2 ^ 32"
  shows "md5_holds (update_blocks data ctx) (msg @ data)"
proof -
  let ?n = "length data div 64 * 64" and ?res = "update_blocks data ctx"
  have rest: "length (drop ?n data) = length data mod 64" by (simp add: minus_div_mult_eq_mod)
  have body: "md5_body_loop (take ?n data) st = rfc_blocks (take ?n data) st" if "length data \<ge> 64" for st
  proof (rule md5_body_rfc)
    have "1 \<le> length data div 64" using that by (simp add: Suc_le_eq div_greater_zero_iff)
    then show "take ?n data \<noteq> []" using that by auto
    have "length (take ?n data) = ?n" by simp
    then show "64 dvd length (take ?n data)" by (simp only: dvd_triv_right)
  qed
  have "md5_abcd ?res = rfc_blocks (msg @ take ?n data) md5_start"
  proof (cases "length data \<ge> 64")
    case True
    then show ?thesis using assms(1,2) body by (simp add: update_blocks_def md5_body_def Let_def rfc_blocks_append)
  next
    case False
    then show ?thesis using assms(1,2) by (simp add: update_blocks_def Let_def)
  qed
  moreover have "length (md5_buffer ?res) = 64" "take (length data mod 64) (md5_buffer ?res) = drop ?n data"
    using assms(3) rest by (auto simp: update_blocks_def md5_body_def Let_def put_at_def split: if_splits)
  moreover have "md5_lo ?res = md5_lo ctx" "md5_hi ?res = md5_hi ctx" by (simp_all add: update_blocks_def md5_body_def Let_def)
  moreover obtain q where "length msg = 64 * q" using assms(1) by (elim dvdE)
  then have "length (msg @ data) mod 64 = length data mod 64" "length (msg @ data) div 64 * 64 = length msg + ?n" by simp_all
  ultimately show ?thesis using assms(4,5) by (simp only: md5_holds_def Let_def) simp
qed

text \<open>The first half: the new bit count, and the two ways a partly filled buffer goes on.\<close>

definition md5_count :: "nat \<Rightarrow> md5_ctx \<Rightarrow> md5_ctx" where
  "md5_count m ctx =
     (let lo = ucast (((ucast (md5_lo ctx) + of_nat m) :: u64) AND 0x1fffffff);
          hi = (if lo < md5_lo ctx then md5_hi ctx + 1 else md5_hi ctx)
      in ctx\<lparr>md5_lo := lo, md5_hi := hi + ucast (drop_bit 29 (of_nat m :: u64))\<rparr>)"

lemma md5_count_fields [simp]: "md5_buffer (md5_count m ctx) = md5_buffer ctx" "md5_abcd (md5_count m ctx) = md5_abcd ctx"
  by (simp_all add: md5_count_def Let_def)

lemma MD5_Update_cases:
  fixes data :: bytes
  assumes "unat (md5_lo ctx AND 0x3f) = u"
  defines "ctx' \<equiv> md5_count (length data) ctx" and "buf \<equiv> put_at (md5_buffer ctx) u (take (64 - u) data)"
  shows "MD5_Update data ctx =
    (if u = 0 then update_blocks data ctx'
     else if length data < 64 - u then ctx'\<lparr>md5_buffer := put_at (md5_buffer ctx) u data\<rparr>
     else update_blocks (drop (64 - u) data) (md5_body buf (ctx'\<lparr>md5_buffer := buf\<rparr>)))"
  unfolding ctx'_def buf_def by (simp add: MD5_Update_def md5_count_def update_blocks_def Let_def assms(1))

lemma md5_holds_keep:
  fixes data :: bytes
  assumes len: "length msg = 64 * q + u" "u < 64"
    and counts: "unat (md5_lo ctx) = length (msg @ data) mod 2 ^ 29" "unat (md5_hi ctx) = length (msg @ data) div 2 ^ 29 mod 2 ^ 32"
    and buf: "length (md5_buffer ctx) = 64" "take u (md5_buffer ctx) = drop (64 * q) msg"
    and abcd: "md5_abcd ctx = rfc_blocks (take (64 * q) msg) md5_start"
    and small: "length data < 64 - u"
  shows "md5_holds (ctx\<lparr>md5_buffer := put_at (md5_buffer ctx) u data\<rparr>) (msg @ data)"
proof (rule md5_holdsI [of _ q "u + length data"])
  let ?ctx = "ctx\<lparr>md5_buffer := put_at (md5_buffer ctx) u data\<rparr>"
  have full: "64 * q - length msg = 0" "length msg - 64 * q = u" using len by simp_all
  have at: "u \<le> length (md5_buffer ctx)" using len(2) buf(1) by simp
  show "length (msg @ data) = 64 * q + (u + length data)" using len(1) by simp
  show "md5_abcd ?ctx = rfc_blocks (take (64 * q) (msg @ data)) md5_start" by (simp add: abcd full(1))
  show "take (u + length data) (md5_buffer ?ctx) = drop (64 * q) (msg @ data)"
    using buf at by (simp add: put_at_def min_absorb1 full)
qed (use counts small buf len in \<open>simp_all add: put_at_def\<close>)

lemma md5_holds_cross:
  fixes data :: bytes
  assumes len: "length msg = 64 * q + u" "u < 64"
    and counts: "unat (md5_lo ctx) = length (msg @ data) mod 2 ^ 29" "unat (md5_hi ctx) = length (msg @ data) div 2 ^ 29 mod 2 ^ 32"
    and buf: "length (md5_buffer ctx) = 64" "take u (md5_buffer ctx) = drop (64 * q) msg"
    and abcd: "md5_abcd ctx = rfc_blocks (take (64 * q) msg) md5_start"
    and enough: "64 - u \<le> length data"
  defines "b \<equiv> put_at (md5_buffer ctx) u (take (64 - u) data)"
  shows "md5_holds (update_blocks (drop (64 - u) data) (md5_body b (ctx\<lparr>md5_buffer := b\<rparr>))) (msg @ data)"
proof -
  let ?av = "64 - u" and ?full = "take (64 * q) msg" and ?ctx = "md5_body b (ctx\<lparr>md5_buffer := b\<rparr>)"
  have b: "b = drop (64 * q) msg @ take ?av data" "length b = 64"
    using buf len enough by (simp_all add: b_def put_at_def)
  let ?msg = "msg @ take ?av data"
  have "64 dvd length ?full" using len(1) by simp
  then have "rfc_blocks ?msg md5_start = rfc_blocks b (md5_abcd ctx)"
    using rfc_blocks_append [of ?full b md5_start] abcd b(1) by (metis append_assoc append_take_drop_id)
  moreover have "md5_body_loop b (md5_abcd ctx) = rfc_blocks b (md5_abcd ctx)" using b(2) by (intro md5_body_rfc) auto
  moreover have "length ?msg = 64 * (q + 1)" using len enough by simp
  then have "64 dvd length ?msg" by (simp only: dvd_triv_left)
  moreover have "?msg @ drop ?av data = msg @ data" by simp
  ultimately show ?thesis using update_blocks_holds [of ?msg ?ctx "drop ?av data"] counts b(2)
    by (simp only: md5_body_def) simp
qed

lemma md5_holds_update:
  assumes "md5_holds ctx msg" "length data < 2 ^ 64"
  shows "md5_holds (MD5_Update data ctx) (msg @ data)"
proof -
  define q u where "q = length msg div 64" and "u = length msg mod 64"
  have len: "length msg = 64 * q + u" "u < 64" by (simp_all add: q_def u_def)
  have h: "unat (md5_lo ctx) = length msg mod 2 ^ 29" "unat (md5_hi ctx) = length msg div 2 ^ 29 mod 2 ^ 32" "length (md5_buffer ctx) = 64"
    "take u (md5_buffer ctx) = drop (64 * q) msg" "md5_abcd ctx = rfc_blocks (take (64 * q) msg) md5_start"
    using assms(1) by (simp_all add: md5_holds_def Let_def q_def u_def mult.commute)
  note used = low_six [OF h(1), folded u_def]
  define ctx' where "ctx' = md5_count (length data) ctx"
  have cnt: "unat (md5_lo ctx') = length (msg @ data) mod 2 ^ 29" "unat (md5_hi ctx') = length (msg @ data) div 2 ^ 29 mod 2 ^ 32"
    using count_update [OF h(1,2) assms(2)] by (simp_all add: ctx'_def md5_count_def Let_def)
  have ctx': "md5_buffer ctx' = md5_buffer ctx" "md5_abcd ctx' = md5_abcd ctx" by (simp_all add: ctx'_def)
  note facts = len cnt h(3-5) [folded ctx']
  have "md5_holds (update_blocks data ctx') (msg @ data)" if "u = 0"
    using update_blocks_holds [of msg ctx' data] facts that by simp
  then show ?thesis
    using md5_holds_keep [OF facts] md5_holds_cross [OF facts]
    unfolding MD5_Update_cases [OF used] ctx'_def [symmetric] ctx'(1) by simp
qed

lemma md5_holds_updates:
  "md5_holds ctx msg \<Longrightarrow> \<forall>c \<in> set chunks. length c < 2 ^ 64 \<Longrightarrow> md5_holds (fold MD5_Update chunks ctx) (msg @ concat chunks)"
proof (induction chunks arbitrary: ctx msg)
  case (Cons c chunks)
  then show ?case using Cons.IH [of "MD5_Update c ctx" "msg @ c"] md5_holds_update by simp
qed simp

lemma le64_split: "put_unaligned_le64 v = put_unaligned_le32 (ucast v) @ put_unaligned_le32 (ucast (drop_bit 32 v))"
proof -
  have low: "(ucast (drop_bit (8 * i) v) :: u8) = ucast (drop_bit (8 * i) (ucast v :: u32))" if "i < 4" for i
    using that by (intro bit_word_eqI) (auto simp: bit_simps)
  have high: "(ucast (drop_bit (32 + 8 * i) v) :: u8) = ucast (drop_bit (8 * i) (ucast (drop_bit 32 v) :: u32))" if "i < 4" for i
    using that by (intro bit_word_eqI) (auto simp: bit_simps algebra_simps)
  have "[0..<8] = [0..<4] @ map ((+) 4) [0..<4]" by code_simp
  then show ?thesis
    by (simp add: put_unaligned_le64_def put_unaligned_le32_def le_of_word_def low high)
qed

lemma le64_halves:
  fixes lo hi :: u32
  assumes "unat lo = n mod 2 ^ 29" "unat hi = n div 2 ^ 29 mod 2 ^ 32" "n < 2 ^ 61"
  shows "put_unaligned_le32 (push_bit 3 lo) @ put_unaligned_le32 hi = put_unaligned_le64 (of_nat (8 * n))"
proof -
  let ?v = "of_nat (8 * n) :: u64"
  have v: "unat ?v = 8 * n" using assms(3) by (subst unat_of_nat) simp
  have "unat (ucast ?v :: u32) = 8 * n mod 2 ^ 32" using v by (simp add: unsigned_ucast_eq take_bit_eq_mod)
  moreover have "unat (push_bit 3 lo) = 8 * (n mod 2 ^ 29)"
    using assms(1) by (simp add: push_bit_eq_mult unat_word_ariths mult.commute)
  moreover have "8 * (n mod 2 ^ 29) = 8 * n mod 2 ^ 32" using mult_mod_right [of 8 n "2 ^ 29"] by simp
  ultimately have "ucast ?v = push_bit 3 lo" by (simp only: word_unat_eq_iff)
  moreover have "unat (ucast (drop_bit 32 ?v) :: u32) = n div 2 ^ 29 mod 2 ^ 32"
    using v assms(3) by (simp add: unsigned_ucast_eq take_bit_eq_mod drop_bit_eq_div unat_div)
  then have "ucast (drop_bit 32 ?v) = hi" using assms(2) by (simp only: word_unat_eq_iff)
  ultimately show ?thesis by (simp only: le64_split)
qed

definition md5_out :: "md5_state \<Rightarrow> bytes" where
  "md5_out = (\<lambda>(a, b, c, d). put_unaligned_le32 a @ put_unaligned_le32 b @ put_unaligned_le32 c @ put_unaligned_le32 d)"

lemma MD5_Final_pads:
  assumes "unat (md5_lo ctx AND 0x3f) = u" "length (md5_buffer ctx) = 64" "take u (md5_buffer ctx) = rest"
  defines "count \<equiv> put_unaligned_le32 (push_bit 3 (md5_lo ctx)) @ put_unaligned_le32 (md5_hi ctx)"
  assumes u: "u < 64"
  shows "MD5_Final ctx = md5_out (rfc_blocks (rest @ [0x80] @ replicate ((119 - u) mod 64) 0 @ count) (md5_abcd ctx))"
proof -
  have lens: "length (put_unaligned_le32 w) = 4" for w by (simp add: put_unaligned_le32_def)
  have count: "length count = 8" by (simp add: count_def lens)
  have rest: "length rest = u" using assms(2,3) u by auto
  have ends: "put_at (put_at buf 56 (put_unaligned_le32 (push_bit 3 (md5_lo ctx)))) 60 (put_unaligned_le32 (md5_hi ctx)) = take 56 buf @ count"
    if "length buf = 64" for buf
    using that by (simp add: put_at_def lens count_def)
  show ?thesis
  proof (cases "u < 56")
    case True
    let ?buf = "rest @ [0x80] @ replicate (55 - u) 0 @ count"
    define b where "b = put_at (put_at (md5_buffer ctx) u [0x80]) (u + 1) (replicate (55 - u) 0)"
    have nxt: "56 - u = Suc (55 - u)" using True by simp
    have "b = take u (md5_buffer ctx) @ [0x80] @ replicate (55 - u) 0 @ drop 56 (md5_buffer ctx)"
      using assms(2) True by (simp add: b_def put_at_def nxt)
    then have buf: "length b = 64" "take 56 b @ count = ?buf" using assms(2,3) rest True by (simp_all add: nxt)
    have avail: "\<not> 64 - (u + 1) < 8" "64 - (u + 1) - 8 = 55 - u" using True by simp_all
    have "MD5_Final ctx = md5_out (md5_body_loop ?buf (md5_abcd ctx))"
      unfolding MD5_Final_def Let_def assms(1) if_not_P [OF avail(1)] prod.case avail(2)
      unfolding b_def [symmetric] ends [OF buf(1)] buf(2) by (simp add: md5_body_def md5_out_def)
    moreover have "md5_body_loop ?buf (md5_abcd ctx) = rfc_blocks ?buf (md5_abcd ctx)"
      using True rest count by (intro md5_body_rfc) simp_all
    moreover have "(119 - u) mod 64 = 55 - u" using True le_mod_geq [of 64 "119 - u"] by simp
    ultimately show ?thesis by simp
  next
    case False
    define b where "b = put_at (put_at (md5_buffer ctx) u [0x80]) (u + 1) (replicate (64 - (u + 1)) 0)"
    have "b = take u (md5_buffer ctx) @ [0x80] @ replicate (63 - u) 0" using assms(2) u by (simp add: b_def put_at_def)
    then have b: "b = rest @ [0x80] @ replicate (63 - u) 0" "length b = 64" using assms(3) rest u by simp_all
    let ?last = "replicate 56 0 @ count"
    have buf: "length (put_at b 0 (replicate 56 0)) = 64" "take 56 (put_at b 0 (replicate 56 0)) @ count = ?last"
      using b(2) by (simp_all add: put_at_def)
    have avail: "64 - (u + 1) < 8" "64 - 8 = (56 :: nat)" using False by simp_all
    have "MD5_Final ctx = md5_out (md5_body_loop ?last (md5_body_loop b (md5_abcd ctx)))"
      unfolding MD5_Final_def Let_def assms(1) if_P [OF avail(1)] prod.case avail(2)
      unfolding b_def [symmetric] by (simp add: md5_body_def md5_out_def ends [OF buf(1)] buf(2))
    also have "\<dots> = md5_out (rfc_blocks ?last (rfc_blocks b (md5_abcd ctx)))"
      using md5_body_rfc [of b] md5_body_rfc [of ?last] b count by simp
    also have "rfc_blocks ?last (rfc_blocks b (md5_abcd ctx)) = rfc_blocks (b @ ?last) (md5_abcd ctx)"
      using b(2) by (simp add: rfc_blocks_append)
    also have "b @ ?last = rest @ [0x80] @ replicate ((119 - u) mod 64) 0 @ count"
    proof -
      have "(119 - u) mod 64 = 63 - u + 56" using False u by simp
      then show ?thesis by (simp only: b(1) replicate_add append_assoc)
    qed
    finally show ?thesis .
  qed
qed

lemma MD5_Final_rfc:
  assumes "md5_holds ctx msg" "length msg < 2 ^ 61"
  shows "MD5_Final ctx = rfc_md5 msg"
proof -
  let ?n = "length msg" and ?full = "length msg div 64 * 64" and ?u = "length msg mod 64"
  have h: "unat (md5_lo ctx) = ?n mod 2 ^ 29" "unat (md5_hi ctx) = ?n div 2 ^ 29 mod 2 ^ 32" "length (md5_buffer ctx) = 64"
    "take ?u (md5_buffer ctx) = drop ?full msg" "md5_abcd ctx = rfc_blocks (take ?full msg) md5_start"
    using assms(1) by (simp_all add: md5_holds_def Let_def)
  define tail where "tail = drop ?full msg @ [0x80] @ replicate ((119 - ?u) mod 64) 0 @ put_unaligned_le64 (of_nat (8 * ?n))"
  have "MD5_Final ctx = md5_out (rfc_blocks tail (md5_abcd ctx))"
    using MD5_Final_pads [OF low_six [OF h(1)] h(3,4)] by (simp add: tail_def le64_halves [OF h(1,2) assms(2)])
  also have "rfc_blocks tail (md5_abcd ctx) = rfc_blocks (rfc_pad msg) md5_start"
  proof -
    have "rfc_pad msg = take ?full msg @ tail" by (simp add: rfc_pad_def tail_def)
    moreover have "64 dvd length (take ?full msg)" by simp
    ultimately show ?thesis by (simp add: rfc_blocks_append h(5))
  qed
  finally show ?thesis by (simp add: rfc_md5_def md5_out_def)
qed

section \<open>Properties\<close>

text \<open>
  C32. The digest of a message that is passed to \<open>MD5_Update\<close> in pieces of any sizes is the digest RFC 1321
  defines for the whole message, whatever the uninitialised buffer of the context holds: incomplete blocks are
  kept across calls, the bit count is carried over from the 29 low bits to the high word, and padding may take
  one block or two.
\<close>

theorem md5_streaming_is_rfc1321:
  assumes "length junk = 64" "length (concat chunks) < 2 ^ 61"
  shows "MD5_Final (fold MD5_Update chunks (MD5_Init junk)) = rfc_md5 (concat chunks)"
proof (rule MD5_Final_rfc [OF _ assms(2)])
  have "length c < 2 ^ 64" if "c \<in> set chunks" for c
    using that assms(2) member_le_sum_list [of "length c" "map length chunks"] by (simp add: length_concat)
  then show "md5_holds (fold MD5_Update chunks (MD5_Init junk)) (concat chunks)"
    using md5_holds_updates [OF md5_holds_init [OF assms(1)]] by simp
qed

theorem md5_streaming_is_rfc1321_witness:
  "MD5_Final (fold MD5_Update [[97], replicate 70 0, [], [98, 99]] (MD5_Init (replicate 64 7))) =
     rfc_md5 (concat [[97], replicate 70 0, [], [98, 99]])"
proof (rule md5_streaming_is_rfc1321)
  show "length (replicate 64 7) = 64" by (rule length_replicate)
  have "length (concat [[97], replicate 70 0, [], [98, 99 :: 8 word]]) = 73" by (simp add: length_concat)
  then show "length (concat [[97], replicate 70 0, [], [98, 99 :: 8 word]]) < 2 ^ 61" by simp
qed

end
