(* ===== verification/Spec2Isabelle.thy ===== *)
theory Spec2Isabelle
  imports Fscrypt_Proofs Fsx_Detect Fsx_Predict Fsx_Log_Proofs Lib_Random Lib_Pattern Lib_Wlog MD5
begin

text \<open>
  A verification library for C programs of xfstests, the file system test suite.  Most of the repository is
  shell scripts that mount a file system and compare the output of commands; what can be verified is the
  C code those scripts rely on.  Two programs are modelled in full, because a wrong result of either makes
  the suite pass on a broken file system or fail on a correct one; after them come the parts of other
  programs that compute something of their own.

  \<^item> \<open>src/src/fscrypt-crypt-util.c\<close> is an independent implementation of the encryption the kernel does for
    encrypted files.  The tests encrypt file contents with it and compare them with what is on the disk.
  \<^item> \<open>src/ltp/fsx.c\<close> does random operations on one file, keeps the contents it expects in a buffer, and
    compares.

  \<^bold>\<open>Conventions.\<close>  Machine integers are words of their width where the code computes with wrap-around, and
  natural numbers with the reduction written out (\<open>wrap32\<close>, \<open>wrap64\<close>, \<open>c_int\<close>) where it stores sizes and
  offsets.  Memory is a list of bytes.  A routine that can end the process returns a sum with the failure on
  the left.  A loop that need not end is a \<open>partial_function\<close> in the option monad with \<open>None\<close> for not
  returning; there is no fuel anywhere in the development, and the theorems that speak of a result prove
  that it is \<open>Some\<close>.  System calls are parameters: \<open>read_call\<close> and \<open>write_call\<close> in \<open>Fscrypt\<close>, and the
  record \<open>sys\<close> of \<open>Fsx_State\<close>.

  \<^bold>\<open>The encryption utility.\<close>

  \<^item> \<open>Prelude\<close>: types, the result monad, rounding macros, facts on blocks and slices of byte lists.
  \<^item> \<open>Bytes\<close>, \<open>GF\<close>: unaligned access, rotations, hexadecimal input, doubling in \<open>GF(2^8)\<close> (four lanes of a
    word at once, proved to be bytewise) and \<open>GF(2^128)\<close>, addition modulo \<open>2^128\<close>.
  \<^item> \<open>Cipher_Specs\<close>: the locales \<open>block_cipher\<close> and \<open>sector_cipher\<close>, the contracts between the layers.
    Each is interpreted on the functions of the program where they are defined.
  \<^item> \<open>AES\<close>: S-boxes, rounds and key schedule; decryption and encryption are inverse permutations of blocks.
  \<^item> \<open>SHA2\<close>: SHA-256, SHA-512, HMAC, HKDF; padding is injective, HKDF is the concatenation of its blocks
    and stops at the counter limit.
  \<^item> \<open>AES_Modes\<close>: XTS, CBC, ciphertext stealing, ESSIV, XCTR, POLYVAL, HCTR2, CMAC; XTS, CBC with and
    without ciphertext stealing and HCTR2 decrypt what they encrypted, and CBC decryption may be done in place.
  \<^item> \<open>Poly1305\<close>: the code on 26 bit limbs evaluates the polynomial modulo \<open>2^130 - 5\<close>.
  \<^item> \<open>Adiantum\<close>: XChaCha12, NH and the length preserving mode built of them and Poly1305.
  \<^item> \<open>Fscrypt\<close>: SipHash, the table of ciphers, \<open>crypt_loop\<close>, key derivation, IV generation, options, \<open>main\<close>.
  \<^item> \<open>Fscrypt_Proofs\<close>: the data unit loop refines unit-wise encryption of the padded input whatever the
    sizes of the pieces \<open>read\<close> and \<open>write\<close> transfer; \<open>main\<close> with \<open>--decrypt\<close> restores what \<open>main\<close>
    encrypted; the strings given to HKDF separate the uses of a key; IVs of a run do not repeat; a
    request for key and IV succeeds or stops with a message, without a failed assertion.  (An invocation as a whole
    can fail one: a data unit size that is not a whole number of blocks, with XTS.)

  \<^bold>\<open>The file system exerciser.\<close>

  \<^item> \<open>Fsx_State\<close>: the operation codes, the log entries in their ring (\<open>log4\<close>, \<open>log5\<close>), the options as the
    record \<open>fsx_cfg\<close>, the globals as the record \<open>fsx\<close> (over a type of file system states), the record
    \<open>sys\<close> of system calls, and the ways the program ends (\<open>report_failure\<close>, \<open>exit\<close>).
  \<^item> \<open>Fsx_Ops\<close>: one definition per function from \<open>check_buffers\<close> to \<open>docloseopen\<close>: transfers by
    \<open>preadv2\<close>, libaio and io_uring, mapped access, truncation and every operation on ranges.
  \<^item> \<open>Fsx_Log\<close>: \<open>logdump\<close> as the text it prints and the file it writes, and \<open>read_op\<close>.
  \<^item> \<open>Fsx_Test\<close>: \<open>TRIM_OFF\<close>, \<open>TRIM_LEN\<close>, \<open>generate_dest_range\<close>, \<open>test\<close>, and the loop of \<open>main\<close>.
  \<^item> \<open>Fsx_Spec\<close>: \<open>posix_fs\<close>, what the manual pages promise of each system call in terms of the contents of
    the file, and \<open>mem_sys\<close>, a file system in memory that is proved to keep the promises.
  \<^item> \<open>Fsx_Effects\<close>, \<open>Fsx_Reads_Writes\<close>, \<open>Fsx_Ranges\<close>, \<open>Fsx_Run\<close>: on a conforming file system each
    operation, \<open>test\<close>, and a run of any length return without a report and keep the invariant
    \<open>good_state\<close> (buffer lengths, bounds of the size, zeros past the end, file equal to the good buffer).
  \<^item> \<open>Fsx_Detect\<close>: contents that differ from the good buffer are reported, with the offset; with \<open>O_DIRECT\<close>
    the check of the whole file leaves out what follows the last multiple of \<open>readbdy\<close>.
  \<^item> \<open>Fsx_Safety\<close>: with system calls that answer anything, no outcome of \<open>test\<close> breaks the bounds of the
    buffers.  The operations of a replay file are excluded, because the code does not check them.
  \<^item> \<open>Fsx_Predict\<close>: the good buffer after an operation is the effect of the operation on the good buffer
    before it; the transfer interfaces agree; the random ranges are disjoint and in bounds.
  \<^item> \<open>Fsx_Log_Proofs\<close>: the dump holds the last operations, and the replay reader reads what it writes.

  \<^bold>\<open>Library routines and smaller programs.\<close>

  \<^item> \<open>C_Strings\<close>: \<open>strtok\<close>, \<open>isspace\<close>, the conversion of numbers and their formatted output, as the C library
    defines them.
  \<^item> \<open>Lib_Random\<close> (\<open>src/lib/random_range.c\<close>): lists of ranges and the random multiples drawn from a range, on
    \<open>int\<close> with the bounds of the C types checked.  The draws are exactly the multiples in a range of
    non-negative bounds, and the errors are told apart from signed overflow; for negative bounds the draws can be
    outside the range, which two lemmas show.
  \<^item> \<open>Lib_Pattern\<close> (\<open>pattern.c\<close>, \<open>databin.c\<close>, \<open>dataascii.c\<close>): the data the I/O programs write, at
    offsets of type \<open>int\<close> with overflow, as other undefined behaviour, the result \<open>None\<close>.  The locale
    \<open>data_pattern\<close> is the contract of a generator and its checker and is interpreted on four of them.
  \<^item> \<open>Lib_Wlog\<close> (\<open>write_log.c\<close>): the log of writes that \<open>doio\<close> keeps.  Records survive packing, and the scan
    from the end of the file visits them newest first, in a log below two gigabytes.
  \<^item> \<open>MD5\<close> (\<open>src/src/md5.c\<close>): the streaming digest equals the one of RFC 1321.

  \<^bold>\<open>Not modelled.\<close>  In the encryption utility: the self tests compiled only with \<open>ENABLE_ALG_TESTS\<close>, which
  compare with OpenSSL.  In \<open>fsx.c\<close>: messages and progress output, the wall clock limit of \<open>--duration\<close>,
  the handling of signals, the probing of the file system before the loop, huge pages.
  The other programs of \<open>src/ltp\<close> and \<open>src/src\<close> issue system calls and report what the kernel answers;
  \<open>src/common\<close>, \<open>src/tests\<close> and \<open>src/check\<close> are shell scripts.  Neither has a result that can be stated
  without the kernel they run on.
\<close>

end
